(* ===== verification/Prelude.thy ===== *)
theory Prelude
  imports Main "HOL-Library.Word"
begin

text \<open>
  Shared ground of the development: Go's fixed-width integers, byte strings, the result
  type of fallible operations, and the generic list lemmas the components use.

  A Go \<open>int64\<close> is an \<open>int\<close>; where the source does arithmetic that can leave the range,
  the definition applies \<open>wrap64\<close>, Go's two's complement wrap-around. A Go \<open>uint64\<close> is a
  \<open>64 word\<close>, whose operations wrap by themselves. A Go \<open>string\<close> or \<open>[]byte\<close> is a list of
  \<open>char\<close>, which has exactly the 256 values of a byte. A \<open>time.Time\<close> is the (unbounded)
  number of nanoseconds since the Unix epoch.
\<close>

type_synonym bytes = "char list"
type_synonym u64 = "64 word"
type_synonym gotime = int

text \<open>The zero \<open>time.Time\<close>, 1 January of year 1.\<close>

definition zero_time :: gotime where
  "zero_time = - 62135596800000000000"

named_theorems go_int \<open>facts about the ranges and the wrap-around of int64\<close>
named_theorems inv_pres \<open>preservation of the components' invariants\<close>

section \<open>Machine integers\<close>

definition MaxInt64 :: int where
  "MaxInt64 = 9223372036854775807"

definition MinInt64 :: int where
  "MinInt64 = - 9223372036854775808"

definition in_i64 :: "int \<Rightarrow> bool" where
  "in_i64 x \<longleftrightarrow> MinInt64 \<le> x \<and> x \<le> MaxInt64"

definition wrap64 :: "int \<Rightarrow> int" where
  "wrap64 x = (x + 9223372036854775808) mod 18446744073709551616 - 9223372036854775808"

lemma wrap64_id [go_int]: "in_i64 x \<Longrightarrow> wrap64 x = x"
  by (simp add: in_i64_def wrap64_def MinInt64_def MaxInt64_def)

lemma in_i64_wrap64 [go_int]: "in_i64 (wrap64 x)"
proof -
  have "0 \<le> (x + 9223372036854775808) mod 18446744073709551616"
    and "(x + 9223372036854775808) mod 18446744073709551616 < 18446744073709551616"
    by simp_all
  then show ?thesis
    unfolding in_i64_def wrap64_def MinInt64_def MaxInt64_def by linarith
qed

lemma wrap64_cong [go_int]:
  "wrap64 x mod 18446744073709551616 = x mod 18446744073709551616"
  by (simp add: wrap64_def mod_diff_left_eq)

lemma wrap64_diff_zero [go_int]:
  assumes "in_i64 a" and "in_i64 b" and "wrap64 (a - b) = 0"
  shows "a = b"
proof (rule ccontr)
  assume "a \<noteq> b"
  have "(a - b) mod 18446744073709551616 = 0"
    using wrap64_cong [of "a - b"] assms(3) by simp
  then have "18446744073709551616 dvd a - b" by presburger
  with \<open>a \<noteq> b\<close> have "18446744073709551616 \<le> \<bar>a - b\<bar>"
    using dvd_imp_le_int [of "a - b" 18446744073709551616] by simp
  with assms(1,2) show False by (auto simp: in_i64_def MinInt64_def MaxInt64_def)
qed

lemma unat_u64_less [go_int]: "unat (n :: u64) < 18446744073709551616"
  using unsigned_less [of n] by simp

section \<open>Results of fallible operations\<close>

text \<open>A Go function returning \<open>(T, error)\<close> returns \<open>error + T\<close>: \<open>Inl\<close> is the error.\<close>

fun is_ok :: "'e + 'a \<Rightarrow> bool" where
  "is_ok (Inl _) = False"
| "is_ok (Inr _) = True"

lemma is_ok_iff: "is_ok r \<longleftrightarrow> (\<exists>x. r = Inr x)"
  by (cases r) auto

section \<open>Decimal digits\<close>

definition is_digit :: "char \<Rightarrow> bool" where
  "is_digit c \<longleftrightarrow> 48 \<le> (of_char c :: nat) \<and> (of_char c :: nat) \<le> 57"

definition digit_val :: "char \<Rightarrow> nat" where
  "digit_val c = of_char c - 48"

definition digit_char :: "nat \<Rightarrow> char" where
  "digit_char d = char_of (48 + d)"

definition is_digits :: "bytes \<Rightarrow> bool" where
  "is_digits s \<longleftrightarrow> (\<forall>c\<in>set s. is_digit c)"

text \<open>The value of a digit string, most significant digit first.\<close>

definition digits_val :: "bytes \<Rightarrow> nat" where
  "digits_val s = foldl (\<lambda>n c. 10 * n + digit_val c) 0 s"

lemma digit_char_props [simp]:
  assumes "d < 10"
  shows "is_digit (digit_char d)" and "digit_val (digit_char d) = d"
  using assms by (simp_all add: is_digit_def digit_val_def digit_char_def)

lemma digit_val_less: "is_digit c \<Longrightarrow> digit_val c < 10"
  by (auto simp: is_digit_def digit_val_def)

lemma is_digits_simps [simp]:
  "is_digits []"
  "is_digits (c # s) \<longleftrightarrow> is_digit c \<and> is_digits s"
  "is_digits (s @ t) \<longleftrightarrow> is_digits s \<and> is_digits t"
  by (auto simp: is_digits_def)

lemma is_digits_take [intro]: "is_digits s \<Longrightarrow> is_digits (take n s)"
  and is_digits_drop [intro]: "is_digits s \<Longrightarrow> is_digits (drop n s)"
  by (auto simp: is_digits_def dest: in_set_takeD in_set_dropD)

lemma is_digit_0 [simp]: "is_digit CHR ''0''" "digit_val CHR ''0'' = 0"
  by (simp_all add: is_digit_def digit_val_def)

lemma is_digits_replicate0 [simp]: "is_digits (replicate n CHR ''0'')"
  by (simp add: is_digits_def)

lemma not_digit_punct [simp]:
  "\<not> is_digit CHR ''.''" "\<not> is_digit CHR ''-''"
  by (simp_all add: is_digit_def)

lemma foldl_digits:
  "foldl (\<lambda>n c. 10 * n + digit_val c) a s = a * 10 ^ length s + digits_val s"
proof (induction s arbitrary: a)
  case Nil
  then show ?case by (simp add: digits_val_def)
next
  case (Cons c s)
  show ?case
    using Cons.IH [of "10 * a + digit_val c"] Cons.IH [of "digit_val c"]
    by (simp add: digits_val_def algebra_simps)
qed

lemma digits_val_Nil [simp]: "digits_val [] = 0"
  by (simp add: digits_val_def)

lemma digits_val_append: "digits_val (s @ t) = digits_val s * 10 ^ length t + digits_val t"
proof -
  have "digits_val (s @ t) = foldl (\<lambda>n c. 10 * n + digit_val c) (digits_val s) t"
    by (simp add: digits_val_def)
  then show ?thesis by (simp only: foldl_digits)
qed

lemma digits_val_Cons: "digits_val (c # s) = digit_val c * 10 ^ length s + digits_val s"
  using digits_val_append [of "[c]" s] by (simp add: digits_val_def)

lemma digits_val_replicate0 [simp]: "digits_val (replicate n CHR ''0'') = 0"
  by (induction n) (simp_all add: digits_val_Cons)

lemma digits_val_less: "is_digits s \<Longrightarrow> digits_val s < 10 ^ length s"
proof (induction s)
  case Nil
  then show ?case by simp
next
  case (Cons c s)
  then have "digit_val c \<le> 9" and IH: "digits_val s < 10 ^ length s"
    by (auto dest: digit_val_less)
  then have "digit_val c * 10 ^ length s \<le> 9 * 10 ^ length s"
    by simp
  with IH show ?case by (simp only: digits_val_Cons length_Cons power_Suc)
qed

section \<open>Lists\<close>

lemma sorted_wrt_take_drop:
  "sorted_wrt R xs \<Longrightarrow> i \<le> length xs \<Longrightarrow> a \<in> set (take i xs) \<Longrightarrow> b \<in> set (drop i xs) \<Longrightarrow> R a b"
  by (metis append_take_drop_id sorted_wrt_append)

lemma sorted_wrt_nthD:
  "sorted_wrt R xs \<Longrightarrow> i < j \<Longrightarrow> j < length xs \<Longrightarrow> R (xs ! i) (xs ! j)"
  by (simp add: sorted_wrt_iff_nth_less)

text \<open>A list in the order of a key is its groups, one key after the other.\<close>

lemma sorted_groups_step:
  "sorted (map f xs) \<Longrightarrow> \<forall>x\<in>set xs. h \<le> f x \<Longrightarrow> filter (\<lambda>x. f x = h) xs @ filter (\<lambda>x. f x \<noteq> h) xs = xs"
  for f :: "'a \<Rightarrow> int"
proof (induction xs)
  case (Cons x xs)
  show ?case
  proof (cases "f x = h")
    case False
    then have "\<forall>y\<in>set xs. f y \<noteq> h" using Cons.prems by fastforce
    then have "filter (\<lambda>x. f x = h) xs = []" "filter (\<lambda>x. f x \<noteq> h) xs = xs" by (simp_all add: filter_empty_conv filter_id_conv)
    with False show ?thesis by simp
  qed (use Cons in simp)
qed simp

lemma sorted_groups:
  fixes f :: "'a \<Rightarrow> int"
  assumes "sorted (map f xs)" and "sorted_wrt (<) hs" and "f ` set xs \<subseteq> set hs"
  shows "concat (map (\<lambda>h. filter (\<lambda>x. f x = h) xs) hs) = xs"
  using assms
proof (induction hs arbitrary: xs)
  case (Cons h hs)
  let ?ys = "filter (\<lambda>x. f x \<noteq> h) xs"
  have "filter (\<lambda>x. f x = k) xs = filter (\<lambda>x. f x = k) ?ys" if "k \<in> set hs" for k
    using Cons.prems(2) that by (auto intro: filter_cong)
  then have "map (\<lambda>h. filter (\<lambda>x. f x = h) xs) hs = map (\<lambda>h. filter (\<lambda>x. f x = h) ?ys) hs"
    by (rule map_cong [OF refl])
  moreover have "concat (map (\<lambda>h. filter (\<lambda>x. f x = h) ?ys) hs) = ?ys"
    using Cons.prems by (intro Cons.IH) (auto intro: sorted_filter)
  moreover have "\<forall>x\<in>set xs. h \<le> f x" using Cons.prems(2,3) by force
  ultimately show ?case using sorted_groups_step [OF Cons.prems(1), of h] by (simp only: list.map concat.simps)
qed simp

end
