(* ===== verification/Model.thy ===== *)
theory Model
  imports Prelude
begin

text \<open>
  The package \<^verbatim>\<open>internal/model\<close>: the normalised event types, and the fixed-point
  arithmetic of \<^verbatim>\<open>fixed.go\<close>. Prices, quantities and update ids are \<open>int64\<close> values
  (see \<open>Prelude\<close>). \<open>ParseFixed\<close> and \<open>FormatFixed\<close> are shown to be inverse on the whole
  \<open>int64\<close> range, and \<open>ParseFixed\<close> to compute the scaled value of a decimal or to report
  exactly why it cannot.
\<close>

section \<open>Event types (types.go, frame.go, instrument.go)\<close>

type_synonym Price_t = int
type_synonym Qty_t = int
type_synonym Symbol = string

datatype EventKind = KindTrade | KindBookDelta | KindSnapshot | KindOther nat

record Level =
  Price :: Price_t
  Qty :: Qty_t

record Trade =
  trade_Symbol :: Symbol
  trade_Price :: Price_t
  trade_Qty :: Qty_t
  IsBuy :: bool

record BookDelta =
  delta_Symbol :: Symbol
  FirstID :: int
  delta_LastID :: int
  delta_Bids :: "Level list"
  delta_Asks :: "Level list"

record Snapshot =
  snap_Symbol :: Symbol
  snap_LastID :: int
  snap_Bids :: "Level list"
  snap_Asks :: "Level list"
  Truncated :: bool

record Event =
  Kind :: EventKind
  ExchangeTime :: int
  ReceivedAt :: int
  ev_Trade :: Trade
  ev_BookDelta :: BookDelta
  ev_Snapshot :: Snapshot

record Frame =
  Data :: bytes
  frame_ReceivedAt :: gotime

record Instrument =
  inst_Symbol :: Symbol
  PriceDecimals :: int
  QtyDecimals :: int

text \<open>The zero values Go gives to the payload fields an event does not set.\<close>

definition zero_Trade :: Trade where
  "zero_Trade = \<lparr>trade_Symbol = [], trade_Price = 0, trade_Qty = 0, IsBuy = False\<rparr>"

definition zero_BookDelta :: BookDelta where
  "zero_BookDelta =
     \<lparr>delta_Symbol = [], FirstID = 0, delta_LastID = 0, delta_Bids = [], delta_Asks = []\<rparr>"

definition zero_Snapshot :: Snapshot where
  "zero_Snapshot =
     \<lparr>snap_Symbol = [], snap_LastID = 0, snap_Bids = [], snap_Asks = [], Truncated = False\<rparr>"

definition zero_Event :: Event where
  "zero_Event =
     \<lparr>Kind = KindOther 0, ExchangeTime = 0, ReceivedAt = 0, ev_Trade = zero_Trade,
      ev_BookDelta = zero_BookDelta, ev_Snapshot = zero_Snapshot\<rparr>"

section \<open>strconv and strings, as fixed.go uses them\<close>

datatype num_error = ErrSyntax | ErrRange

text \<open>
  The digit loop of \<open>strconv.ParseUint\<close> at base 10 and 64 bits: the cutoff test before the
  multiplication, the wrap-around test after the addition.
\<close>

fun ParseUint_loop :: "u64 \<Rightarrow> bytes \<Rightarrow> num_error + u64" where
  "ParseUint_loop n [] = Inr n"
| "ParseUint_loop n (c # cs) =
     (if \<not> is_digit c then Inl ErrSyntax
      else if 1844674407370955162 \<le> n then Inl ErrRange
      else let n10 = n * 10; n1 = n10 + of_nat (digit_val c)
           in if n1 < n10 then Inl ErrRange else ParseUint_loop n1 cs)"

definition ParseUint :: "bytes \<Rightarrow> num_error + u64" where
  "ParseUint s = (if s = [] then Inl ErrSyntax else ParseUint_loop 0 s)"

text \<open>\<open>strconv.FormatUint\<close> at base 10, on the value of the word.\<close>

fun digits10 :: "nat \<Rightarrow> bytes" where
  "digits10 n = (if n < 10 then [digit_char n] else digits10 (n div 10) @ [digit_char (n mod 10)])"

declare digits10.simps [simp del]

definition FormatUint :: "u64 \<Rightarrow> bytes" where
  "FormatUint w = digits10 (unat w)"

definition FormatInt :: "int \<Rightarrow> bytes" where
  "FormatInt v = (if v < 0 then CHR ''-'' # digits10 (nat (- v)) else digits10 (nat v))"

text \<open>\<open>strings.Cut\<close> with a one-byte separator.\<close>

fun Cut :: "bytes \<Rightarrow> char \<Rightarrow> bytes \<times> bytes \<times> bool" where
  "Cut [] sep = ([], [], False)"
| "Cut (c # cs) sep =
     (if c = sep then ([], cs, True)
      else let (before, after, found) = Cut cs sep in (c # before, after, found))"

section \<open>fixed.go\<close>

text \<open>
  The errors of \<open>ParseFixed\<close>. \<open>IndexPanic\<close> is the run-time panic of reading the fraction at
  a negative index, which a negative \<open>decimals\<close> leads to.
\<close>

datatype parse_error = ErrInvalidSyntax | ErrOverflow | ErrTooManyDecimals | IndexPanic

text \<open>The fraction cut to \<open>decimals\<close> digits, which must lose zeros only, and padded to it.\<close>

definition fit_fraction :: "bytes \<Rightarrow> int \<Rightarrow> parse_error + bytes" where
  "fit_fraction fracPart decimals =
    (let cut = (if int (length fracPart) > decimals
                then if decimals < 0 then Inl IndexPanic
                     else if \<exists>c\<in>set (drop (nat decimals) fracPart). c \<noteq> CHR ''0''
                     then Inl ErrTooManyDecimals
                     else Inr (take (nat decimals) fracPart)
                else Inr fracPart)
     in case cut of
          Inl e \<Rightarrow> Inl e
        | Inr frac \<Rightarrow> Inr (frac @ replicate (nat (decimals - int (length frac))) CHR ''0''))"

text \<open>The \<open>int64\<close> of a parsed magnitude and its sign.\<close>

definition signed_value :: "bool \<Rightarrow> u64 \<Rightarrow> parse_error + int" where
  "signed_value neg val =
    (if neg
     then if val > 9223372036854775808 then Inl ErrOverflow
          else if val = 9223372036854775808 then Inr MinInt64
          else Inr (- sint val)
     else if val > 9223372036854775807 then Inl ErrOverflow
          else Inr (sint val))"

definition ParseFixed :: "bytes \<Rightarrow> int \<Rightarrow> parse_error + int" where
  "ParseFixed s decimals =
    (if s = [] then Inl ErrInvalidSyntax
     else
      let neg = (hd s = CHR ''-'');
          rest = (if neg then tl s else s)
      in if rest = [] then Inl ErrInvalidSyntax
      else
       let (intPart0, fracPart, _) = Cut rest CHR ''.'';
           intPart = (if intPart0 = [] then ''0'' else intPart0)
       in case fit_fraction fracPart decimals of
            Inl e \<Rightarrow> Inl e
          | Inr frac \<Rightarrow>
             (case ParseUint (intPart @ frac) of
                Inl ErrRange \<Rightarrow> Inl ErrOverflow
              | Inl ErrSyntax \<Rightarrow> Inl ErrInvalidSyntax
              | Inr val \<Rightarrow> signed_value neg val))"

definition ParsePrice :: "bytes \<Rightarrow> int \<Rightarrow> parse_error + Price_t" where
  "ParsePrice s decimals = ParseFixed s decimals"

definition ParseQty :: "bytes \<Rightarrow> int \<Rightarrow> parse_error + Qty_t" where
  "ParseQty s decimals = ParseFixed s decimals"

definition FormatFixed :: "int \<Rightarrow> int \<Rightarrow> bytes" where
  "FormatFixed v decimals =
    (if decimals \<le> 0 then FormatInt v
     else
      let mag0 = (word_of_int v :: u64);
          mag = (if v < 0 then - mag0 else mag0);
          digits0 = FormatUint mag;
          digits = (if int (length digits0) \<le> decimals
                    then replicate (nat decimals - length digits0 + 1) CHR ''0'' @ digits0
                    else digits0);
          split = length digits - nat decimals
      in (if v < 0 then ''-'' else []) @ take split digits @ ''.'' @ drop split digits)"

text \<open>\<open>bits.Mul64\<close>: the high and low words of the 128-bit product.\<close>

definition Mul64 :: "u64 \<Rightarrow> u64 \<Rightarrow> u64 \<times> u64" where
  "Mul64 x y = (word_of_int ((uint x * uint y) div 2 ^ 64), x * y)"

definition Notional :: "Price_t \<Rightarrow> Qty_t \<Rightarrow> int \<times> bool" where
  "Notional p q =
    (if p < 0 \<or> q < 0 then (0, True)
     else let (hi, lo) = Mul64 (word_of_int p) (word_of_int q)
          in if hi \<noteq> 0 \<or> lo > 9223372036854775807 then (0, True)
             else (sint lo, False))"

section \<open>Digits and ParseUint\<close>

lemma digits10_ok [simp]: "is_digits (digits10 n)" "digits10 n \<noteq> []" "digits_val (digits10 n) = n"
proof (induction n rule: digits10.induct)
  case (1 n)
  have step: "digits10 n =
      (if n < 10 then [digit_char n] else digits10 (n div 10) @ [digit_char (n mod 10)])"
    by (rule digits10.simps)
  { case 1 show ?case using "1.IH"(1) by (subst step) auto
  next case 2 show ?case by (subst step) auto
  next case 3 show ?case using "1.IH"(3) by (subst step) (auto simp: digits_val_append digits_val_Cons) }
qed

lemma unat_mul10_add:
  fixes n :: u64
  assumes "unat n < 1844674407370955162" and "d < 10"
  shows "unat (n * 10) = unat n * 10"
    and "n * 10 + of_nat d < n * 10 \<longleftrightarrow> 18446744073709551616 \<le> unat n * 10 + d"
    and "unat n * 10 + d < 18446744073709551616 \<Longrightarrow> unat (n * 10 + of_nat d) = unat n * 10 + d"
proof -
  show mul: "unat (n * 10) = unat n * 10"
    using assms(1) by (simp add: unat_word_ariths)
  have d: "unat (of_nat d :: u64) = d"
    using assms(2) by (simp add: unat_of_nat)
  have sum: "unat (n * 10 + of_nat d) = (unat n * 10 + d) mod 18446744073709551616"
    by (simp add: unat_word_ariths(1) mul d)
  then show "unat n * 10 + d < 18446744073709551616 \<Longrightarrow> unat (n * 10 + of_nat d) = unat n * 10 + d"
    by simp
  have "(unat n * 10 + d) mod 18446744073709551616 < unat n * 10
      \<longleftrightarrow> 18446744073709551616 \<le> unat n * 10 + d"
  proof (cases "18446744073709551616 \<le> unat n * 10 + d")
    case True
    then have "(unat n * 10 + d) mod 18446744073709551616 = unat n * 10 + d - 18446744073709551616"
      using assms by (simp add: mod_if)
    with True assms show ?thesis by linarith
  qed simp
  then show "n * 10 + of_nat d < n * 10 \<longleftrightarrow> 18446744073709551616 \<le> unat n * 10 + d"
    by (simp add: word_less_nat_alt sum mul)
qed

lemma ParseUint_loop_digits:
  "is_digits s \<Longrightarrow> ParseUint_loop n s =
    (if unat n * 10 ^ length s + digits_val s < 18446744073709551616
     then Inr (of_nat (unat n * 10 ^ length s + digits_val s)) else Inl ErrRange)"
proof (induction s arbitrary: n)
  case Nil
  show ?case using unat_u64_less [of n] by simp
next
  case (Cons c s)
  then have c: "is_digit c" and s: "is_digits s" and d: "digit_val c < 10"
    by (simp_all add: digit_val_less)
  have one: "1 \<le> (10::nat) ^ length s" by simp
  have total: "unat n * 10 ^ length (c # s) + digits_val (c # s)
      = (unat n * 10 + digit_val c) * 10 ^ length s + digits_val s"
    by (simp add: digits_val_Cons algebra_simps)
  show ?case
  proof (cases "unat n < 1844674407370955162")
    case small: True
    note w = unat_mul10_add [OF small d]
    show ?thesis
    proof (cases "unat n * 10 + digit_val c < 18446744073709551616")
      case True
      with small c have "ParseUint_loop n (c # s) = ParseUint_loop (n * 10 + of_nat (digit_val c)) s"
        using w(2) by (auto simp: Let_def word_le_nat_alt)
      then show ?thesis
        unfolding Cons.IH [OF s] w(3) [OF True] total by simp
    next
      case False
      have "unat n * 10 + digit_val c \<le> (unat n * 10 + digit_val c) * 10 ^ length s"
        using mult_le_mono2 [OF one] by simp
      with False have "\<not> (unat n * 10 + digit_val c) * 10 ^ length s + digits_val s < 18446744073709551616"
        by linarith
      moreover have "ParseUint_loop n (c # s) = Inl ErrRange"
        using False small c w(2) by (auto simp: Let_def word_le_nat_alt)
      ultimately show ?thesis unfolding total by simp
    qed
  next
    case False
    have "unat n * 10 + digit_val c \<le> (unat n * 10 + digit_val c) * 10 ^ length s"
      using mult_le_mono2 [OF one] by simp
    with False have "\<not> (unat n * 10 + digit_val c) * 10 ^ length s + digits_val s < 18446744073709551616"
      by linarith
    moreover have "ParseUint_loop n (c # s) = Inl ErrRange"
      using False c by (auto simp: Let_def word_le_nat_alt)
    ultimately show ?thesis unfolding total by simp
  qed
qed

lemma ParseUint_digits:
  "is_digits s \<Longrightarrow> s \<noteq> [] \<Longrightarrow> ParseUint s =
    (if digits_val s < 18446744073709551616 then Inr (of_nat (digits_val s)) else Inl ErrRange)"
  by (simp add: ParseUint_def ParseUint_loop_digits)

section \<open>ParseFixed and FormatFixed\<close>

lemma Cut_digits: "is_digits I \<Longrightarrow> Cut (I @ CHR ''.'' # F) CHR ''.'' = (I, F, True)"
  by (induction I) auto

lemma Cut_no_dot: "is_digits I \<Longrightarrow> Cut I CHR ''.'' = (I, [], False)"
  by (induction I) auto

text \<open>The written form of a decimal: a sign, an integer part, and a fraction after a dot.\<close>

definition decimal :: "bool \<Rightarrow> bytes \<Rightarrow> bytes option \<Rightarrow> bytes" where
  "decimal neg I F = (if neg then ''-'' else []) @ I @ (case F of None \<Rightarrow> [] | Some f \<Rightarrow> CHR ''.'' # f)"

text \<open>The magnitude a decimal denotes at an exponent, its excess fraction being cut off.\<close>

definition scaled :: "nat \<Rightarrow> bytes \<Rightarrow> bytes \<Rightarrow> nat" where
  "scaled d I f = digits_val I * 10 ^ d + digits_val (take d f) * 10 ^ (d - length f)"

definition fraction_of :: "bytes option \<Rightarrow> bytes" where
  "fraction_of F = (case F of None \<Rightarrow> [] | Some f \<Rightarrow> f)"

lemma Cut_decimal:
  "is_digits I \<Longrightarrow> Cut (decimal False I F) CHR ''.'' = (I, fraction_of F, F \<noteq> None)"
  by (cases F) (simp_all add: decimal_def fraction_of_def Cut_digits Cut_no_dot)

lemma decimal_hd: "is_digits I \<Longrightarrow> decimal False I F \<noteq> [] \<Longrightarrow> hd (decimal False I F) \<noteq> CHR ''-''"
  by (cases I; cases F) (auto simp: decimal_def)

lemma scaled_digits:
  assumes "f1 = take d f" and "I' = (if I = [] then ''0'' else I)"
  shows "digits_val (I' @ f1 @ replicate (d - length f1) CHR ''0'') = scaled d I f"
proof -
  have I': "digits_val I' = digits_val I"
    using assms(2) by (simp add: digits_val_Cons)
  have len: "min (length f) d + (d - length f) = d" and pad: "d - min (length f) d = d - length f"
    by auto
  show ?thesis
    by (simp add: digits_val_append I' scaled_def assms(1) len pad)
qed

lemma sint_u64_small: "n < 9223372036854775808 \<Longrightarrow> sint (of_nat n :: u64) = int n"
  by (simp add: signed_of_nat signed_take_bit_int_eq_self)

lemma of_nat_u64_compare:
  assumes "n < 18446744073709551616"
  shows "(of_nat n :: u64) > 9223372036854775808 \<longleftrightarrow> n > 9223372036854775808"
    and "(of_nat n :: u64) = 9223372036854775808 \<longleftrightarrow> n = 9223372036854775808"
    and "(of_nat n :: u64) > 9223372036854775807 \<longleftrightarrow> n > 9223372036854775807"
proof -
  have u: "unat (of_nat n :: u64) = n"
    using assms by (simp add: unat_of_nat)
  show "(of_nat n :: u64) > 9223372036854775808 \<longleftrightarrow> n > 9223372036854775808"
    and "(of_nat n :: u64) > 9223372036854775807 \<longleftrightarrow> n > 9223372036854775807"
    by (simp_all add: word_less_nat_alt u)
  show "(of_nat n :: u64) = 9223372036854775808 \<longleftrightarrow> n = 9223372036854775808"
    by (simp add: word_unat_eq_iff u)
qed

lemma signed_value_of_nat:
  assumes "m < 18446744073709551616"
  shows "signed_value neg (of_nat m) =
    (let v = (if neg then - int m else int m) in if in_i64 v then Inr v else Inl ErrOverflow)"
  by (auto simp: signed_value_def Let_def of_nat_u64_compare [OF assms] sint_u64_small
      in_i64_def MinInt64_def MaxInt64_def)

lemma fit_fraction_nat:
  "fit_fraction f (int d) =
    (if \<exists>c\<in>set (drop d f). c \<noteq> CHR ''0'' then Inl ErrTooManyDecimals
     else Inr (take d f @ replicate (d - length (take d f)) CHR ''0''))"
  by (auto simp: fit_fraction_def Let_def nat_diff_distrib)

lemma ParseFixed_decimal_eq:
  assumes "is_digits I" and "is_digits (fraction_of F)" and "decimal False I F \<noteq> []"
  shows "ParseFixed (decimal neg I F) (int d) =
    (if \<exists>c\<in>set (drop d (fraction_of F)). c \<noteq> CHR ''0'' then Inl ErrTooManyDecimals
     else let v = (if neg then - int (scaled d I (fraction_of F)) else int (scaled d I (fraction_of F)))
          in if in_i64 v then Inr v else Inl ErrOverflow)"
proof -
  let ?s = "decimal neg I F" and ?f = "fraction_of F"
  let ?I = "if I = [] then ''0'' else I"
  let ?all = "?I @ take d ?f @ replicate (d - length (take d ?f)) CHR ''0''"
  let ?m = "scaled d I ?f"
  have val: "digits_val ?all = ?m"
    by (rule scaled_digits) auto
  have digits: "is_digits ?all" "?all \<noteq> []"
    using assms(1,2) by auto
  have rest: "?s \<noteq> []" "(hd ?s = CHR ''-'') = neg" "(if neg then tl ?s else ?s) = decimal False I F"
    using decimal_hd [OF assms(1,3)] assms(3) by (auto simp: decimal_def)
  have "ParseFixed ?s (int d) =
      (case fit_fraction ?f (int d) of Inl e \<Rightarrow> Inl e
       | Inr frac \<Rightarrow> (case ParseUint (?I @ frac) of Inl ErrRange \<Rightarrow> Inl ErrOverflow
           | Inl ErrSyntax \<Rightarrow> Inl ErrInvalidSyntax | Inr v \<Rightarrow> signed_value neg v))"
    unfolding ParseFixed_def Let_def rest(2,3) using rest(1) assms(3)
    by (simp add: Cut_decimal [OF assms(1)])
  also have "\<dots> = (if \<exists>c\<in>set (drop d ?f). c \<noteq> CHR ''0'' then Inl ErrTooManyDecimals
      else if ?m < 18446744073709551616 then signed_value neg (of_nat ?m) else Inl ErrOverflow)"
    unfolding fit_fraction_nat using ParseUint_digits [OF digits] val by simp
  also have "\<dots> = (if \<exists>c\<in>set (drop d ?f). c \<noteq> CHR ''0'' then Inl ErrTooManyDecimals
      else let v = (if neg then - int ?m else int ?m) in if in_i64 v then Inr v else Inl ErrOverflow)"
    by (auto simp: signed_value_of_nat Let_def in_i64_def MinInt64_def MaxInt64_def)
  finally show ?thesis .
qed

lemma unat_magnitude:
  assumes "in_i64 v"
  shows "unat (if v < 0 then - (word_of_int v :: u64) else word_of_int v) = nat \<bar>v\<bar>"
proof -
  have "(if v < 0 then - (word_of_int v :: u64) else word_of_int v) = of_nat (nat \<bar>v\<bar>)"
    by (simp add: abs_if)
  moreover have "nat \<bar>v\<bar> < 18446744073709551616"
    using assms by (auto simp: in_i64_def MinInt64_def MaxInt64_def)
  ultimately show ?thesis by (simp only: unat_of_nat) simp
qed

text \<open>\<open>FormatFixed\<close> writes a decimal whose fraction has exactly \<open>decimals\<close> digits.\<close>

lemma FormatFixed_decimal:
  assumes "in_i64 v"
  shows "\<exists>I F. FormatFixed v (int d) = decimal (v < 0) I F \<and> is_digits I \<and> I \<noteq> []
    \<and> is_digits (fraction_of F) \<and> length (fraction_of F) = d \<and> scaled d I (fraction_of F) = nat \<bar>v\<bar>"
proof (cases "d = 0")
  case True
  let ?I = "digits10 (nat \<bar>v\<bar>)"
  have "FormatFixed v (int d) = decimal (v < 0) ?I None"
    using True by (simp add: FormatFixed_def FormatInt_def decimal_def abs_if)
  then show ?thesis
    using True by (intro exI [of _ ?I] exI [of _ None]) (simp add: fraction_of_def scaled_def)
next
  case False
  define ds where "ds = digits10 (nat \<bar>v\<bar>)"
  define padded where
    "padded = (if length ds \<le> d then replicate (d - length ds + 1) CHR ''0'' @ ds else ds)"
  define I f where "I = take (length padded - d) padded" and "f = drop (length padded - d) padded"
  have digits: "is_digits padded" and val: "digits_val padded = nat \<bar>v\<bar>" and longer: "d < length padded"
    by (auto simp: padded_def ds_def digits_val_append digits_val_Cons)
  have fmt: "FormatFixed v (int d) = decimal (v < 0) I (Some f)"
    using False unat_magnitude [OF assms]
    by (simp add: FormatFixed_def Let_def FormatUint_def decimal_def I_def f_def padded_def ds_def)
  have ne: "I \<noteq> []" and len: "length f = d"
    using longer by (auto simp: I_def f_def)
  have "scaled d I f = digits_val (I @ f)"
    by (simp add: scaled_def digits_val_append len)
  then have sc: "scaled d I f = nat \<bar>v\<bar>"
    by (simp add: I_def f_def val)
  have "is_digits I" "is_digits f"
    using digits by (auto simp: I_def f_def)
  with fmt ne len sc show ?thesis
    by (intro exI [of _ I] exI [of _ "Some f"]) (simp add: fraction_of_def)
qed

lemma fixed_round_trip:
  assumes "in_i64 v" and "0 \<le> decimals"
  shows "ParseFixed (FormatFixed v decimals) decimals = Inr v"
proof -
  obtain d where d: "decimals = int d"
    using assms(2) by (metis nonneg_int_cases)
  obtain I F where fmt: "FormatFixed v (int d) = decimal (v < 0) I F"
    and I: "is_digits I" "I \<noteq> []" and F: "is_digits (fraction_of F)" "length (fraction_of F) = d"
    and val: "scaled d I (fraction_of F) = nat \<bar>v\<bar>"
    using FormatFixed_decimal [OF assms(1)] by blast
  have "decimal False I F \<noteq> []"
    using I(2) by (simp add: decimal_def)
  from ParseFixed_decimal_eq [OF I(1) F(1) this, of "v < 0" d] show ?thesis
    using assms(1) F(2) val by (simp add: fmt d Let_def abs_if split: if_splits)
qed

text \<open>
  C31. Round trip of the fixed-point format: for every \<open>int64\<close> value, \<open>MinInt64\<close> included, and
  every exponent that is not negative, \<open>ParseFixed\<close> reads back exactly what \<open>FormatFixed\<close>
  wrote.
\<close>

theorem ParseFixed_FormatFixed:
  assumes "in_i64 v" and "0 \<le> decimals"
  shows "ParseFixed (FormatFixed v decimals) decimals = Inr v"
  by (rule fixed_round_trip [OF assms])

text \<open>C31 at the smallest \<open>int64\<close>, whose magnitude is not itself an \<open>int64\<close>.\<close>

theorem ParseFixed_FormatFixed_witness:
  "in_i64 MinInt64 \<and> (0::int) \<le> 8 \<and> ParseFixed (FormatFixed MinInt64 8) 8 = Inr MinInt64"
proof -
  have "in_i64 MinInt64" by (simp add: in_i64_def MinInt64_def MaxInt64_def)
  then show ?thesis using ParseFixed_FormatFixed [of MinInt64 8] by simp
qed

text \<open>
  C32. \<open>ParseFixed\<close> on every written decimal, at every exponent that is not negative: a
  fraction with a non-zero digit past the exponent is \<open>ErrTooManyDecimals\<close>; otherwise the
  result is the exact scaled value, or \<open>ErrOverflow\<close> precisely when that value is not an
  \<open>int64\<close>. No digit is rounded or lost.
\<close>

theorem ParseFixed_decimal:
  assumes "is_digits I" and "is_digits (fraction_of F)" and "decimal False I F \<noteq> []"
  shows "ParseFixed (decimal neg I F) (int d) =
    (if \<exists>c\<in>set (drop d (fraction_of F)). c \<noteq> CHR ''0'' then Inl ErrTooManyDecimals
     else let v = (if neg then - int (scaled d I (fraction_of F)) else int (scaled d I (fraction_of F)))
          in if in_i64 v then Inr v else Inl ErrOverflow)"
  using assms by (rule ParseFixed_decimal_eq)

text \<open>C32 at a price as Binance sends it: eight decimals on a two-decimal instrument.\<close>

theorem ParseFixed_decimal_witness:
  "is_digits ''78737'' \<and> ParseFixed ''-78737.26000000'' 2 = Inr (- 7873726)
   \<and> ParseFixed ''78737.26000001'' 2 = Inl ErrTooManyDecimals"
proof -
  have digits: "is_digits ''78737''" "is_digits (fraction_of (Some ''26000000''))"
    "is_digits (fraction_of (Some ''26000001''))"
    by (simp_all add: is_digit_def fraction_of_def)
  have ne: "decimal False ''78737'' (Some f) \<noteq> []" for f
    by (simp add: decimal_def)
  have "ParseFixed (decimal True ''78737'' (Some ''26000000'')) (int 2) = Inr (- 7873726)"
    unfolding ParseFixed_decimal [OF digits(1,2) ne]
    by (simp add: fraction_of_def scaled_def digits_val_def digit_val_def Let_def in_i64_def
        MinInt64_def MaxInt64_def)
  moreover have "ParseFixed (decimal False ''78737'' (Some ''26000001'')) (int 2) = Inl ErrTooManyDecimals"
    unfolding ParseFixed_decimal [OF digits(1,3) ne] by (simp add: fraction_of_def)
  ultimately show ?thesis using digits(1) by (simp add: decimal_def)
qed

text \<open>
  \<open>Notional\<close> on \<open>int64\<close> arguments: the exact product when both are non-negative and the
  product is an \<open>int64\<close>, the overflow flag in every other case.
\<close>

lemma Notional_exact:
  assumes "in_i64 p" and "in_i64 q"
  shows "Notional p q = (if 0 \<le> p \<and> 0 \<le> q \<and> p * q \<le> MaxInt64 then (p * q, False) else (0, True))"
proof (cases "0 \<le> p \<and> 0 \<le> q")
  case True
  then have p: "uint (word_of_int p :: u64) = p" and q: "uint (word_of_int q :: u64) = q"
    and nn: "0 \<le> p * q"
    using assms by (auto simp: in_i64_def MaxInt64_def uint_word_of_int)
  have "p \<le> 9223372036854775807" "q \<le> 9223372036854775807"
    using assms by (auto simp: in_i64_def MaxInt64_def)
  with True have "p * q \<le> 9223372036854775807 * 9223372036854775807"
    by (intro mult_mono) auto
  then have "p * q div 18446744073709551616 < 18446744073709551616" by linarith
  then have hi: "(word_of_int (p * q div 2 ^ 64) :: u64) = 0 \<longleftrightarrow> p * q < 18446744073709551616"
    using nn by (simp add: word_of_int_eq_0_iff dvd_eq_mod_eq_0) linarith
  have lo: "uint (word_of_int p * word_of_int q :: u64) = (p * q) mod 18446744073709551616"
    by (simp add: uint_word_ariths p q)
  have small: "sint (word_of_int p * word_of_int q :: u64) = p * q" if "p * q \<le> MaxInt64"
    using that nn by (simp only: wi_hom_mult int_word_sint) (simp add: MaxInt64_def)
  have lo_gt: "(word_of_int p * word_of_int q :: u64) > 9223372036854775807
      \<longleftrightarrow> 9223372036854775807 < (p * q) mod 18446744073709551616"
    by (simp only: word_less_def lo) simp
  have "Notional p q = (if \<not> p * q < 18446744073709551616
      \<or> 9223372036854775807 < (p * q) mod 18446744073709551616 then (0, True)
      else (sint (word_of_int p * word_of_int q :: u64), False))"
    using True by (simp only: Notional_def Mul64_def Let_def prod.case p q hi lo_gt) auto
  then show ?thesis
    using True nn small by (auto simp: MaxInt64_def)
next
  case False
  then show ?thesis by (auto simp: Notional_def)
qed

end
