(* ===== verification/Book.thy ===== *)
theory Book
  imports Model "HOL-Library.Multiset"
begin

text \<open>
  The order book of \<^verbatim>\<open>internal/book/book.go\<close>: two sides, each a list of levels kept
  sorted so that the head is the top of book, searched by bisection. The abstract view of a
  side is the function from prices to quantities, zero where no level is held
  (\<open>qty_at\<close>); \<open>level_store\<close> is the interface the layers above rely on, interpreted on
  \<open>side\<close> at the end of the theory.
\<close>

section \<open>side\<close>

datatype book_error =
    ErrInvalidPrice Price_t
  | ErrNegativeQty Price_t Qty_t
  | ErrDuplicatePrice Price_t

record side =
  levels :: "Level list"
  desc :: bool

text \<open>\<open>cmp.Compare\<close> on integers, and the one ordering of a side.\<close>

definition cmp_Compare :: "int \<Rightarrow> int \<Rightarrow> int" where
  "cmp_Compare x y = (if x < y then - 1 else if x > y then 1 else 0)"

definition side_compare :: "side \<Rightarrow> Level \<Rightarrow> Price_t \<Rightarrow> int" where
  "side_compare s l p = (if desc s then cmp_Compare p (Price l) else cmp_Compare (Price l) p)"

text \<open>The loop of \<open>slices.BinarySearchFunc\<close>: \<open>i\<close> and \<open>j\<close> close in on the insertion point.\<close>

function bsearch_loop :: "side \<Rightarrow> Price_t \<Rightarrow> nat \<Rightarrow> nat \<Rightarrow> nat" where
  "bsearch_loop s p i j =
    (if i < j
     then let h = (i + j) div 2
          in if side_compare s (levels s ! h) p < 0 then bsearch_loop s p (h + 1) j
             else bsearch_loop s p i h
     else i)"
  by pat_completeness auto
termination
  by (relation "measure (\<lambda>(s, p, i, j). j - i)") auto

declare bsearch_loop.simps [simp del]

definition search :: "side \<Rightarrow> Price_t \<Rightarrow> nat \<times> bool" where
  "search s p =
    (let n = length (levels s); i = bsearch_loop s p 0 n
     in (i, i < n \<and> side_compare s (levels s ! i) p = 0))"

text \<open>\<open>slices.Insert\<close> of one element and \<open>slices.Delete\<close> of a range.\<close>

definition slice_insert :: "'a list \<Rightarrow> nat \<Rightarrow> 'a \<Rightarrow> 'a list" where
  "slice_insert xs i x = take i xs @ x # drop i xs"

definition slice_delete :: "'a list \<Rightarrow> nat \<Rightarrow> nat \<Rightarrow> 'a list" where
  "slice_delete xs i j = take i xs @ drop j xs"

definition side_apply :: "side \<Rightarrow> Level \<Rightarrow> side" where
  "side_apply s l =
    (let (i, found) = search s (Price l)
     in if Qty l \<noteq> 0 \<and> found then s\<lparr>levels := (levels s)[i := (levels s ! i)\<lparr>Qty := Qty l\<rparr>]\<rparr>
        else if Qty l \<noteq> 0 then s\<lparr>levels := slice_insert (levels s) i l\<rparr>
        else if found then s\<lparr>levels := slice_delete (levels s) i (i + 1)\<rparr>
        else s)"

definition side_top :: "side \<Rightarrow> int \<Rightarrow> Level list" where
  "side_top s n = (if n \<le> 0 \<or> levels s = [] then [] else take (min (nat n) (length (levels s))) (levels s))"

text \<open>
  \<open>slices.SortFunc\<close> orders by the comparison and promises nothing about equal elements. The
  model is insertion sort with that comparison; \<open>sorted_levels_unique\<close> below shows that the
  choice of algorithm cannot be observed.
\<close>

fun insert_by :: "('a \<Rightarrow> 'a \<Rightarrow> int) \<Rightarrow> 'a \<Rightarrow> 'a list \<Rightarrow> 'a list" where
  "insert_by c x [] = [x]"
| "insert_by c x (y # ys) = (if c y x < 0 then y # insert_by c x ys else x # y # ys)"

definition SortFunc :: "('a \<Rightarrow> 'a \<Rightarrow> int) \<Rightarrow> 'a list \<Rightarrow> 'a list" where
  "SortFunc c xs = foldr (insert_by c) xs []"

text \<open>The scan for equal neighbours: the price of the first pair found.\<close>

fun adjacent_dup :: "Level list \<Rightarrow> Price_t option" where
  "adjacent_dup (a # b # ls) = (if Price b = Price a then Some (Price b) else adjacent_dup (b # ls))"
| "adjacent_dup ls = None"

definition sorted_levels :: "side \<Rightarrow> Level list \<Rightarrow> book_error + Level list" where
  "sorted_levels s ls =
    (let out = SortFunc (\<lambda>a b. side_compare s a (Price b)) (filter (\<lambda>l. Qty l \<noteq> 0) ls)
     in case adjacent_dup out of Some p \<Rightarrow> Inl (ErrDuplicatePrice p) | None \<Rightarrow> Inr out)"

section \<open>Book\<close>

record Book =
  symbol :: Symbol
  bids :: side
  asks :: side

definition New :: "Symbol \<Rightarrow> Book" where
  "New sy = \<lparr>symbol = sy, bids = \<lparr>levels = [], desc = True\<rparr>, asks = \<lparr>levels = [], desc = False\<rparr>\<rparr>"

fun validate :: "Level list \<Rightarrow> book_error option" where
  "validate [] = None"
| "validate (l # ls) =
     (if Price l \<le> 0 then Some (ErrInvalidPrice (Price l))
      else if Qty l < 0 then Some (ErrNegativeQty (Price l) (Qty l))
      else validate ls)"

definition Book_Apply :: "Book \<Rightarrow> Level list \<Rightarrow> Level list \<Rightarrow> book_error + Book" where
  "Book_Apply b bs as =
    (case validate bs of Some e \<Rightarrow> Inl e
     | None \<Rightarrow>
        (case validate as of Some e \<Rightarrow> Inl e
         | None \<Rightarrow> Inr (b\<lparr>bids := foldl side_apply (bids b) bs, asks := foldl side_apply (asks b) as\<rparr>)))"

definition Book_Reset :: "Book \<Rightarrow> Level list \<Rightarrow> Level list \<Rightarrow> book_error + Book" where
  "Book_Reset b bs as =
    (case validate bs of Some e \<Rightarrow> Inl e
     | None \<Rightarrow>
        (case validate as of Some e \<Rightarrow> Inl e
         | None \<Rightarrow>
            (case sorted_levels (bids b) bs of Inl e \<Rightarrow> Inl e
             | Inr newBids \<Rightarrow>
                (case sorted_levels (asks b) as of Inl e \<Rightarrow> Inl e
                 | Inr newAsks \<Rightarrow>
                    Inr (b\<lparr>bids := (bids b)\<lparr>levels := newBids\<rparr>, asks := (asks b)\<lparr>levels := newAsks\<rparr>\<rparr>)))))"

definition BestBid :: "Book \<Rightarrow> Level option" where
  "BestBid b = (if levels (bids b) = [] then None else Some (levels (bids b) ! 0))"

definition BestAsk :: "Book \<Rightarrow> Level option" where
  "BestAsk b = (if levels (asks b) = [] then None else Some (levels (asks b) ! 0))"

definition Bids :: "Book \<Rightarrow> int \<Rightarrow> Level list" where
  "Bids b n = side_top (bids b) n"

definition Asks :: "Book \<Rightarrow> int \<Rightarrow> Level list" where
  "Asks b n = side_top (asks b) n"

definition BidDepth :: "Book \<Rightarrow> int" where
  "BidDepth b = int (length (levels (bids b)))"

definition AskDepth :: "Book \<Rightarrow> int" where
  "AskDepth b = int (length (levels (asks b)))"

definition Crossed :: "Book \<Rightarrow> bool" where
  "Crossed b =
    (if levels (bids b) = [] \<or> levels (asks b) = [] then False
     else Price (levels (bids b) ! 0) \<ge> Price (levels (asks b) ! 0))"

section \<open>The abstract view of a side\<close>

fun qty_at :: "Level list \<Rightarrow> Price_t \<Rightarrow> Qty_t" where
  "qty_at [] p = 0"
| "qty_at (l # ls) p = (if Price l = p then Qty l else qty_at ls p)"

definition prices :: "Level list \<Rightarrow> Price_t set" where
  "prices ls = Price ` set ls"

text \<open>A price's rank from the top of book: a smaller rank is nearer the top.\<close>

definition rank :: "bool \<Rightarrow> Price_t \<Rightarrow> int" where
  "rank d p = (if d then - p else p)"

definition ordered :: "bool \<Rightarrow> Level list \<Rightarrow> bool" where
  "ordered d ls \<longleftrightarrow> sorted_wrt (\<lambda>a b. rank d (Price a) < rank d (Price b)) ls"

definition side_inv :: "side \<Rightarrow> bool" where
  "side_inv s \<longleftrightarrow> ordered (desc s) (levels s) \<and> (\<forall>l\<in>set (levels s). 0 < Price l \<and> 0 < Qty l)"

definition book_inv :: "Book \<Rightarrow> bool" where
  "book_inv b \<longleftrightarrow> side_inv (bids b) \<and> side_inv (asks b) \<and> desc (bids b) \<and> \<not> desc (asks b)"

text \<open>Levels set one after the other, as an update of the price function.\<close>

definition set_levels :: "Level list \<Rightarrow> (Price_t \<Rightarrow> Qty_t) \<Rightarrow> (Price_t \<Rightarrow> Qty_t)" where
  "set_levels ls m = foldl (\<lambda>m l. m(Price l := Qty l)) m ls"

section \<open>Bisection\<close>

lemma side_compare_rank:
  "side_compare s l p < 0 \<longleftrightarrow> rank (desc s) (Price l) < rank (desc s) p"
  "side_compare s l p = 0 \<longleftrightarrow> Price l = p"
  by (auto simp: side_compare_def cmp_Compare_def rank_def)

lemma rank_inj [simp]: "rank d p = rank d q \<longleftrightarrow> p = q"
  by (simp add: rank_def)

lemma ordered_simps [simp]:
  "ordered d []"
  "ordered d (l # ls) \<longleftrightarrow> (\<forall>k\<in>set ls. rank d (Price l) < rank d (Price k)) \<and> ordered d ls"
  by (simp_all add: ordered_def)

lemma ordered_append:
  "ordered d (xs @ ys) \<longleftrightarrow> ordered d xs \<and> ordered d ys
    \<and> (\<forall>a\<in>set xs. \<forall>b\<in>set ys. rank d (Price a) < rank d (Price b))"
  by (auto simp: ordered_def sorted_wrt_append)

lemma bsearch_loop_spec:
  assumes "ordered (desc s) (levels s)" and "i \<le> j" and "j \<le> length (levels s)"
    and "\<forall>k<i. rank (desc s) (Price (levels s ! k)) < rank (desc s) p"
    and "\<forall>k. j \<le> k \<and> k < length (levels s) \<longrightarrow> rank (desc s) p \<le> rank (desc s) (Price (levels s ! k))"
  shows "bsearch_loop s p i j \<le> length (levels s)
    \<and> (\<forall>k<bsearch_loop s p i j. rank (desc s) (Price (levels s ! k)) < rank (desc s) p)
    \<and> (\<forall>k. bsearch_loop s p i j \<le> k \<and> k < length (levels s)
          \<longrightarrow> rank (desc s) p \<le> rank (desc s) (Price (levels s ! k)))"
  using assms
proof (induction s p i j rule: bsearch_loop.induct)
  case (1 s p i j)
  let ?r = "\<lambda>k. rank (desc s) (Price (levels s ! k))" and ?h = "(i + j) div 2"
  have mono: "?r a < ?r b" if "a < b" "b < length (levels s)" for a b
    using sorted_wrt_nthD [OF "1.prems"(1) [unfolded ordered_def] that] .
  show ?case
  proof (cases "i < j")
    case True
    then have h: "i \<le> ?h" "?h < j" by auto
    show ?thesis
    proof (cases "side_compare s (levels s ! ?h) p < 0")
      case less: True
      then have "?r ?h < rank (desc s) p" by (simp add: side_compare_rank)
      then have "?r k < rank (desc s) p" if "k < ?h + 1" for k
        using mono [of k ?h] h "1.prems"(3) that by (cases "k = ?h") auto
      with "1.IH"(1) [OF True refl less] h "1.prems" show ?thesis
        unfolding bsearch_loop.simps [of s p i j] using True less by (simp add: Let_def)
    next
      case ge: False
      then have "rank (desc s) p \<le> ?r ?h" by (simp add: side_compare_rank)
      then have "rank (desc s) p \<le> ?r k" if "?h \<le> k" "k < length (levels s)" for k
        using mono [of ?h k] that by (cases "k = ?h") auto
      with "1.IH"(2) [OF True refl ge] h "1.prems" show ?thesis
        unfolding bsearch_loop.simps [of s p i j] using True ge by (simp add: Let_def)
    qed
  next
    case False
    then show ?thesis
      unfolding bsearch_loop.simps [of s p i j] using "1.prems" by simp
  qed
qed

text \<open>Where the bisection lands: on the level at the price, or between its neighbours.\<close>

lemma search_cases:
  assumes "ordered (desc s) (levels s)"
  obtains (found) xs l ys where "levels s = xs @ l # ys" "Price l = p" "search s p = (length xs, True)"
  | (absent) xs ys where "levels s = xs @ ys" "p \<notin> prices (levels s)" "search s p = (length xs, False)"
      "\<forall>a\<in>set xs. rank (desc s) (Price a) < rank (desc s) p"
      "\<forall>b\<in>set ys. rank (desc s) p < rank (desc s) (Price b)"
proof -
  let ?ls = "levels s" and ?i = "bsearch_loop s p 0 (length (levels s))"
  let ?r = "\<lambda>l. rank (desc s) (Price l)" and ?q = "rank (desc s) p"
  have i: "?i \<le> length ?ls" and before: "\<forall>k<?i. ?r (?ls ! k) < ?q"
    and after: "\<forall>k. ?i \<le> k \<and> k < length ?ls \<longrightarrow> ?q \<le> ?r (?ls ! k)"
    using bsearch_loop_spec [OF assms, of 0 "length ?ls" p] by auto
  have split: "?ls = take ?i ?ls @ drop ?i ?ls" by simp
  have xs: "\<forall>a\<in>set (take ?i ?ls). ?r a < ?q"
    using before by (auto simp: in_set_conv_nth)
  have ys: "\<forall>b\<in>set (drop ?i ?ls). ?q \<le> ?r b"
    using after i by (auto simp: in_set_conv_nth)
  show thesis
  proof (cases "?i < length ?ls \<and> Price (?ls ! ?i) = p")
    case True
    then have "?ls = take ?i ?ls @ ?ls ! ?i # drop (Suc ?i) ?ls"
      by (simp add: Cons_nth_drop_Suc)
    with True show thesis
      by (intro found) (auto simp: search_def Let_def side_compare_rank)
  next
    case False
    have strict: "?q < ?r b" if "b \<in> set (drop ?i ?ls)" for b
    proof (cases "?i < length ?ls")
      case True
      then have d: "drop ?i ?ls = ?ls ! ?i # drop (Suc ?i) ?ls"
        by (simp add: Cons_nth_drop_Suc)
      have "?q < ?r (?ls ! ?i)"
        using False True after by (metis le_refl order_le_less rank_inj)
      moreover have "ordered (desc s) (?ls ! ?i # drop (Suc ?i) ?ls)"
        using assms split d by (metis ordered_append)
      ultimately show ?thesis using that d by auto
    qed (use that in simp)
    have "Price a \<noteq> p" if "a \<in> set ?ls" for a
    proof -
      from that have "a \<in> set (take ?i ?ls) \<or> a \<in> set (drop ?i ?ls)"
        by (metis Un_iff set_append split)
      with xs strict show ?thesis by fastforce
    qed
    then have "p \<notin> prices ?ls" by (auto simp: prices_def)
    with False xs strict split i show thesis
      by (intro absent [of "take ?i ?ls" "drop ?i ?ls"]) (auto simp: search_def Let_def side_compare_rank)
  qed
qed

section \<open>The price function\<close>

lemma prices_simps [simp]:
  "prices [] = {}" "prices (l # ls) = insert (Price l) (prices ls)" "prices (xs @ ys) = prices xs \<union> prices ys"
  by (auto simp: prices_def)

lemma qty_at_notin: "p \<notin> prices ls \<Longrightarrow> qty_at ls p = 0"
  by (induction ls) auto

lemma qty_at_append: "qty_at (xs @ ys) p = (if p \<in> prices xs then qty_at xs p else qty_at ys p)"
  by (induction xs) auto

lemma ordered_notin_tl: "ordered d (l # ls) \<Longrightarrow> Price l \<notin> prices ls"
  by (auto simp: prices_def)

lemma ordered_qty_at: "ordered d ls \<Longrightarrow> l \<in> set ls \<Longrightarrow> qty_at ls (Price l) = Qty l"
  by (induction ls) auto

lemma qty_at_pos_iff:
  "ordered d ls \<Longrightarrow> \<forall>l\<in>set ls. 0 < Qty l \<Longrightarrow> 0 < qty_at ls p \<longleftrightarrow> p \<in> prices ls"
  by (cases "p \<in> prices ls") (auto simp: prices_def ordered_qty_at qty_at_notin)

lemma ordered_set_unique:
  "ordered d xs \<Longrightarrow> ordered d ys \<Longrightarrow> set xs = set ys \<Longrightarrow> xs = ys"
proof (induction xs arbitrary: ys)
  case Nil
  then show ?case by simp
next
  case (Cons x xs)
  then obtain y ys' where ys: "ys = y # ys'" by (cases ys) auto
  have "x = y"
    using Cons.prems ys by (metis insert_iff list.simps(15) not_less_iff_gr_or_eq ordered_simps(2))
  moreover have "x \<notin> set xs" "y \<notin> set ys'"
    using Cons.prems ys by auto
  ultimately have "set xs = set ys'"
    using Cons.prems(3) ys by (metis insert_ident list.simps(15))
  then have "xs = ys'"
    using Cons.prems ys by (intro Cons.IH) auto
  with \<open>x = y\<close> ys show ?case by simp
qed

text \<open>A side is determined by its price function: the representation is canonical.\<close>

lemma ordered_levels_ext:
  assumes "ordered d xs" "ordered d ys" "\<forall>l\<in>set xs. 0 < Qty l" "\<forall>l\<in>set ys. 0 < Qty l"
    and "qty_at xs = qty_at ys"
  shows "xs = ys"
proof (rule ordered_set_unique [OF assms(1,2)])
  have sub: "set as \<subseteq> set bs" if o: "ordered d as" "ordered d bs" and pos: "\<forall>l\<in>set as. 0 < Qty l"
    "\<forall>l\<in>set bs. 0 < Qty l" and eq: "qty_at as = qty_at bs" for as bs :: "Level list"
  proof
    fix l assume l: "l \<in> set as"
    then have q: "qty_at bs (Price l) = Qty l" "0 < Qty l"
      using o(1) pos(1) eq by (metis ordered_qty_at, blast)
    then have "Price l \<in> prices bs"
      using qty_at_pos_iff [OF o(2) pos(2)] by metis
    then obtain k where k: "k \<in> set bs" "Price k = Price l"
      by (auto simp: prices_def)
    then have "Qty k = Qty l" using ordered_qty_at [OF o(2), of k] q by simp
    with k have "k = l" by (cases k, cases l) auto
    with k show "l \<in> set bs" by simp
  qed
  show "set xs = set ys"
    using sub [OF assms(1,2,3,4,5)] sub [OF assms(2,1,4,3) assms(5)[symmetric]] by blast
qed

lemma set_levels_simps [simp]:
  "set_levels [] m = m"
  "set_levels (l # ls) m = set_levels ls (m(Price l := Qty l))"
  "set_levels (xs @ ys) m = set_levels ys (set_levels xs m)"
  by (simp_all add: set_levels_def)

lemma set_levels_notin: "p \<notin> prices ls \<Longrightarrow> set_levels ls m p = m p"
  by (induction ls arbitrary: m) auto

lemma set_levels_in: "p \<in> prices ls \<Longrightarrow> set_levels ls m p = set_levels ls m' p"
proof (induction ls arbitrary: m m')
  case (Cons l ls)
  then show ?case
    by (cases "p \<in> prices ls") (auto simp: set_levels_notin)
qed simp

lemma set_levels_ordered: "ordered d ls \<Longrightarrow> set_levels ls (\<lambda>_. 0) = qty_at ls"
proof
  fix p assume "ordered d ls"
  then show "set_levels ls (\<lambda>_. 0) p = qty_at ls p"
  proof (induction ls)
    case (Cons l ls)
    show ?case
    proof (cases "p \<in> prices ls")
      case True
      then have "Price l \<noteq> p" using ordered_notin_tl [OF Cons.prems] by auto
      moreover have "set_levels ls ((\<lambda>_. 0)(Price l := Qty l)) p = set_levels ls (\<lambda>_. 0) p"
        by (rule set_levels_in [OF True])
      ultimately show ?thesis using Cons by simp
    qed (simp add: set_levels_notin qty_at_notin)
  qed simp
qed

section \<open>Applying a level\<close>

definition valid_level :: "Level \<Rightarrow> bool" where
  "valid_level l \<longleftrightarrow> 0 < Price l \<and> 0 \<le> Qty l"

lemma validate_iff: "validate ls = None \<longleftrightarrow> (\<forall>l\<in>set ls. valid_level l)"
  by (induction ls) (auto simp: valid_level_def)

lemma side_apply_desc [simp]: "desc (side_apply s l) = desc s"
  by (simp add: side_apply_def split: prod.splits)

lemma side_apply_correct:
  assumes "side_inv s" and "valid_level l"
  shows "side_inv (side_apply s l)"
    and "qty_at (levels (side_apply s l)) = (qty_at (levels s))(Price l := Qty l)"
proof -
  have o: "ordered (desc s) (levels s)" and pos: "\<forall>l\<in>set (levels s). 0 < Price l \<and> 0 < Qty l"
    using assms(1) by (auto simp: side_inv_def)
  have v: "0 < Price l" "0 \<le> Qty l"
    using assms(2) by (auto simp: valid_level_def)
  have "side_inv (side_apply s l)
      \<and> qty_at (levels (side_apply s l)) = (qty_at (levels s))(Price l := Qty l)"
    using o
  proof (cases rule: search_cases [where p = "Price l"])
    case (found xs k ys)
    have out: "Price l \<notin> prices xs" "Price l \<notin> prices ys"
      using o unfolding found(1) ordered_append by (auto simp: prices_def found(2) [symmetric])
    have eq: "levels (side_apply s l) = (if Qty l \<noteq> 0 then xs @ k\<lparr>Qty := Qty l\<rparr> # ys else xs @ ys)"
      using found by (simp add: side_apply_def slice_delete_def)
    show ?thesis
      using o pos v out unfolding side_inv_def side_apply_desc eq found(1) ordered_append
      by (auto simp: qty_at_append qty_at_notin found(2) fun_eq_iff ordered_append)
  next
    case (absent xs ys)
    have eq: "levels (side_apply s l) = (if Qty l \<noteq> 0 then xs @ l # ys else xs @ ys)"
      using absent by (simp add: side_apply_def slice_insert_def)
    show ?thesis
      using o pos v absent(2,4,5) unfolding side_inv_def side_apply_desc eq absent(1) ordered_append
      by (auto simp: qty_at_append qty_at_notin fun_eq_iff ordered_append)
  qed
  then show "side_inv (side_apply s l)"
    and "qty_at (levels (side_apply s l)) = (qty_at (levels s))(Price l := Qty l)"
    by auto
qed

section \<open>The interface of a side\<close>

text \<open>
  What the layers above rely on: a store of levels with an invariant and a price function,
  in which putting a valid level sets the quantity at its price and touches no other.
\<close>

locale level_store =
  fixes invar :: "'s \<Rightarrow> bool"
    and lookup :: "'s \<Rightarrow> Price_t \<Rightarrow> Qty_t"
    and put :: "'s \<Rightarrow> Level \<Rightarrow> 's"
  assumes invar_put: "invar s \<Longrightarrow> valid_level l \<Longrightarrow> invar (put s l)"
    and lookup_put: "invar s \<Longrightarrow> valid_level l \<Longrightarrow> lookup (put s l) = (lookup s)(Price l := Qty l)"
begin

lemma put_all:
  assumes "invar s" and "\<forall>l\<in>set ls. valid_level l"
  shows "invar (foldl put s ls)" and "lookup (foldl put s ls) = set_levels ls (lookup s)"
proof -
  have "invar (foldl put s ls) \<and> lookup (foldl put s ls) = set_levels ls (lookup s)"
    using assms by (induction ls arbitrary: s) (auto simp: invar_put lookup_put)
  then show "invar (foldl put s ls)" and "lookup (foldl put s ls) = set_levels ls (lookup s)"
    by auto
qed

text \<open>Levels carry absolute quantities: putting the same levels again changes nothing.\<close>

lemma put_again:
  assumes "invar s" and "\<forall>l\<in>set ls. valid_level l"
  shows "lookup (foldl put (foldl put s ls) ls) = lookup (foldl put s ls)"
proof
  fix p
  have "lookup (foldl put (foldl put s ls) ls) p = set_levels ls (set_levels ls (lookup s)) p"
    using assms put_all by metis
  also have "\<dots> = set_levels ls (lookup s) p"
  proof (cases "p \<in> prices ls")
    case True
    then show ?thesis by (rule set_levels_in)
  qed (simp add: set_levels_notin)
  finally show "lookup (foldl put (foldl put s ls) ls) p = lookup (foldl put s ls) p"
    using assms put_all by metis
qed

end

interpretation side_store: level_store side_inv "\<lambda>s. qty_at (levels s)" side_apply
  by unfold_locales (auto simp: side_apply_correct)

lemma foldl_side_apply_desc [simp]: "desc (foldl side_apply s ls) = desc s"
  by (induction ls arbitrary: s) auto

section \<open>Sorting a snapshot side\<close>

lemma mset_insert_by [simp]: "mset (insert_by c x xs) = add_mset x (mset xs)"
  by (induction xs) auto

lemma mset_SortFunc [simp]: "mset (SortFunc c xs) = mset xs"
  by (induction xs) (auto simp: SortFunc_def)

lemma set_insert_by [simp]: "set (insert_by c x xs) = insert x (set xs)"
  using mset_insert_by [of c x xs] by (metis set_mset_add_mset_insert set_mset_mset)

text \<open>Sorted by rank, equal prices allowed: what \<open>SortFunc\<close> establishes.\<close>

definition weakly_ordered :: "bool \<Rightarrow> Level list \<Rightarrow> bool" where
  "weakly_ordered d ls \<longleftrightarrow> sorted_wrt (\<lambda>a b. rank d (Price a) \<le> rank d (Price b)) ls"

lemma weakly_ordered_insert_by:
  "weakly_ordered (desc s) xs \<Longrightarrow> weakly_ordered (desc s) (insert_by (\<lambda>a b. side_compare s a (Price b)) x xs)"
  by (induction xs) (auto simp: weakly_ordered_def side_compare_rank)

lemma weakly_ordered_SortFunc:
  "weakly_ordered (desc s) (SortFunc (\<lambda>a b. side_compare s a (Price b)) xs)"
proof (induction xs)
  case Nil
  then show ?case by (simp add: SortFunc_def weakly_ordered_def)
next
  case (Cons x xs)
  then show ?case by (simp add: SortFunc_def weakly_ordered_insert_by)
qed

lemma weakly_ordered_dup:
  "weakly_ordered d ls \<Longrightarrow> adjacent_dup ls = None \<Longrightarrow> ordered d ls"
proof (induction ls rule: adjacent_dup.induct)
  case (1 a b ls)
  then have tl: "ordered d (b # ls)" and "rank d (Price a) < rank d (Price b)"
    by (auto simp: weakly_ordered_def order_less_le split: if_splits)
  then show ?case by auto
qed simp_all

lemma adjacent_dup_distinct: "distinct (map Price ls) \<Longrightarrow> adjacent_dup ls = None"
  by (induction ls rule: adjacent_dup.induct) auto

lemma ordered_distinct: "ordered d ls \<Longrightarrow> distinct (map Price ls)"
  by (induction ls) auto

lemma sorted_levels_Inr:
  assumes "sorted_levels s ls = Inr out"
  shows "ordered (desc s) out" and "mset out = mset (filter (\<lambda>l. Qty l \<noteq> 0) ls)"
  using assms weakly_ordered_SortFunc
  by (auto simp: sorted_levels_def Let_def weakly_ordered_dup split: option.splits)

lemma sorted_levels_total:
  "(\<exists>out. sorted_levels s ls = Inr out) \<longleftrightarrow> distinct (map Price (filter (\<lambda>l. Qty l \<noteq> 0) ls))"
  (is "?ok \<longleftrightarrow> distinct (map Price ?fs)")
proof
  assume ?ok
  then obtain out where "sorted_levels s ls = Inr out" by blast
  then have "distinct (map Price out)" and m: "mset out = mset ?fs"
    using sorted_levels_Inr ordered_distinct by blast+
  then show "distinct (map Price ?fs)"
    by (metis distinct_map mset_eq_imp_distinct_iff mset_eq_setD mset_map)
next
  let ?out = "SortFunc (\<lambda>a b. side_compare s a (Price b)) ?fs"
  assume "distinct (map Price ?fs)"
  then have "distinct (map Price ?out)"
    by (metis mset_SortFunc mset_eq_imp_distinct_iff mset_map)
  then show ?ok
    by (simp add: sorted_levels_def Let_def adjacent_dup_distinct)
qed

lemma sorted_levels_qty:
  assumes "sorted_levels s ls = Inr out"
  shows "l \<in> set ls \<Longrightarrow> Qty l \<noteq> 0 \<Longrightarrow> qty_at out (Price l) = Qty l"
    and "p \<notin> prices ls \<Longrightarrow> qty_at out p = 0"
    and "set out = {l \<in> set ls. Qty l \<noteq> 0}"
proof -
  show set: "set out = {l \<in> set ls. Qty l \<noteq> 0}"
    using mset_eq_setD [OF sorted_levels_Inr(2) [OF assms]] by auto
  show "l \<in> set ls \<Longrightarrow> Qty l \<noteq> 0 \<Longrightarrow> qty_at out (Price l) = Qty l"
    by (rule ordered_qty_at [OF sorted_levels_Inr(1) [OF assms]]) (simp add: set)
  show "p \<notin> prices ls \<Longrightarrow> qty_at out p = 0"
    by (rule qty_at_notin) (auto simp: prices_def set)
qed

text \<open>The levels a snapshot side lists: zero quantities are levels that are not there.\<close>

definition listed_qty :: "Level list \<Rightarrow> Price_t \<Rightarrow> Qty_t" where
  "listed_qty ls = qty_at (filter (\<lambda>l. Qty l \<noteq> 0) ls)"

definition one_level_per_price :: "Level list \<Rightarrow> bool" where
  "one_level_per_price ls \<longleftrightarrow> distinct (map Price (filter (\<lambda>l. Qty l \<noteq> 0) ls))"

lemma qty_at_distinct: "distinct (map Price ls) \<Longrightarrow> l \<in> set ls \<Longrightarrow> qty_at ls (Price l) = Qty l"
  by (induction ls) auto

lemma sorted_levels_listed:
  assumes "sorted_levels s ls = Inr out"
  shows "qty_at out = listed_qty ls"
proof
  fix p
  have d: "distinct (map Price (filter (\<lambda>l. Qty l \<noteq> 0) ls))"
    using assms sorted_levels_total by blast
  note set = sorted_levels_qty(3) [OF assms]
  show "qty_at out p = listed_qty ls p"
  proof (cases "\<exists>l\<in>set ls. Qty l \<noteq> 0 \<and> Price l = p")
    case True
    then obtain l where l: "l \<in> set ls" "Qty l \<noteq> 0" "Price l = p" by blast
    then show ?thesis
      using qty_at_distinct [OF d, of l] sorted_levels_qty(1) [OF assms l(1,2)]
      by (simp add: listed_qty_def)
  next
    case False
    then have "p \<notin> prices out" "p \<notin> prices (filter (\<lambda>l. Qty l \<noteq> 0) ls)"
      by (auto simp: prices_def set)
    then show ?thesis by (simp add: listed_qty_def qty_at_notin)
  qed
qed

section \<open>Operations of the book\<close>

abbreviation bid_qty :: "Book \<Rightarrow> Price_t \<Rightarrow> Qty_t" where
  "bid_qty b \<equiv> qty_at (levels (bids b))"

abbreviation ask_qty :: "Book \<Rightarrow> Price_t \<Rightarrow> Qty_t" where
  "ask_qty b \<equiv> qty_at (levels (asks b))"

lemma book_inv_New [simp]: "book_inv (New sy)"
  by (simp add: New_def book_inv_def side_inv_def)

lemma Book_Apply_ok:
  assumes "book_inv b" and "Book_Apply b bs as = Inr b'"
  shows "book_inv b'" and "symbol b' = symbol b"
    and "bid_qty b' = set_levels bs (bid_qty b)" and "ask_qty b' = set_levels as (ask_qty b)"
proof -
  have v: "\<forall>l\<in>set bs. valid_level l" "\<forall>l\<in>set as. valid_level l"
    and b': "b' = b\<lparr>bids := foldl side_apply (bids b) bs, asks := foldl side_apply (asks b) as\<rparr>"
    using assms(2) by (auto simp: Book_Apply_def validate_iff split: option.splits)
  have i: "side_inv (bids b)" "side_inv (asks b)" "desc (bids b)" "\<not> desc (asks b)"
    using assms(1) by (auto simp: book_inv_def)
  show "book_inv b'" "symbol b' = symbol b"
    using side_store.put_all(1) [OF i(1) v(1)] side_store.put_all(1) [OF i(2) v(2)] i
    by (simp_all add: b' book_inv_def)
  show "bid_qty b' = set_levels bs (bid_qty b)" "ask_qty b' = set_levels as (ask_qty b)"
    using side_store.put_all(2) [OF i(1) v(1)] side_store.put_all(2) [OF i(2) v(2)]
    by (simp_all add: b')
qed

lemma Book_Apply_fails_iff:
  "(\<exists>e. Book_Apply b bs as = Inl e) \<longleftrightarrow> \<not> (\<forall>l\<in>set bs \<union> set as. valid_level l)"
proof -
  have "(\<forall>l\<in>set bs \<union> set as. valid_level l) \<longleftrightarrow> validate bs = None \<and> validate as = None"
    by (auto simp: validate_iff)
  then show ?thesis by (auto simp: Book_Apply_def split: option.splits)
qed

lemma Book_Reset_Inr:
  assumes "Book_Reset b bs as = Inr b'"
  obtains newBids newAsks where "sorted_levels (bids b) bs = Inr newBids" "sorted_levels (asks b) as = Inr newAsks"
    "\<forall>l\<in>set bs \<union> set as. valid_level l"
    "b' = b\<lparr>bids := (bids b)\<lparr>levels := newBids\<rparr>, asks := (asks b)\<lparr>levels := newAsks\<rparr>\<rparr>"
  using assms by (auto simp: Book_Reset_def validate_iff split: option.splits sum.splits)

lemma Book_Reset_ok:
  assumes "book_inv b" and "Book_Reset b bs as = Inr b'"
  shows "book_inv b'" and "symbol b' = symbol b"
    and "bid_qty b' = listed_qty bs" and "ask_qty b' = listed_qty as"
proof -
  obtain nb na where nb: "sorted_levels (bids b) bs = Inr nb" and na: "sorted_levels (asks b) as = Inr na"
    and v: "\<forall>l\<in>set bs \<union> set as. valid_level l"
    and b': "b' = b\<lparr>bids := (bids b)\<lparr>levels := nb\<rparr>, asks := (asks b)\<lparr>levels := na\<rparr>\<rparr>"
    using Book_Reset_Inr [OF assms(2)] .
  show "symbol b' = symbol b" by (simp add: b')
  have "\<forall>l\<in>set nb. 0 < Price l \<and> 0 < Qty l" "\<forall>l\<in>set na. 0 < Price l \<and> 0 < Qty l"
    using v by (auto simp: sorted_levels_qty(3) [OF nb] sorted_levels_qty(3) [OF na] valid_level_def order_less_le)
  then show "book_inv b'"
    using assms(1) sorted_levels_Inr(1) [OF nb] sorted_levels_Inr(1) [OF na]
    by (simp add: b' book_inv_def side_inv_def)
  show "bid_qty b' = listed_qty bs" "ask_qty b' = listed_qty as"
    by (simp_all add: b' sorted_levels_listed [OF nb] sorted_levels_listed [OF na])
qed

lemma Book_Reset_fails_iff:
  "(\<exists>e. Book_Reset b bs as = Inl e) \<longleftrightarrow>
    \<not> (\<forall>l\<in>set bs \<union> set as. valid_level l) \<or> \<not> one_level_per_price bs \<or> \<not> one_level_per_price as"
proof -
  have "(\<forall>l\<in>set bs \<union> set as. valid_level l) \<longleftrightarrow> validate bs = None \<and> validate as = None"
    by (auto simp: validate_iff)
  moreover have "one_level_per_price bs \<longleftrightarrow> (\<exists>x. sorted_levels (bids b) bs = Inr x)"
    "one_level_per_price as \<longleftrightarrow> (\<exists>x. sorted_levels (asks b) as = Inr x)"
    by (simp_all add: one_level_per_price_def sorted_levels_total)
  ultimately show ?thesis
    by (auto simp: Book_Reset_def split: option.splits sum.splits)
qed

lemma ordered_head_nearest:
  "ordered d ls \<Longrightarrow> ls \<noteq> [] \<Longrightarrow> p \<in> prices ls \<Longrightarrow> rank d (Price (ls ! 0)) \<le> rank d p"
  by (cases ls) (auto simp: prices_def order_less_le)

lemma side_top_take: "side_top s n = take (nat n) (levels s)"
  by (auto simp: side_top_def min_def)

section \<open>Properties\<close>

text \<open>
  C22. \<open>Book.Apply\<close> is all or nothing and does exactly the update: it fails if and only if some
  level is invalid (and then returns no book, the old one stays), and otherwise keeps the
  invariant (both sides sorted top first, no duplicate price, every price and quantity
  positive) and sets, for each listed price in order, the quantity at that price, leaving every
  other price as it was. The bisection, the insertions and the deletions are in the statement
  through the price functions of the two sides.
\<close>

theorem Book_Apply_spec:
  assumes "book_inv b"
  shows "case Book_Apply b bs as of
      Inl e \<Rightarrow> \<not> (\<forall>l\<in>set bs \<union> set as. valid_level l)
    | Inr b' \<Rightarrow> (\<forall>l\<in>set bs \<union> set as. valid_level l) \<and> book_inv b' \<and> symbol b' = symbol b
        \<and> bid_qty b' = set_levels bs (bid_qty b) \<and> ask_qty b' = set_levels as (ask_qty b)"
proof (cases "Book_Apply b bs as")
  case (Inl e)
  then show ?thesis using Book_Apply_fails_iff [of b bs as] by auto
next
  case (Inr b')
  then show ?thesis
    using Book_Apply_ok [OF assms Inr] Book_Apply_fails_iff [of b bs as] by auto
qed

text \<open>C22 on a new book: a level set twice and one deleted that was never held.\<close>

theorem Book_Apply_spec_witness:
  "\<exists>b'. book_inv (New ''BTC-USDT'')
    \<and> Book_Apply (New ''BTC-USDT'')
        [\<lparr>Price = 10, Qty = 1\<rparr>, \<lparr>Price = 12, Qty = 2\<rparr>, \<lparr>Price = 10, Qty = 3\<rparr>] [\<lparr>Price = 20, Qty = 0\<rparr>] = Inr b'
    \<and> bid_qty b' 10 = 3 \<and> bid_qty b' 12 = 2 \<and> ask_qty b' 20 = 0"
  (is "\<exists>b'. _ \<and> Book_Apply ?b ?bs ?as = Inr b' \<and> _")
proof -
  have valid: "\<forall>l\<in>set ?bs \<union> set ?as. valid_level l"
    by (simp add: valid_level_def)
  then obtain b' where b': "Book_Apply ?b ?bs ?as = Inr b'"
    using Book_Apply_spec [OF book_inv_New [of "''BTC-USDT''"], of ?bs ?as] by (auto split: sum.splits)
  have "bid_qty b' = set_levels ?bs (bid_qty ?b)" "ask_qty b' = set_levels ?as (ask_qty ?b)"
    using Book_Apply_spec [OF book_inv_New [of "''BTC-USDT''"], of ?bs ?as] unfolding b' by auto
  then show ?thesis using b' by simp
qed

text \<open>
  C23. \<open>Book.Reset\<close> loads a snapshot or leaves the book alone: it fails if and only if a level is
  invalid or a side lists two non-zero levels at one price; otherwise the new book satisfies the
  invariant, keeps its symbol, and holds exactly the listed non-zero levels, whatever their
  order in the list and whatever the book held before.
\<close>

theorem Book_Reset_spec:
  assumes "book_inv b"
  shows "case Book_Reset b bs as of
      Inl e \<Rightarrow> \<not> (\<forall>l\<in>set bs \<union> set as. valid_level l)
          \<or> \<not> one_level_per_price bs \<or> \<not> one_level_per_price as
    | Inr b' \<Rightarrow> (\<forall>l\<in>set bs \<union> set as. valid_level l) \<and> one_level_per_price bs \<and> one_level_per_price as
        \<and> book_inv b' \<and> symbol b' = symbol b \<and> bid_qty b' = listed_qty bs \<and> ask_qty b' = listed_qty as"
proof (cases "Book_Reset b bs as")
  case (Inl e)
  then have "\<exists>e. Book_Reset b bs as = Inl e" by blast
  then have "\<not> (\<forall>l\<in>set bs \<union> set as. valid_level l)
      \<or> \<not> one_level_per_price bs \<or> \<not> one_level_per_price as"
    by (rule Book_Reset_fails_iff [THEN iffD1])
  with Inl show ?thesis by simp
next
  case (Inr b')
  then have "\<not> (\<exists>e. Book_Reset b bs as = Inl e)" by simp
  then have "(\<forall>l\<in>set bs \<union> set as. valid_level l) \<and> one_level_per_price bs \<and> one_level_per_price as"
    using Book_Reset_fails_iff [of b bs as] by blast
  with Inr show ?thesis using Book_Reset_ok [OF assms Inr] by simp
qed

text \<open>C23 on a snapshot that is not sorted and repeats a price.\<close>

theorem Book_Reset_spec_witness:
  "book_inv (New ''BTC-USDT'')
   \<and> (\<exists>b'. Book_Reset (New ''BTC-USDT'') [\<lparr>Price = 10, Qty = 1\<rparr>, \<lparr>Price = 12, Qty = 2\<rparr>] [] = Inr b'
        \<and> bid_qty b' 12 = 2)
   \<and> \<not> one_level_per_price [\<lparr>Price = 10, Qty = 1\<rparr>, \<lparr>Price = 10, Qty = 2\<rparr>]"
  (is "_ \<and> (\<exists>b'. Book_Reset ?b ?bs ?as = Inr b' \<and> _) \<and> _")
proof -
  have ok: "\<forall>l\<in>set ?bs \<union> set ?as. valid_level l" "one_level_per_price ?bs" "one_level_per_price ?as"
    by (simp_all add: valid_level_def one_level_per_price_def)
  then obtain b' where b': "Book_Reset ?b ?bs ?as = Inr b'"
    using Book_Reset_spec [OF book_inv_New [of "''BTC-USDT''"], of ?bs ?as] by (auto split: sum.splits)
  have "bid_qty b' = listed_qty ?bs"
    using Book_Reset_spec [OF book_inv_New [of "''BTC-USDT''"], of ?bs ?as] unfolding b' by auto
  then show ?thesis using b' by (simp add: one_level_per_price_def listed_qty_def)
qed

text \<open>A side that satisfies its invariant is its price function, listed from the top.\<close>

lemma side_levels:
  assumes "side_inv s"
  shows "prices (levels s) = {p. qty_at (levels s) p \<noteq> 0}"
    and "levels s = map (\<lambda>p. \<lparr>Price = p, Qty = qty_at (levels s) p\<rparr>)
      ((if desc s then rev else (\<lambda>ps. ps)) (sorted_list_of_set {p. qty_at (levels s) p \<noteq> 0}))"
proof -
  let ?ls = "levels s"
  have o: "ordered (desc s) ?ls" and pos: "\<forall>l\<in>set ?ls. 0 < Qty l" using assms by (auto simp: side_inv_def)
  have q: "qty_at ?ls (Price l) = Qty l" if "l \<in> set ?ls" for l by (rule ordered_qty_at [OF o that])
  show pr: "prices ?ls = {p. qty_at ?ls p \<noteq> 0}"
    using q pos qty_at_notin [of _ ?ls] by (force simp: prices_def)
  let ?ps = "(if desc s then rev else (\<lambda>ps. ps)) (map Price ?ls)"
  have "sorted_wrt (<) ?ps"
    using o by (auto simp: ordered_def rank_def sorted_wrt_map sorted_wrt_rev)
  then have "sorted_list_of_set (set ?ps) = ?ps"
    by (intro sorted_list_of_set.idem_if_sorted_distinct) (auto simp: strict_sorted_iff)
  moreover have "set ?ps = {p. qty_at ?ls p \<noteq> 0}" using pr by (auto simp: prices_def)
  ultimately have "map Price ?ls = (if desc s then rev else (\<lambda>ps. ps)) (sorted_list_of_set {p. qty_at ?ls p \<noteq> 0})"
    by (auto split: if_splits)
  moreover have "?ls = map (\<lambda>p. \<lparr>Price = p, Qty = qty_at ?ls p\<rparr>) (map Price ?ls)"
    using q by (auto intro!: nth_equalityI Level.equality)
  ultimately show "?ls = map (\<lambda>p. \<lparr>Price = p, Qty = qty_at ?ls p\<rparr>)
      ((if desc s then rev else (\<lambda>ps. ps)) (sorted_list_of_set {p. qty_at ?ls p \<noteq> 0}))" by simp
qed

lemma side_take:
  assumes "side_inv s"
  shows "take k (levels s) = map (\<lambda>p. \<lparr>Price = p, Qty = qty_at (levels s) p\<rparr>)
    (take k ((if desc s then rev else (\<lambda>ps. ps)) (sorted_list_of_set {p. qty_at (levels s) p \<noteq> 0})))"
  unfolding take_map [symmetric] by (rule arg_cong [OF side_levels(2) [OF assms], of "take k"])

lemma side_depth:
  assumes "side_inv s"
  shows "length (levels s) = card {p. qty_at (levels s) p \<noteq> 0}"
proof -
  have "distinct (map Price (levels s))"
    using assms by (auto simp: side_inv_def intro: ordered_distinct)
  then show ?thesis
    unfolding side_levels(1) [OF assms, symmetric] prices_def using distinct_card by fastforce
qed

text \<open>
  C24. The reads of a book that satisfies its invariant are exactly its two price functions: \<open>Bids\<close> lists
  the prices with a bid from the highest down and \<open>Asks\<close> those with an ask from the lowest up, at most
  the number asked for, each with its quantity; the depths are the numbers of such prices; the best bid
  and the best ask are the highest and the lowest of them, with their quantities, and absent exactly
  when there is none; and \<open>Crossed\<close> reports exactly that some bid is at or above some ask.
\<close>

theorem Book_reads:
  assumes "book_inv b"
  shows "Bids b n = map (\<lambda>p. \<lparr>Price = p, Qty = bid_qty b p\<rparr>) (take (nat n) (rev (sorted_list_of_set {p. bid_qty b p \<noteq> 0})))
    \<and> Asks b n = map (\<lambda>p. \<lparr>Price = p, Qty = ask_qty b p\<rparr>) (take (nat n) (sorted_list_of_set {p. ask_qty b p \<noteq> 0}))
    \<and> BidDepth b = int (card {p. bid_qty b p \<noteq> 0}) \<and> AskDepth b = int (card {p. ask_qty b p \<noteq> 0})
    \<and> (case BestBid b of None \<Rightarrow> bid_qty b = (\<lambda>_. 0)
        | Some l \<Rightarrow> Qty l = bid_qty b (Price l) \<and> Qty l \<noteq> 0 \<and> (\<forall>p. bid_qty b p \<noteq> 0 \<longrightarrow> p \<le> Price l))
    \<and> (case BestAsk b of None \<Rightarrow> ask_qty b = (\<lambda>_. 0)
        | Some l \<Rightarrow> Qty l = ask_qty b (Price l) \<and> Qty l \<noteq> 0 \<and> (\<forall>p. ask_qty b p \<noteq> 0 \<longrightarrow> Price l \<le> p))
    \<and> (Crossed b \<longleftrightarrow> (\<exists>p q. bid_qty b p \<noteq> 0 \<and> ask_qty b q \<noteq> 0 \<and> q \<le> p))"
proof -
  let ?bs = "levels (bids b)" and ?as = "levels (asks b)"
  have inv: "side_inv (bids b)" "side_inv (asks b)" "desc (bids b)" "\<not> desc (asks b)"
    using assms by (auto simp: book_inv_def)
  have o: "ordered True ?bs" "ordered False ?as" using inv by (auto simp: side_inv_def)
  note pr = side_levels(1) [OF inv(1)] side_levels(1) [OF inv(2)]
  have bid: "?bs \<noteq> [] \<Longrightarrow> bid_qty b p \<noteq> 0 \<Longrightarrow> p \<le> Price (?bs ! 0)" for p
    using ordered_head_nearest [OF o(1), of p] pr(1) by (auto simp: rank_def)
  have ask: "?as \<noteq> [] \<Longrightarrow> ask_qty b p \<noteq> 0 \<Longrightarrow> Price (?as ! 0) \<le> p" for p
    using ordered_head_nearest [OF o(2), of p] pr(2) by (auto simp: rank_def)
  have head: "qty_at (levels s) (Price (levels s ! 0)) = Qty (levels s ! 0) \<and> Qty (levels s ! 0) \<noteq> 0"
    if "side_inv s" "levels s \<noteq> []" for s
  proof -
    have "levels s ! 0 \<in> set (levels s)" using that(2) by simp
    moreover from this that(1) have "0 < Qty (levels s ! 0)" by (simp only: side_inv_def)
    ultimately show ?thesis using that(1) ordered_qty_at by (force simp: side_inv_def)
  qed
  note heads = head [OF inv(1)] and heads' = head [OF inv(2)]
  have "Bids b n = map (\<lambda>p. \<lparr>Price = p, Qty = bid_qty b p\<rparr>) (take (nat n) (rev (sorted_list_of_set {p. bid_qty b p \<noteq> 0})))"
    "Asks b n = map (\<lambda>p. \<lparr>Price = p, Qty = ask_qty b p\<rparr>) (take (nat n) (sorted_list_of_set {p. ask_qty b p \<noteq> 0}))"
    unfolding Bids_def Asks_def side_top_take using side_take [OF inv(1)] side_take [OF inv(2)] inv(3,4) by simp_all
  moreover have "BidDepth b = int (card {p. bid_qty b p \<noteq> 0})" "AskDepth b = int (card {p. ask_qty b p \<noteq> 0})"
    using side_depth inv(1,2) by (simp_all add: BidDepth_def AskDepth_def)
  moreover have "case BestBid b of None \<Rightarrow> bid_qty b = (\<lambda>_. 0)
      | Some l \<Rightarrow> Qty l = bid_qty b (Price l) \<and> Qty l \<noteq> 0 \<and> (\<forall>p. bid_qty b p \<noteq> 0 \<longrightarrow> p \<le> Price l)"
    using bid heads by (simp add: BestBid_def fun_eq_iff)
  moreover have "case BestAsk b of None \<Rightarrow> ask_qty b = (\<lambda>_. 0)
      | Some l \<Rightarrow> Qty l = ask_qty b (Price l) \<and> Qty l \<noteq> 0 \<and> (\<forall>p. ask_qty b p \<noteq> 0 \<longrightarrow> Price l \<le> p)"
    using ask heads' by (simp add: BestAsk_def fun_eq_iff)
  moreover have "Crossed b \<longleftrightarrow> (\<exists>p q. bid_qty b p \<noteq> 0 \<and> ask_qty b q \<noteq> 0 \<and> q \<le> p)"
  proof (cases "?bs = [] \<or> ?as = []")
    case True
    then show ?thesis by (auto simp: Crossed_def)
  next
    case False
    then show ?thesis unfolding Crossed_def using bid ask heads heads' by (auto, metis, meson order_trans)
  qed
  ultimately show ?thesis by blast
qed

text \<open>C24 on a crossed book with two bids and one ask.\<close>

theorem Book_reads_witness:
  "let b = (New ''X-Y'')\<lparr>bids := \<lparr>levels = [\<lparr>Price = 12, Qty = 2\<rparr>, \<lparr>Price = 10, Qty = 3\<rparr>], desc = True\<rparr>,
      asks := \<lparr>levels = [\<lparr>Price = 11, Qty = 7\<rparr>], desc = False\<rparr>\<rparr>
   in book_inv b \<and> BidDepth b = int (card {p. bid_qty b p \<noteq> 0}) \<and> BidDepth b = 2 \<and> Crossed b
     \<and> Bids b 1 = [\<lparr>Price = 12, Qty = 2\<rparr>] \<and> BestAsk b = Some \<lparr>Price = 11, Qty = 7\<rparr>"
proof -
  let ?b = "(New ''X-Y'')\<lparr>bids := \<lparr>levels = [\<lparr>Price = 12, Qty = 2\<rparr>, \<lparr>Price = 10, Qty = 3\<rparr>], desc = True\<rparr>,
      asks := \<lparr>levels = [\<lparr>Price = 11, Qty = 7\<rparr>], desc = False\<rparr>\<rparr>"
  have inv: "book_inv ?b" by (simp add: book_inv_def side_inv_def rank_def)
  have set: "{p. bid_qty ?b p \<noteq> 0} = {10, 12}" by auto
  have "bid_qty ?b 12 \<noteq> 0" "ask_qty ?b 11 \<noteq> 0" "(11::int) \<le> 12" by simp_all
  then have "Crossed ?b" using Book_reads [OF inv, of 1] by blast
  moreover have "Bids ?b 1 = [\<lparr>Price = 12, Qty = 2\<rparr>]" "BidDepth ?b = int (card {p. bid_qty ?b p \<noteq> 0})" "BidDepth ?b = 2"
    using Book_reads [OF inv, of 1] unfolding set by simp_all
  ultimately show ?thesis using inv by (simp add: Let_def BestAsk_def)
qed

text \<open>
  The result of sorting a snapshot side does not depend on how \<open>slices.SortFunc\<close> treats
  equal elements: any rearrangement of the non-zero levels that is ordered by the side's
  comparison and has no two levels at one price is the list \<open>sorted\<close> returns.
\<close>

lemma sorted_levels_unique:
  assumes "mset out = mset (filter (\<lambda>l. Qty l \<noteq> 0) ls)"
    and "\<forall>i j. i < j \<and> j < length out \<longrightarrow> side_compare s (out ! i) (Price (out ! j)) \<le> 0"
    and "distinct (map Price out)"
  shows "sorted_levels s ls = Inr out"
proof -
  have "\<not> side_compare s a p > 0 \<longleftrightarrow> rank (desc s) (Price a) \<le> rank (desc s) p" for a p
    by (auto simp: side_compare_def cmp_Compare_def rank_def)
  then have le: "weakly_ordered (desc s) out"
    using assms(2) by (auto simp: weakly_ordered_def sorted_wrt_iff_nth_less not_less)
  then have "ordered (desc s) out"
    using assms(3) by (simp add: weakly_ordered_dup adjacent_dup_distinct)
  have "distinct (map Price (filter (\<lambda>l. Qty l \<noteq> 0) ls))"
    by (metis assms(1,3) mset_eq_imp_distinct_iff mset_map)
  then obtain out' where out': "sorted_levels s ls = Inr out'"
    using sorted_levels_total by blast
  have "set out = set out'"
    using mset_eq_setD [OF assms(1)] sorted_levels_qty(3) [OF out'] by auto
  with \<open>ordered (desc s) out\<close> sorted_levels_Inr(1) [OF out'] have "out = out'"
    by (rule ordered_set_unique)
  with out' show ?thesis by simp
qed

end
