(* ===== verification/Sequencer.thy ===== *)
theory Sequencer
  imports Model
begin

text \<open>
  \<^verbatim>\<open>internal/book/sequence.go\<close>: the classification of a delta against the last
  applied update id. The addition \<open>last + 1\<close> wraps as Go's does; the lemmas show that the wrap
  is never reached on a delta that is not stale.
\<close>

datatype Class = Stale | Contiguous | Gapped

definition Class_String :: "Class \<Rightarrow> string" where
  "Class_String c = (case c of Stale \<Rightarrow> ''stale'' | Contiguous \<Rightarrow> ''contiguous'' | Gapped \<Rightarrow> ''gapped'')"

record Sequencer =
  last_id :: int
  synced :: bool

definition zero_Sequencer :: Sequencer where
  "zero_Sequencer = \<lparr>last_id = 0, synced = False\<rparr>"

definition Seq_Reset :: "Sequencer \<Rightarrow> int \<Rightarrow> Sequencer" where
  "Seq_Reset s i = s\<lparr>last_id := i, synced := True\<rparr>"

definition Next :: "Sequencer \<Rightarrow> BookDelta \<Rightarrow> Sequencer \<times> Class" where
  "Next s d =
    (if \<not> synced s then (s, Gapped)
     else if delta_LastID d \<le> last_id s then (s, Stale)
     else if FirstID d \<le> wrap64 (last_id s + 1) then (s\<lparr>last_id := delta_LastID d\<rparr>, Contiguous)
     else (s\<lparr>synced := False\<rparr>, Gapped))"

definition Invalidate :: "Sequencer \<Rightarrow> Sequencer" where
  "Invalidate s = s\<lparr>synced := False\<rparr>"

definition LastID :: "Sequencer \<Rightarrow> int" where
  "LastID s = last_id s"

definition NeedsResync :: "Sequencer \<Rightarrow> bool" where
  "NeedsResync s = (\<not> synced s)"

section \<open>Lemmas\<close>

definition delta_i64 :: "BookDelta \<Rightarrow> bool" where
  "delta_i64 d \<longleftrightarrow> in_i64 (FirstID d) \<and> in_i64 (delta_LastID d)"

lemma next_id_no_wrap:
  "in_i64 i \<Longrightarrow> in_i64 (delta_LastID d) \<Longrightarrow> \<not> delta_LastID d \<le> i \<Longrightarrow> wrap64 (i + 1) = i + 1"
  by (rule wrap64_id) (auto simp: in_i64_def)

lemma Next_synced:
  assumes "synced s" and "in_i64 (last_id s)" and "delta_i64 d"
  shows "Next s d =
    (if delta_LastID d \<le> last_id s then (s, Stale)
     else if FirstID d \<le> last_id s + 1 then (s\<lparr>last_id := delta_LastID d\<rparr>, Contiguous)
     else (s\<lparr>synced := False\<rparr>, Gapped))"
  using assms next_id_no_wrap [of "last_id s" d] by (simp add: Next_def delta_i64_def)

lemma Next_unsynced: "\<not> synced s \<Longrightarrow> Next s d = (s, Gapped)"
  by (simp add: Next_def)

lemma Next_cases:
  assumes "Next s d = (s', c)"
  shows "c = Stale \<Longrightarrow> s' = s \<and> synced s \<and> delta_LastID d \<le> last_id s"
    and "c = Contiguous \<Longrightarrow> s' = s\<lparr>last_id := delta_LastID d\<rparr> \<and> synced s \<and> last_id s < delta_LastID d
           \<and> FirstID d \<le> wrap64 (last_id s + 1)"
    and "c = Gapped \<Longrightarrow> last_id s' = last_id s \<and> \<not> synced s'"
  using assms by (auto simp: Next_def split: if_splits)

section \<open>Properties\<close>

text \<open>
  The classification is the Binance rule, on every 64-bit position and delta: with a valid
  anchor, a delta is \<open>Stale\<close> exactly when its last id is not past the last applied one,
  \<open>Contiguous\<close> exactly when it is past it and starts at or before the next expected id, and
  \<open>Gapped\<close> exactly when an id between them was never seen; the position moves only, and then to
  the delta's last id, when the delta is contiguous, so it never goes back, and the anchor is
  lost exactly on a gap. The wrap-around of \<open>last + 1\<close> at the largest id is not observable.
\<close>

lemma Next_rule:
  assumes "in_i64 (last_id s)" and "delta_i64 d" and "Next s d = (s', c)"
  shows "(c = Stale \<longleftrightarrow> synced s \<and> delta_LastID d \<le> last_id s)
    \<and> (c = Contiguous \<longleftrightarrow> synced s \<and> last_id s < delta_LastID d \<and> FirstID d \<le> last_id s + 1)
    \<and> (c = Gapped \<longleftrightarrow> \<not> synced s \<or> (last_id s < delta_LastID d \<and> last_id s + 1 < FirstID d))
    \<and> last_id s' = (if c = Contiguous then delta_LastID d else last_id s)
    \<and> last_id s \<le> last_id s' \<and> synced s' = (synced s \<and> c \<noteq> Gapped)"
proof (cases "synced s")
  case True
  then show ?thesis using assms by (auto simp: Next_synced split: if_splits)
next
  case False
  then show ?thesis using assms(3) by (auto simp: Next_unsynced)
qed

end
