(* ===== verification/Queues.thy ===== *)
theory Queues
  imports Prelude
begin

text \<open>
  The interface of the program's bounded queues. Every queue of the pipeline has a capacity and
  an explicit policy for being full, and counts what it loses; two policies are used: drop the
  oldest item (the resync buffer of a tracker, the channel of a subscriber) and drop the newest
  (the recorder's queue). Each provider interprets the locale of its policy on its own
  definitions, and gets from it what a burst of pushes leaves behind.
\<close>

locale bounded_queue =
  fixes invar :: "'q \<Rightarrow> bool"
    and items :: "'q \<Rightarrow> 'a list"
    and cap :: "'q \<Rightarrow> nat"
    and lost :: "'q \<Rightarrow> u64"
    and push :: "'q \<Rightarrow> 'a \<Rightarrow> 'q"
  assumes items_le_cap: "invar q \<Longrightarrow> length (items q) \<le> cap q"
    and invar_push: "invar q \<Longrightarrow> invar (push q x)"
    and cap_push: "invar q \<Longrightarrow> cap (push q x) = cap q"
    and push_room: "invar q \<Longrightarrow> length (items q) < cap q \<Longrightarrow>
        items (push q x) = items q @ [x] \<and> lost (push q x) = lost q"
    and lost_full: "invar q \<Longrightarrow> length (items q) = cap q \<Longrightarrow> lost (push q x) = lost q + 1"
begin

lemma push_all_invar: "invar q \<Longrightarrow> invar (foldl push q xs) \<and> cap (foldl push q xs) = cap q"
  by (induction xs arbitrary: q) (simp_all add: invar_push cap_push)

end

locale drop_oldest = bounded_queue +
  assumes cap_pos: "invar q \<Longrightarrow> 0 < cap q"
    and push_full: "invar q \<Longrightarrow> length (items q) = cap q \<Longrightarrow> items (push q x) = tl (items q) @ [x]"
begin

lemma push_eq:
  assumes "invar q"
  shows "items (push q x) = drop (length (items q) + 1 - cap q) (items q @ [x])"
    and "lost (push q x) = lost q + of_nat (length (items q) + 1 - cap q)"
proof -
  have "items (push q x) = drop (length (items q) + 1 - cap q) (items q @ [x])
      \<and> lost (push q x) = lost q + of_nat (length (items q) + 1 - cap q)"
  proof (cases "length (items q) < cap q")
    case True
    then show ?thesis using push_room [OF assms True] by simp
  next
    case False
    then have full: "length (items q) = cap q" using items_le_cap [OF assms] by simp
    moreover have "items q \<noteq> []" using cap_pos [OF assms] full by auto
    ultimately have "drop 1 (items q @ [x]) = tl (items q) @ [x]" by (cases "items q") auto
    then show ?thesis
      using push_full [OF assms full] lost_full [OF assms full] by (simp add: full)
  qed
  then show "items (push q x) = drop (length (items q) + 1 - cap q) (items q @ [x])"
    and "lost (push q x) = lost q + of_nat (length (items q) + 1 - cap q)"
    by auto
qed

text \<open>
  A burst leaves the newest \<open>cap\<close> items, in order, and counts exactly the others as lost.
\<close>

lemma push_all:
  assumes "invar q"
  shows "items (foldl push q xs) = drop (length (items q @ xs) - cap q) (items q @ xs)
    \<and> lost (foldl push q xs) = lost q + of_nat (length (items q @ xs) - cap q)"
  using assms
proof (induction xs rule: rev_induct)
  case Nil
  then show ?case using items_le_cap [OF Nil] by simp
next
  case (snoc x xs)
  let ?q = "foldl push q xs" and ?all = "items q @ xs"
  have q: "invar ?q" "cap ?q = cap q"
    using push_all_invar [OF snoc.prems] by auto
  have items: "items ?q = drop (length ?all - cap q) ?all"
    and lost: "lost ?q = lost q + of_nat (length ?all - cap q)"
    using snoc by auto
  let ?k = "length (items ?q) + 1 - cap q"
  have k: "(length ?all - cap q) + ?k = length (?all @ [x]) - cap q"
    by (simp add: items)
  have "items ?q @ [x] = drop (length ?all - cap q) (?all @ [x])"
    by (simp add: items)
  then have "items (push ?q x) = drop (length (?all @ [x]) - cap q) (?all @ [x])"
    using push_eq(1) [OF q(1)] k by (simp only: q(2) drop_drop add.commute)
  moreover have "lost (push ?q x) = lost q + of_nat (length (?all @ [x]) - cap q)"
    using push_eq(2) [OF q(1)] unfolding q(2) lost k [symmetric] of_nat_add by simp
  ultimately show ?case by simp
qed

end

locale drop_newest = bounded_queue +
  assumes push_full: "invar q \<Longrightarrow> length (items q) = cap q \<Longrightarrow> items (push q x) = items q"
begin

text \<open>A burst keeps the oldest items up to the capacity, in order, and counts the rest as lost.\<close>

lemma push_all:
  assumes "invar q"
  shows "items (foldl push q xs) = take (cap q) (items q @ xs)
    \<and> lost (foldl push q xs) = lost q + of_nat (length (items q @ xs) - cap q)"
  using assms
proof (induction xs rule: rev_induct)
  case Nil
  then show ?case using items_le_cap [OF Nil] by simp
next
  case (snoc x xs)
  let ?q = "foldl push q xs" and ?all = "items q @ xs"
  have q: "invar ?q" "cap ?q = cap q"
    using push_all_invar [OF snoc.prems] by auto
  have items: "items ?q = take (cap q) ?all" and lost: "lost ?q = lost q + of_nat (length ?all - cap q)"
    using snoc by auto
  show ?case
  proof (cases "length ?all < cap q")
    case True
    then have "length (items ?q) < cap ?q" by (simp add: items q)
    from push_room [OF q(1) this] show ?thesis using True by (simp add: items lost)
  next
    case False
    then have full: "length (items ?q) = cap ?q" by (simp add: items q)
    have "length (items q) + length xs + 1 - cap q = (length (items q) + length xs - cap q) + 1"
      using False by auto
    with push_full [OF q(1) full] lost_full [OF q(1) full] False show ?thesis
      by (simp add: items lost)
  qed
qed

end

end
