(* ===== verification/Tracker.thy ===== *)
theory Tracker
  imports Book Sequencer Queues "HOL-Library.Sublist"
begin

text \<open>
  \<^verbatim>\<open>internal/book/tracker.go\<close>: one symbol's book over its whole life, the Binance
  resync procedure without the fetch. The state is the record \<open>Tracker\<close>; \<open>Tracker_Apply\<close> offers
  a delta, \<open>BeginFetch\<close> asks for a snapshot, \<open>Load\<close> re-anchors on one and replays the buffer,
  \<open>FetchFailed\<close> gives the request up. Counters are 64-bit words and wrap as Go's do.
\<close>

definition DefaultBufferCap :: int where
  "DefaultBufferCap = 2048"

datatype Status = StatusApplied | StatusDiscarded | StatusBuffered | StatusGapped

definition Status_String :: "Status \<Rightarrow> string" where
  "Status_String s = (case s of StatusApplied \<Rightarrow> ''applied'' | StatusDiscarded \<Rightarrow> ''discarded''
     | StatusBuffered \<Rightarrow> ''buffered'' | StatusGapped \<Rightarrow> ''gapped'')"

record Stats =
  st_Applied :: u64
  st_Discarded :: u64
  st_Buffered :: u64
  st_Gaps :: u64
  st_Dropped :: u64
  st_Resyncs :: u64
  st_Refetches :: u64

definition zero_Stats :: Stats where
  "zero_Stats = \<lparr>st_Applied = 0, st_Discarded = 0, st_Buffered = 0, st_Gaps = 0, st_Dropped = 0,
     st_Resyncs = 0, st_Refetches = 0\<rparr>"

record Tracker =
  book :: Book
  seq :: Sequencer
  buf :: "BookDelta list"
  bufCap :: int
  fetching :: bool
  bidFloor :: Price_t
  askCeil :: Price_t
  stats :: Stats

datatype tracker_error =
    WrongSymbol Symbol Symbol
  | ErrSnapshotBehind int int
  | ApplyDelta int int book_error
  | LoadSnapshot int book_error
  | ReplayDelta int int book_error

definition NewTracker :: "Symbol \<Rightarrow> int \<Rightarrow> Tracker" where
  "NewTracker sy c =
    \<lparr>book = New sy, seq = zero_Sequencer, buf = [], bufCap = (if c \<le> 0 then DefaultBufferCap else c),
     fetching = False, bidFloor = 0, askCeil = 0, stats = zero_Stats\<rparr>"

definition Live :: "Tracker \<Rightarrow> bool" where
  "Live t = (\<not> NeedsResync (seq t))"

definition Tracker_LastID :: "Tracker \<Rightarrow> int" where
  "Tracker_LastID t = LastID (seq t)"

definition Buffered :: "Tracker \<Rightarrow> int" where
  "Buffered t = int (length (buf t))"

text \<open>\<open>buffer\<close>: drop the oldest held deltas when the buffer is full, then append.\<close>

definition buffer :: "Tracker \<Rightarrow> BookDelta \<Rightarrow> Tracker" where
  "buffer t d =
    (let t = (if int (length (buf t)) \<ge> bufCap t
              then t\<lparr>buf := slice_delete (buf t) 0 (nat (int (length (buf t)) - bufCap t + 1)),
                     stats := (stats t)\<lparr>st_Dropped := st_Dropped (stats t) + 1\<rparr>\<rparr>
              else t)
     in t\<lparr>buf := buf t @ [d]\<rparr>)"

definition keepBufferFrom :: "Tracker \<Rightarrow> nat \<Rightarrow> Tracker" where
  "keepBufferFrom t i = t\<lparr>buf := slice_delete (buf t) 0 i\<rparr>"

definition clearBuffer :: "Tracker \<Rightarrow> Tracker" where
  "clearBuffer t = t\<lparr>buf := []\<rparr>"

definition Tracker_Apply :: "Tracker \<Rightarrow> BookDelta \<Rightarrow> Tracker \<times> (tracker_error + Status)" where
  "Tracker_Apply t d =
    (if delta_Symbol d \<noteq> symbol (book t) then (t, Inl (WrongSymbol (symbol (book t)) (delta_Symbol d)))
     else if NeedsResync (seq t)
     then let t = buffer t d
          in (t\<lparr>stats := (stats t)\<lparr>st_Buffered := st_Buffered (stats t) + 1\<rparr>\<rparr>, Inr StatusBuffered)
     else
      let (s', c) = Next (seq t) d; t = t\<lparr>seq := s'\<rparr>
      in case c of
           Stale \<Rightarrow> (t\<lparr>stats := (stats t)\<lparr>st_Discarded := st_Discarded (stats t) + 1\<rparr>\<rparr>, Inr StatusDiscarded)
         | Contiguous \<Rightarrow>
            (case Book_Apply (book t) (delta_Bids d) (delta_Asks d) of
               Inl e \<Rightarrow> (buffer (t\<lparr>seq := Invalidate (seq t)\<rparr>) d, Inl (ApplyDelta (FirstID d) (delta_LastID d) e))
             | Inr b \<Rightarrow> (t\<lparr>book := b, stats := (stats t)\<lparr>st_Applied := st_Applied (stats t) + 1\<rparr>\<rparr>,
                        Inr StatusApplied))
         | Gapped \<Rightarrow> (buffer (t\<lparr>stats := (stats t)\<lparr>st_Gaps := st_Gaps (stats t) + 1\<rparr>\<rparr>) d, Inr StatusGapped))"

definition BeginFetch :: "Tracker \<Rightarrow> Tracker \<times> bool" where
  "BeginFetch t =
    (if fetching t \<or> \<not> NeedsResync (seq t) then (t, False) else (t\<lparr>fetching := True\<rparr>, True))"

definition FetchFailed :: "Tracker \<Rightarrow> Tracker" where
  "FetchFailed t = t\<lparr>fetching := False\<rparr>"

text \<open>\<open>setBounds\<close>: the deepest listed price of each side of a truncated snapshot.\<close>

definition deepest_bid :: "Level list \<Rightarrow> Price_t" where
  "deepest_bid ls = foldl (\<lambda>m l. if Price l < m then Price l else m) (case ls of [] \<Rightarrow> 0 | l # _ \<Rightarrow> Price l) ls"

definition deepest_ask :: "Level list \<Rightarrow> Price_t" where
  "deepest_ask ls = foldl (\<lambda>m l. if Price l > m then Price l else m) (case ls of [] \<Rightarrow> 0 | l # _ \<Rightarrow> Price l) ls"

definition setBounds :: "Tracker \<Rightarrow> Snapshot \<Rightarrow> Tracker" where
  "setBounds t s =
    (if \<not> Truncated s then t\<lparr>bidFloor := 0, askCeil := 0\<rparr>
     else t\<lparr>bidFloor := deepest_bid (snap_Bids s), askCeil := deepest_ask (snap_Asks s)\<rparr>)"

text \<open>The replay loop of \<open>Load\<close>, at index \<open>i\<close> of the buffer with \<open>ds\<close> still to come.\<close>

fun replay :: "Tracker \<Rightarrow> nat \<Rightarrow> BookDelta list \<Rightarrow> Tracker \<times> tracker_error option" where
  "replay t i [] =
     (let t = clearBuffer t in (t\<lparr>stats := (stats t)\<lparr>st_Resyncs := st_Resyncs (stats t) + 1\<rparr>\<rparr>, None))"
| "replay t i (d # ds) =
     (let (s', c) = Next (seq t) d; t = t\<lparr>seq := s'\<rparr>
      in case c of
           Stale \<Rightarrow> replay t (i + 1) ds
         | Contiguous \<Rightarrow>
            (case Book_Apply (book t) (delta_Bids d) (delta_Asks d) of
               Inl e \<Rightarrow> (keepBufferFrom (t\<lparr>seq := Invalidate (seq t)\<rparr>) i,
                         Some (ReplayDelta (FirstID d) (delta_LastID d) e))
             | Inr b \<Rightarrow> replay (t\<lparr>book := b\<rparr>) (i + 1) ds)
         | Gapped \<Rightarrow>
            (let t = keepBufferFrom (t\<lparr>seq := Invalidate (seq t)\<rparr>) i
             in (t\<lparr>stats := (stats t)\<lparr>st_Refetches := st_Refetches (stats t) + 1\<rparr>\<rparr>, None)))"

definition Load :: "Tracker \<Rightarrow> Snapshot \<Rightarrow> Tracker \<times> tracker_error option" where
  "Load t0 s =
    (let t = t0\<lparr>fetching := False\<rparr>
     in if snap_Symbol s \<noteq> symbol (book t) then (t, Some (WrongSymbol (symbol (book t)) (snap_Symbol s)))
     else if Live t \<and> snap_LastID s < LastID (seq t)
     then (t, Some (ErrSnapshotBehind (snap_LastID s) (LastID (seq t))))
     else
      case Book_Reset (book t) (snap_Bids s) (snap_Asks s) of
        Inl e \<Rightarrow> (t, Some (LoadSnapshot (snap_LastID s) e))
      | Inr b \<Rightarrow>
         let t = setBounds (t\<lparr>book := b, seq := Seq_Reset (seq t) (snap_LastID s)\<rparr>) s
         in replay t 0 (buf t))"

section \<open>The resync buffer as a bounded queue\<close>

lemma buffer_frame [simp]:
  "book (buffer t d) = book t" "seq (buffer t d) = seq t" "bufCap (buffer t d) = bufCap t"
  "fetching (buffer t d) = fetching t" "bidFloor (buffer t d) = bidFloor t" "askCeil (buffer t d) = askCeil t"
  by (simp_all add: buffer_def Let_def)

definition buf_ok :: "Tracker \<Rightarrow> bool" where
  "buf_ok t \<longleftrightarrow> 0 < bufCap t \<and> int (length (buf t)) \<le> bufCap t"

lemma buf_buffer:
  "buf_ok t \<Longrightarrow> buf (buffer t d) = (if int (length (buf t)) = bufCap t then tl (buf t) else buf t) @ [d]"
  by (auto simp: buffer_def buf_ok_def Let_def slice_delete_def drop_Suc)

interpretation resync_buffer:
  drop_oldest buf_ok buf "\<lambda>t. nat (bufCap t)" "\<lambda>t. st_Dropped (stats t)" buffer
proof unfold_locales
  fix t d
  assume ok: "buf_ok t"
  then show "length (buf t) \<le> nat (bufCap t)" and "0 < nat (bufCap t)"
    by (auto simp: buf_ok_def)
  show "nat (bufCap (buffer t d)) = nat (bufCap t)" by simp
  have "buf t \<noteq> []" if "int (length (buf t)) = bufCap t"
    using ok that by (auto simp: buf_ok_def)
  then show "buf_ok (buffer t d)"
    using ok buf_buffer [OF ok, of d] by (auto simp: buf_ok_def)
  show "length (buf t) < nat (bufCap t) \<Longrightarrow>
      buf (buffer t d) = buf t @ [d] \<and> st_Dropped (stats (buffer t d)) = st_Dropped (stats t)"
    using ok by (auto simp: buffer_def buf_ok_def Let_def)
  show "length (buf t) = nat (bufCap t) \<Longrightarrow> st_Dropped (stats (buffer t d)) = st_Dropped (stats t) + 1"
    using ok by (auto simp: buffer_def buf_ok_def Let_def)
  show "length (buf t) = nat (bufCap t) \<Longrightarrow> buf (buffer t d) = tl (buf t) @ [d]"
    using ok buf_buffer [OF ok, of d] by (auto simp: buf_ok_def)
qed

section \<open>The invariant\<close>

definition tracker_inv :: "Tracker \<Rightarrow> bool" where
  "tracker_inv t \<longleftrightarrow> book_inv (book t) \<and> buf_ok t \<and> in_i64 (last_id (seq t))
    \<and> (synced (seq t) \<longrightarrow> buf t = [] \<and> \<not> fetching t)
    \<and> (\<forall>d\<in>set (buf t). delta_i64 d \<and> delta_Symbol d = symbol (book t))"

lemma Live_iff: "Live t \<longleftrightarrow> synced (seq t)"
  by (simp add: Live_def NeedsResync_def)

lemma set_buffer: "buf_ok t \<Longrightarrow> set (buf (buffer t d)) \<subseteq> insert d (set (buf t))"
  by (cases "buf t") (auto simp: buf_buffer)

lemma tracker_inv_New: "tracker_inv (NewTracker sy c)"
  by (simp add: tracker_inv_def NewTracker_def buf_ok_def zero_Sequencer_def DefaultBufferCap_def
      in_i64_def MinInt64_def MaxInt64_def)

lemma tracker_inv_stats [simp]: "tracker_inv (t\<lparr>stats := x\<rparr>) = tracker_inv t"
  by (simp add: tracker_inv_def buf_ok_def)

lemma tracker_inv_buffer:
  assumes "tracker_inv t" and "\<not> synced (seq t)" and "delta_i64 d" and "delta_Symbol d = symbol (book t)"
  shows "tracker_inv (buffer t d)"
  using assms set_buffer [of t d] resync_buffer.invar_push [of t d]
  by (auto simp: tracker_inv_def)

text \<open>What the tracker does with one delta, by the sequencer's verdict.\<close>

lemma Tracker_Apply_cases:
  assumes "delta_Symbol d = symbol (book t)"
  shows "\<not> synced (seq t) \<Longrightarrow> Tracker_Apply t d =
      ((buffer t d)\<lparr>stats := (stats (buffer t d))\<lparr>st_Buffered := st_Buffered (stats (buffer t d)) + 1\<rparr>\<rparr>,
       Inr StatusBuffered)"
    and "synced (seq t) \<Longrightarrow> Next (seq t) d = (s', Stale) \<Longrightarrow> Tracker_Apply t d =
      (t\<lparr>seq := s', stats := (stats t)\<lparr>st_Discarded := st_Discarded (stats t) + 1\<rparr>\<rparr>, Inr StatusDiscarded)"
    and "synced (seq t) \<Longrightarrow> Next (seq t) d = (s', Contiguous) \<Longrightarrow>
      Book_Apply (book t) (delta_Bids d) (delta_Asks d) = Inr b \<Longrightarrow> Tracker_Apply t d =
      (t\<lparr>seq := s', book := b, stats := (stats t)\<lparr>st_Applied := st_Applied (stats t) + 1\<rparr>\<rparr>, Inr StatusApplied)"
    and "synced (seq t) \<Longrightarrow> Next (seq t) d = (s', Contiguous) \<Longrightarrow>
      Book_Apply (book t) (delta_Bids d) (delta_Asks d) = Inl e \<Longrightarrow> Tracker_Apply t d =
      (buffer (t\<lparr>seq := Invalidate s'\<rparr>) d, Inl (ApplyDelta (FirstID d) (delta_LastID d) e))"
    and "synced (seq t) \<Longrightarrow> Next (seq t) d = (s', Gapped) \<Longrightarrow> Tracker_Apply t d =
      (buffer (t\<lparr>seq := s', stats := (stats t)\<lparr>st_Gaps := st_Gaps (stats t) + 1\<rparr>\<rparr>) d, Inr StatusGapped)"
  using assms by (auto simp: Tracker_Apply_def NeedsResync_def Let_def)

lemma Tracker_Apply_wrong_symbol:
  "delta_Symbol d \<noteq> symbol (book t) \<Longrightarrow> Tracker_Apply t d = (t, Inl (WrongSymbol (symbol (book t)) (delta_Symbol d)))"
  by (simp add: Tracker_Apply_def)

lemma tracker_inv_Apply [inv_pres]:
  assumes "tracker_inv t" and "delta_i64 d"
  shows "tracker_inv (fst (Tracker_Apply t d))"
proof (cases "delta_Symbol d = symbol (book t)")
  case sy: True
  show ?thesis
  proof (cases "synced (seq t)")
    case True
    obtain s' c where n: "Next (seq t) d = (s', c)" by (cases "Next (seq t) d")
    have empty: "buf t = []" "\<not> fetching t" "book_inv (book t)" "buf_ok t" "in_i64 (last_id (seq t))"
      using assms(1) True by (auto simp: tracker_inv_def)
    have last: "in_i64 (last_id s')"
      using n assms(2) empty by (auto simp: Next_def delta_i64_def split: if_splits)
    have unsync: "tracker_inv (buffer (t\<lparr>seq := s'', stats := x\<rparr>) d)"
      if "\<not> synced s''" "in_i64 (last_id s'')" for s'' x
      by (rule tracker_inv_buffer) (use that empty sy assms(2) in \<open>auto simp: tracker_inv_def buf_ok_def\<close>)
    show ?thesis
    proof (cases c)
      case Stale
      with n True sy empty show ?thesis
        using Next_cases(1) [OF n] assms(1) by (simp add: Tracker_Apply_cases(2))
    next
      case Contiguous
      show ?thesis
      proof (cases "Book_Apply (book t) (delta_Bids d) (delta_Asks d)")
        case (Inl e)
        with Contiguous n True sy show ?thesis
          using unsync [of "Invalidate s'" "stats t"] last
          by (simp add: Tracker_Apply_cases(4) Invalidate_def)
      next
        case (Inr b)
        with Contiguous n True sy show ?thesis
          using Book_Apply_ok [OF empty(3) Inr] last empty
          by (simp add: Tracker_Apply_cases(3) tracker_inv_def buf_ok_def)
      qed
    next
      case Gapped
      with n True sy show ?thesis
        using unsync last Next_cases(3) [OF n] by (simp add: Tracker_Apply_cases(5))
    qed
  next
    case False
    with sy assms show ?thesis
      by (simp add: Tracker_Apply_cases(1) tracker_inv_buffer)
  qed
next
  case False
  with assms show ?thesis by (simp add: Tracker_Apply_wrong_symbol)
qed

lemma tracker_inv_BeginFetch [inv_pres]: "tracker_inv t \<Longrightarrow> tracker_inv (fst (BeginFetch t))"
  by (auto simp: BeginFetch_def tracker_inv_def buf_ok_def NeedsResync_def)

lemma tracker_inv_FetchFailed [inv_pres]: "tracker_inv t \<Longrightarrow> tracker_inv (FetchFailed t)"
  by (auto simp: FetchFailed_def tracker_inv_def buf_ok_def)

section \<open>Load\<close>

lemma suffix_facts: "suffix xs ys \<Longrightarrow> set xs \<subseteq> set ys \<and> length xs \<le> length ys"
  by (simp add: set_mono_suffix suffix_length_le)

text \<open>
  The replay loop keeps whatever a contiguous application keeps of book and position, and ends
  in one of two ways: synced with an empty buffer, or not synced with a suffix of the buffer.
\<close>

definition replayed :: "(Book \<Rightarrow> Sequencer \<Rightarrow> bool) \<Rightarrow> Tracker \<Rightarrow> BookDelta list \<Rightarrow> Tracker \<Rightarrow> tracker_error option \<Rightarrow> bool" where
  "replayed J t ds t' r \<longleftrightarrow>
    bufCap t' = bufCap t \<and> fetching t' = fetching t \<and> bidFloor t' = bidFloor t \<and> askCeil t' = askCeil t
    \<and> (synced (seq t') \<and> buf t' = [] \<and> r = None \<and> J (book t') (seq t')
       \<or> \<not> synced (seq t') \<and> suffix (buf t') ds
          \<and> (\<exists>s. J (book t') s \<and> (last_id (seq t') = last_id s \<or> (\<exists>d\<in>set ds. last_id (seq t') = delta_LastID d))))"

lemma replayed_Cons:
  assumes "replayed J t ds t' r"
    and "bufCap t0 = bufCap t" "fetching t0 = fetching t" "bidFloor t0 = bidFloor t" "askCeil t0 = askCeil t"
  shows "replayed J t0 (d # ds) t' r"
  using assms by (auto simp: replayed_def suffix_Cons)

lemma replayed_stop:
  assumes "J (book t) (seq t)" and "\<not> synced (seq t')" and "buf t' = d # ds" and "book t' = book t"
    and "last_id (seq t') = last_id (seq t) \<or> last_id (seq t') = delta_LastID d"
    and "bufCap t' = bufCap t" "fetching t' = fetching t" "bidFloor t' = bidFloor t" "askCeil t' = askCeil t"
  shows "replayed J t (d # ds) t' r"
  using assms by (auto simp: replayed_def)

lemma replay_rule:
  assumes step: "\<And>b s d b'. d \<in> set ds \<Longrightarrow> J b s \<Longrightarrow> synced s \<Longrightarrow> last_id s < delta_LastID d \<Longrightarrow>
      FirstID d \<le> wrap64 (last_id s + 1) \<Longrightarrow> Book_Apply b (delta_Bids d) (delta_Asks d) = Inr b' \<Longrightarrow>
      J b' (s\<lparr>last_id := delta_LastID d\<rparr>)"
    and J: "J (book t) (seq t)" and "synced (seq t)" and "buf t = pre @ ds" and "length pre = i"
    and res: "replay t i ds = (t', r)"
  shows "replayed J t ds t' r"
  using assms
proof (induction ds arbitrary: t i pre)
  case Nil
  then show ?case by (auto simp: clearBuffer_def replayed_def)
next
  case (Cons d ds)
  obtain s' c where n: "Next (seq t) d = (s', c)" by (cases "Next (seq t) d")
  have kept: "slice_delete (buf t) 0 i = d # ds"
    using Cons.prems by (simp add: slice_delete_def)
  have step: "J b' (s\<lparr>last_id := delta_LastID d'\<rparr>)"
    if "d' \<in> set ds" "J b s" "synced s" "last_id s < delta_LastID d'"
      "FirstID d' \<le> wrap64 (last_id s + 1)" "Book_Apply b (delta_Bids d') (delta_Asks d') = Inr b'" for b s d' b'
    using Cons.prems(1) [of d'] that by simp
  show ?case
  proof (cases c)
    case Stale
    then have "seq t = s'" using Next_cases(1) [OF n] by simp
    with n Stale have rest: "replay t (i + 1) ds = (t', r)"
      using Cons.prems(6) by auto
    have "replayed J t ds t' r"
      by (rule Cons.IH [of t "pre @ [d]" "i + 1"]) (use step rest Cons.prems(2-5) in simp_all)
    then show ?thesis by (rule replayed_Cons) simp_all
  next
    case Contiguous
    note nc = Next_cases(2) [OF n Contiguous]
    show ?thesis
    proof (cases "Book_Apply (book t) (delta_Bids d) (delta_Asks d)")
      case (Inl e)
      with n Contiguous have "t' = keepBufferFrom (t\<lparr>seq := Invalidate s'\<rparr>) i"
        using Cons.prems(6) by simp
      with Cons.prems(2) kept nc show ?thesis
        by (intro replayed_stop) (simp_all add: keepBufferFrom_def Invalidate_def)
    next
      case (Inr b)
      let ?t = "t\<lparr>seq := s', book := b\<rparr>"
      from n Contiguous Inr have rest: "replay ?t (i + 1) ds = (t', r)"
        using Cons.prems(6) by simp
      have J': "J (book ?t) (seq ?t)"
        using Cons.prems(1) [of d, OF _ Cons.prems(2,3) _ _ Inr] nc by auto
      have "replayed J ?t ds t' r"
        by (rule Cons.IH [of ?t "pre @ [d]" "i + 1"]) (use step rest J' nc Cons.prems(3-5) in simp_all)
      then show ?thesis by (rule replayed_Cons) simp_all
    qed
  next
    case Gapped
    with n obtain x where "t' = (keepBufferFrom (t\<lparr>seq := Invalidate s'\<rparr>) i)\<lparr>stats := x\<rparr>"
      using Cons.prems(6) by (auto simp: Let_def)
    with Cons.prems(2) kept Next_cases(3) [OF n Gapped] show ?thesis
      by (intro replayed_stop) (simp_all add: keepBufferFrom_def Invalidate_def)
  qed
qed

text \<open>The state \<open>Load\<close> starts the replay from, once the snapshot is accepted.\<close>

definition anchored :: "Tracker \<Rightarrow> Book \<Rightarrow> Snapshot \<Rightarrow> Tracker" where
  "anchored t b s =
    setBounds (t\<lparr>fetching := False, book := b, seq := Seq_Reset (seq t) (snap_LastID s)\<rparr>) s"

lemma anchored_fields [simp]:
  "book (anchored t b s) = b" "buf (anchored t b s) = buf t" "bufCap (anchored t b s) = bufCap t"
  "fetching (anchored t b s) = False" "last_id (seq (anchored t b s)) = snap_LastID s"
  "synced (seq (anchored t b s))"
  by (simp_all add: anchored_def setBounds_def Seq_Reset_def)

lemma Load_cases:
  obtains (refused) e where "Load t s = (t\<lparr>fetching := False\<rparr>, Some e)"
      "snap_Symbol s = symbol (book t) \<Longrightarrow> synced (seq t) \<and> snap_LastID s < last_id (seq t)
        \<or> (\<exists>x. Book_Reset (book t) (snap_Bids s) (snap_Asks s) = Inl x)"
  | (accepted) b where "snap_Symbol s = symbol (book t)" "\<not> (synced (seq t) \<and> snap_LastID s < last_id (seq t))"
      "Book_Reset (book t) (snap_Bids s) (snap_Asks s) = Inr b"
      "Load t s = replay (anchored t b s) 0 (buf t)"
proof (cases "snap_Symbol s \<noteq> symbol (book t) \<or> synced (seq t) \<and> snap_LastID s < last_id (seq t)")
  case True
  then show thesis
    by (intro refused [of "if snap_Symbol s \<noteq> symbol (book t) then WrongSymbol (symbol (book t)) (snap_Symbol s)
          else ErrSnapshotBehind (snap_LastID s) (last_id (seq t))"])
       (auto simp: Load_def Let_def Live_iff LastID_def)
next
  case ok: False
  show thesis
  proof (cases "Book_Reset (book t) (snap_Bids s) (snap_Asks s)")
    case (Inl e)
    with ok show thesis
      by (intro refused [of "LoadSnapshot (snap_LastID s) e"]) (auto simp: Load_def Let_def Live_iff LastID_def)
  next
    case (Inr b)
    with ok show thesis
      by (intro accepted) (auto simp: Load_def Let_def Live_iff LastID_def anchored_def setBounds_def)
  qed
qed

lemma tracker_inv_Load [inv_pres]:
  assumes "tracker_inv t" and "in_i64 (snap_LastID s)"
  shows "tracker_inv (fst (Load t s))"
proof (cases rule: Load_cases [of t s])
  case (refused e)
  with assms(1) show ?thesis by (auto simp: tracker_inv_def buf_ok_def)
next
  case (accepted b)
  obtain t' r where res: "replay (anchored t b s) 0 (buf t) = (t', r)"
    by (cases "replay (anchored t b s) 0 (buf t)")
  have b: "book_inv b" "symbol b = symbol (book t)"
    using Book_Reset_ok [OF _ accepted(3)] assms(1) by (auto simp: tracker_inv_def)
  have buf: "\<forall>d\<in>set (buf t). delta_i64 d \<and> delta_Symbol d = symbol (book t)" "buf_ok t"
    using assms(1) by (auto simp: tracker_inv_def)
  define J where "J = (\<lambda>b' (s' :: Sequencer). book_inv b' \<and> symbol b' = symbol (book t) \<and> in_i64 (last_id s'))"
  have step: "J b' (s'\<lparr>last_id := delta_LastID d\<rparr>)"
    if "d \<in> set (buf t)" "J b0 s'" "Book_Apply b0 (delta_Bids d) (delta_Asks d) = Inr b'" for b0 s' d b'
    using that buf Book_Apply_ok [OF _ that(3)] by (auto simp: J_def delta_i64_def)
  have start: "J (book (anchored t b s)) (seq (anchored t b s))"
    using b assms(2) by (simp add: J_def)
  have "replayed J (anchored t b s) (buf t) t' r"
    by (rule replay_rule [where pre = "[]" and i = 0]) (use step start res in simp_all)
  with buf show ?thesis
    unfolding accepted(4) res
    by (auto simp: tracker_inv_def buf_ok_def J_def delta_i64_def replayed_def dest!: suffix_facts)
qed

section \<open>Reachable trackers\<close>

text \<open>
  The trackers a caller can reach from \<open>NewTracker\<close> by the exported operations, in any order,
  with deltas and snapshots drawn from what \<open>D\<close> and \<open>S\<close> allow.
\<close>

inductive tracker_run ::
  "(BookDelta \<Rightarrow> bool) \<Rightarrow> (Snapshot \<Rightarrow> bool) \<Rightarrow> Symbol \<Rightarrow> int \<Rightarrow> Tracker \<Rightarrow> bool"
  for D S sy c where
  run_new: "tracker_run D S sy c (NewTracker sy c)"
| run_apply: "tracker_run D S sy c t \<Longrightarrow> D d \<Longrightarrow> tracker_run D S sy c (fst (Tracker_Apply t d))"
| run_begin: "tracker_run D S sy c t \<Longrightarrow> tracker_run D S sy c (fst (BeginFetch t))"
| run_failed: "tracker_run D S sy c t \<Longrightarrow> tracker_run D S sy c (FetchFailed t)"
| run_load: "tracker_run D S sy c t \<Longrightarrow> S s \<Longrightarrow> tracker_run D S sy c (fst (Load t s))"

lemma tracker_run_inv:
  assumes "tracker_run D S sy c t" and "\<And>d. D d \<Longrightarrow> delta_i64 d" and "\<And>s. S s \<Longrightarrow> in_i64 (snap_LastID s)"
  shows "tracker_inv t"
  using assms(1) by induction (simp_all add: tracker_inv_New inv_pres assms(2,3))

lemma Book_symbol:
  "Book_Apply b bs as = Inr b' \<Longrightarrow> symbol b' = symbol b" "Book_Reset b bs as = Inr b' \<Longrightarrow> symbol b' = symbol b"
  by (auto simp: Book_Apply_def Book_Reset_def split: option.splits sum.splits)

lemma replay_symbol: "symbol (book (fst (replay t i ds))) = symbol (book t)"
  by (induction t i ds rule: replay.induct)
     (auto simp: Let_def clearBuffer_def keepBufferFrom_def Book_symbol split: prod.splits Class.splits sum.splits)

lemma Tracker_Apply_symbol [simp]: "symbol (book (fst (Tracker_Apply t d))) = symbol (book t)"
  by (auto simp: Tracker_Apply_def Let_def Book_symbol split: prod.splits Class.splits sum.splits)

lemma BeginFetch_symbol [simp]: "symbol (book (fst (BeginFetch t))) = symbol (book t)"
  by (simp add: BeginFetch_def)

lemma Load_symbol [simp]: "symbol (book (fst (Load t s))) = symbol (book t)"
  by (cases rule: Load_cases [of t s]) (auto simp: replay_symbol Book_symbol)

lemma tracker_run_symbol: "tracker_run D S sy c t \<Longrightarrow> symbol (book t) = sy"
  by (induction rule: tracker_run.induct) (simp_all add: NewTracker_def New_def FetchFailed_def)

section \<open>Progress of a resync\<close>

text \<open>A run of deltas with no hole: each starts at or before the id after its predecessor's last.\<close>

fun chained :: "int \<Rightarrow> BookDelta list \<Rightarrow> bool" where
  "chained k [] = True"
| "chained k (d # ds) = (FirstID d \<le> k + 1 \<and> chained (max k (delta_LastID d)) ds)"

definition last_of :: "int \<Rightarrow> BookDelta list \<Rightarrow> int" where
  "last_of k ds = foldl (\<lambda>m d. max m (delta_LastID d)) k ds"

definition valid_delta :: "BookDelta \<Rightarrow> bool" where
  "valid_delta d \<longleftrightarrow> (\<forall>l\<in>set (delta_Bids d) \<union> set (delta_Asks d). valid_level l)"

lemma Book_Apply_valid: "valid_delta d \<Longrightarrow> \<exists>b'. Book_Apply b (delta_Bids d) (delta_Asks d) = Inr b'"
  using Book_Apply_fails_iff [of b "delta_Bids d" "delta_Asks d"]
  by (cases "Book_Apply b (delta_Bids d) (delta_Asks d)") (auto simp: valid_delta_def)

lemma replay_bridges:
  assumes "chained (last_id (seq t)) ds" and "\<forall>d\<in>set ds. valid_delta d \<and> delta_i64 d"
    and "synced (seq t)" and "in_i64 (last_id (seq t))"
  shows "\<exists>t'. replay t i ds = (t', None) \<and> synced (seq t') \<and> buf t' = []
    \<and> last_id (seq t') = last_of (last_id (seq t)) ds"
  using assms
proof (induction ds arbitrary: t i)
  case Nil
  then show ?case by (simp add: clearBuffer_def last_of_def)
next
  case (Cons d ds)
  then have i64: "delta_i64 d" and v: "valid_delta d" by auto
  obtain b where b: "Book_Apply (book t) (delta_Bids d) (delta_Asks d) = Inr b"
    using Book_Apply_valid [OF v] by blast
  note nx = Next_synced [OF Cons.prems(3,4) i64]
  show ?case
  proof (cases "delta_LastID d \<le> last_id (seq t)")
    case True
    then have "replay t i (d # ds) = replay t (i + 1) ds" by (simp add: nx)
    with True Cons.IH [of t "i + 1"] Cons.prems show ?thesis
      by (simp add: last_of_def max_absorb1)
  next
    case False
    let ?t = "t\<lparr>seq := (seq t)\<lparr>last_id := delta_LastID d\<rparr>, book := b\<rparr>"
    have "replay t i (d # ds) = replay ?t (i + 1) ds"
      using False Cons.prems(1) b by (simp add: nx)
    with False Cons.IH [of ?t "i + 1"] Cons.prems i64 show ?thesis
      by (simp add: last_of_def max_absorb2 delta_i64_def)
  qed
qed

text \<open>A replay that meets a hole keeps exactly the deltas from the hole on.\<close>

lemma replay_hole:
  assumes "replay t i ds = (t', None)" and "\<not> synced (seq t')" and "synced (seq t)"
    and "buf t = pre @ ds" and "length pre = i"
  shows "\<exists>placed. ds = placed @ buf t' \<and> (\<forall>d\<in>set placed. delta_LastID d \<le> last_id (seq t'))
    \<and> last_id (seq t) \<le> last_id (seq t')
    \<and> buf t' \<noteq> [] \<and> wrap64 (last_id (seq t') + 1) < FirstID (hd (buf t'))"
  using assms
proof (induction ds arbitrary: t i pre)
  case Nil
  then show ?case by (auto simp: clearBuffer_def Let_def)
next
  case (Cons d ds)
  obtain s' c where n: "Next (seq t) d = (s', c)" by (cases "Next (seq t) d")
  have more: "\<exists>placed. d # ds = placed @ buf t' \<and> (\<forall>d\<in>set placed. delta_LastID d \<le> last_id (seq t'))
      \<and> last_id (seq t) \<le> last_id (seq t')
      \<and> buf t' \<noteq> [] \<and> wrap64 (last_id (seq t') + 1) < FirstID (hd (buf t'))"
    if r: "replay t1 (i + 1) ds = (t', None)" and t1: "synced (seq t1)" "buf t1 = buf t"
      "delta_LastID d \<le> last_id (seq t1)" "last_id (seq t) \<le> last_id (seq t1)" for t1
  proof -
    have "buf t1 = (pre @ [d]) @ ds" "length (pre @ [d]) = i + 1"
      using t1(2) Cons.prems(4,5) by auto
    with Cons.IH [OF r Cons.prems(2) t1(1)] obtain placed where p: "ds = placed @ buf t'"
      "\<forall>d\<in>set placed. delta_LastID d \<le> last_id (seq t')" "last_id (seq t1) \<le> last_id (seq t')"
      "buf t' \<noteq> []" "wrap64 (last_id (seq t') + 1) < FirstID (hd (buf t'))" by blast
    with t1 show ?thesis by (intro exI [of _ "d # placed"]) auto
  qed
  show ?case
  proof (cases c)
    case Stale
    with n Next_cases(1) [OF n Stale] Cons.prems show ?thesis by (intro more [of t]) auto
  next
    case Contiguous
    with n Cons.prems(1) obtain b where "Book_Apply (book t) (delta_Bids d) (delta_Asks d) = Inr b"
      by (auto simp: Let_def split: sum.splits)
    with n Next_cases(2) [OF n Contiguous] Contiguous Cons.prems show ?thesis
      by (intro more [of "t\<lparr>seq := s', book := b\<rparr>"]) auto
  next
    case Gapped
    then have g: "wrap64 (last_id (seq t) + 1) < FirstID d" "last_id s' = last_id (seq t)"
      using n Cons.prems(3) by (auto simp: Next_def split: if_splits)
    have "buf t' = d # ds" "last_id (seq t') = last_id (seq t)"
      using Cons.prems n Gapped g(2) by (auto simp: Let_def keepBufferFrom_def slice_delete_def Invalidate_def)
    with g show ?thesis by (intro exI [of _ "[]"]) simp
  qed
qed

section \<open>Properties\<close>

text \<open>
  C16. The invariant of a tracker in every reachable state, whatever the order of the operations
  and whatever (64-bit) deltas and snapshots arrive: both sides of the book sorted with positive
  levels, at most \<open>bufCap\<close> deltas held and all of them for this symbol, and a live tracker holds
  no delta and has no request outstanding. The comment in \<open>Load\<close> that a live book's buffer is
  empty rests on it.
\<close>

theorem tracker_reachable_inv:
  assumes "tracker_run delta_i64 (\<lambda>s. in_i64 (snap_LastID s)) sy c t"
  shows "tracker_inv t \<and> (Live t \<longrightarrow> Buffered t = 0 \<and> \<not> fetching t)"
  using tracker_run_inv [OF assms] by (auto simp: tracker_inv_def Live_iff Buffered_def)

text \<open>C16 on a tracker that was offered a delta before its first snapshot.\<close>

theorem tracker_reachable_inv_witness:
  "tracker_inv (fst (Tracker_Apply (NewTracker ''A-B'' 0) (zero_BookDelta\<lparr>delta_Symbol := ''A-B''\<rparr>)))"
proof -
  let ?t = "fst (Tracker_Apply (NewTracker ''A-B'' 0) (zero_BookDelta\<lparr>delta_Symbol := ''A-B''\<rparr>))"
  have "tracker_run delta_i64 (\<lambda>s. in_i64 (snap_LastID s)) ''A-B'' 0 ?t"
    by (intro run_apply run_new)
       (simp add: delta_i64_def zero_BookDelta_def in_i64_def MinInt64_def MaxInt64_def)
  then show ?thesis using tracker_reachable_inv by blast
qed

lemma Load_connects:
  assumes "tracker_inv t" and "\<not> Live t" and "snap_Symbol s = symbol (book t)" and "in_i64 (snap_LastID s)"
    and "\<forall>l\<in>set (snap_Bids s) \<union> set (snap_Asks s). valid_level l"
    and "one_level_per_price (snap_Bids s)" and "one_level_per_price (snap_Asks s)"
    and "chained (snap_LastID s) (buf t)" and "\<forall>d\<in>set (buf t). valid_delta d"
  shows "\<exists>t'. Load t s = (t', None) \<and> Live t' \<and> buf t' = []
    \<and> Tracker_LastID t' = last_of (snap_LastID s) (buf t)"
proof (cases rule: Load_cases [of t s])
  case (refused e)
  then have "\<exists>x. Book_Reset (book t) (snap_Bids s) (snap_Asks s) = Inl x"
    using assms(2,3) by (auto simp: Live_iff)
  then have "\<not> (\<forall>l\<in>set (snap_Bids s) \<union> set (snap_Asks s). valid_level l)
      \<or> \<not> one_level_per_price (snap_Bids s) \<or> \<not> one_level_per_price (snap_Asks s)"
    by (rule Book_Reset_fails_iff [THEN iffD1])
  then show ?thesis using assms(5,6,7) by blast
next
  case (accepted b)
  have "\<forall>d\<in>set (buf t). valid_delta d \<and> delta_i64 d"
    using assms(1,9) by (auto simp: tracker_inv_def)
  with assms(4,8) show ?thesis
    using replay_bridges [of "anchored t b s" "buf t" 0]
    by (simp add: accepted(4) Live_iff Tracker_LastID_def LastID_def)
qed



text \<open>
  A snapshot that landed too old loses nothing that is still needed: when \<open>Load\<close> returns no
  error and the book is still not live, the buffer is what it was without a prefix of deltas
  whose ids are all at or below the position reached, the position is at or past the snapshot's,
  and the first delta kept is the one that starts past the next expected id.
\<close>

lemma Load_too_old:
  assumes "tracker_inv t" and "Load t s = (t', None)" and "\<not> Live t'"
  shows "\<exists>placed. buf t = placed @ buf t' \<and> (\<forall>d\<in>set placed. delta_LastID d \<le> Tracker_LastID t')
    \<and> snap_LastID s \<le> Tracker_LastID t' \<and> buf t' \<noteq> []
    \<and> wrap64 (Tracker_LastID t' + 1) < FirstID (hd (buf t'))"
proof (cases rule: Load_cases [of t s])
  case (refused e)
  then show ?thesis using assms(2) by simp
next
  case (accepted b)
  have "\<not> synced (seq t')" and r: "replay (anchored t b s) 0 (buf t) = (t', None)"
    using assms(2,3) accepted(4) by (simp_all add: Live_iff)
  then show ?thesis
    using replay_hole [OF r, of "[]"] by (simp add: Tracker_LastID_def LastID_def)
qed

text \<open>
  C17. The error path of \<open>Apply\<close>, on a delta of the tracker's own symbol. It is taken exactly when the
  book is live, the delta is the next one of the sequence and one of its levels cannot exist. Then
  the book's contents and the counters are what they were, the book is stale, the offending delta is what
  the buffer holds for the replay, and the next \<open>BeginFetch\<close> asks for a snapshot.
\<close>

theorem Tracker_Apply_error:
  assumes "tracker_inv t" and "delta_i64 d" and "delta_Symbol d = symbol (book t)" and "Tracker_Apply t d = (t', r)"
  shows "((\<exists>e. r = Inl e) \<longleftrightarrow> Live t \<and> Tracker_LastID t < delta_LastID d \<and> FirstID d \<le> Tracker_LastID t + 1
        \<and> (\<exists>l\<in>set (delta_Bids d) \<union> set (delta_Asks d). \<not> valid_level l))
    \<and> ((\<exists>e. r = Inl e) \<longrightarrow> book t' = book t \<and> stats t' = stats t \<and> \<not> Live t' \<and> buf t' = [d] \<and> snd (BeginFetch t'))"
proof (cases "synced (seq t)")
  case live: True
  have inv: "buf t = []" "\<not> fetching t" "buf_ok t" "in_i64 (last_id (seq t))"
    using assms(1) live by (auto simp: tracker_inv_def)
  obtain s' c where n: "Next (seq t) d = (s', c)" by (cases "Next (seq t) d")
  have c: "c = Contiguous \<longleftrightarrow> Tracker_LastID t < delta_LastID d \<and> FirstID d \<le> Tracker_LastID t + 1"
    using Next_rule [OF inv(4) assms(2) n] live by (simp add: Tracker_LastID_def LastID_def)
  show ?thesis
  proof (cases "c = Contiguous \<and> (\<exists>e. Book_Apply (book t) (delta_Bids d) (delta_Asks d) = Inl e)")
    case True
    then obtain x where x: "Book_Apply (book t) (delta_Bids d) (delta_Asks d) = Inl x" and cc: "c = Contiguous" by blast
    have t': "t' = buffer (t\<lparr>seq := Invalidate s'\<rparr>) d" and r: "\<exists>e. r = Inl e"
      using assms(4) Tracker_Apply_cases(4) [OF assms(3) live _ x] n cc by auto
    have "buf t' = [d]" "stats t' = stats t"
      using inv(1,3) by (auto simp: t' buffer_def buf_ok_def Let_def)
    then show ?thesis
      using r cc c live inv(2) Book_Apply_fails_iff [THEN iffD1, OF exI, OF x]
      by (simp add: t' Live_iff Invalidate_def BeginFetch_def NeedsResync_def)
  next
    case False
    then have "\<nexists>e. r = Inl e"
      using assms(4) Tracker_Apply_cases(2,3,5) [OF assms(3) live] n
      by (cases c; cases "Book_Apply (book t) (delta_Bids d) (delta_Asks d)") auto
    with False c show ?thesis using Book_Apply_fails_iff [of "book t" "delta_Bids d" "delta_Asks d"] by auto
  qed
next
  case False
  then show ?thesis using assms(4) Tracker_Apply_cases(1) [OF assms(3)] by (auto simp: Live_iff)
qed

text \<open>C17 on a live tracker at id 7 whose next delta carries a negative quantity.\<close>

theorem Tracker_Apply_error_witness:
  "let t = NewTracker ''A-B'' 4 \<lparr>seq := \<lparr>last_id = 7, synced = True\<rparr>\<rparr>;
       d = zero_BookDelta\<lparr>delta_Symbol := ''A-B'', FirstID := 8, delta_LastID := 9, delta_Bids := [\<lparr>Price = 5, Qty = - 1\<rparr>]\<rparr>
   in \<exists>t' e. tracker_inv t \<and> Live t \<and> Tracker_Apply t d = (t', Inl e) \<and> \<not> Live t' \<and> buf t' = [d] \<and> snd (BeginFetch t')"
proof -
  let ?t = "NewTracker ''A-B'' 4 \<lparr>seq := \<lparr>last_id = 7, synced = True\<rparr>\<rparr>"
  let ?d = "zero_BookDelta\<lparr>delta_Symbol := ''A-B'', FirstID := 8, delta_LastID := 9, delta_Bids := [\<lparr>Price = 5, Qty = - 1\<rparr>]\<rparr>"
  have inv: "tracker_inv ?t"
    by (simp add: tracker_inv_def NewTracker_def buf_ok_def in_i64_def MinInt64_def MaxInt64_def
        New_def book_inv_def side_inv_def)
  have d: "delta_i64 ?d" "delta_Symbol ?d = symbol (book ?t)"
    by (simp_all add: delta_i64_def in_i64_def MinInt64_def MaxInt64_def NewTracker_def New_def)
  obtain t' r where tr: "Tracker_Apply ?t ?d = (t', r)" by fastforce
  have err: "\<exists>e. r = Inl e"
    using Tracker_Apply_error [OF inv d tr] by (simp add: Live_iff Tracker_LastID_def LastID_def zero_BookDelta_def valid_level_def)
  with Tracker_Apply_error [OF inv d tr] inv tr show ?thesis by (auto simp: Let_def Live_iff)
qed

end
