(* ===== verification/Venue.thy ===== *)
theory Venue
  imports Tracker
begin

text \<open>
  The contract of a tracked book against the exchange. A venue is, for each side, a function
  from update ids to price functions: \<open>V k p\<close> is the quantity at price \<open>p\<close> once update \<open>k\<close> has
  happened. A delta is faithful when the levels it lists are the quantities at its last id and
  the prices it does not list did not change over its ids (levels are absolute quantities); a
  snapshot is faithful when it lists the quantities at its id, down to where it was cut. Under
  these two hypotheses on the feed, every live book is the venue's book at the id the tracker
  reports: exactly, on the range the tracker claims to know, and never wrong outside it.
\<close>

type_synonym venue_side = "int \<Rightarrow> Price_t \<Rightarrow> Qty_t"

section \<open>What the feed promises\<close>

definition levels_faithful :: "venue_side \<Rightarrow> int \<Rightarrow> int \<Rightarrow> Level list \<Rightarrow> bool" where
  "levels_faithful V f l ls \<longleftrightarrow>
    (\<forall>p\<in>prices ls. set_levels ls (\<lambda>_. 0) p = V l p)
    \<and> (\<forall>p k. p \<notin> prices ls \<and> f - 1 \<le> k \<and> k \<le> l \<longrightarrow> V k p = V l p)"

definition delta_faithful :: "venue_side \<Rightarrow> venue_side \<Rightarrow> BookDelta \<Rightarrow> bool" where
  "delta_faithful vb va d \<longleftrightarrow> delta_i64 d
    \<and> levels_faithful vb (FirstID d) (delta_LastID d) (delta_Bids d)
    \<and> levels_faithful va (FirstID d) (delta_LastID d) (delta_Asks d)"

text \<open>The prices a snapshot side speaks for: all of them, or those up to its deepest level.\<close>

definition bid_covered :: "bool \<Rightarrow> Level list \<Rightarrow> Price_t \<Rightarrow> bool" where
  "bid_covered trunc ls p \<longleftrightarrow> \<not> trunc \<or> ls = [] \<or> (\<exists>l\<in>set ls. Price l \<le> p)"

definition ask_covered :: "bool \<Rightarrow> Level list \<Rightarrow> Price_t \<Rightarrow> bool" where
  "ask_covered trunc ls p \<longleftrightarrow> \<not> trunc \<or> ls = [] \<or> (\<exists>l\<in>set ls. p \<le> Price l)"

definition snap_faithful :: "venue_side \<Rightarrow> venue_side \<Rightarrow> Snapshot \<Rightarrow> bool" where
  "snap_faithful vb va s \<longleftrightarrow> in_i64 (snap_LastID s)
    \<and> (\<forall>l\<in>set (snap_Bids s). Qty l = vb (snap_LastID s) (Price l))
    \<and> (\<forall>p. p \<notin> prices (snap_Bids s) \<and> bid_covered (Truncated s) (snap_Bids s) p \<longrightarrow> vb (snap_LastID s) p = 0)
    \<and> (\<forall>l\<in>set (snap_Asks s). Qty l = va (snap_LastID s) (Price l))
    \<and> (\<forall>p. p \<notin> prices (snap_Asks s) \<and> ask_covered (Truncated s) (snap_Asks s) p \<longrightarrow> va (snap_LastID s) p = 0)"

section \<open>What a tracked side promises\<close>

definition known_bid :: "Price_t \<Rightarrow> Price_t \<Rightarrow> bool" where
  "known_bid fl p \<longleftrightarrow> fl = 0 \<or> fl \<le> p"

definition known_ask :: "Price_t \<Rightarrow> Price_t \<Rightarrow> bool" where
  "known_ask ceil p \<longleftrightarrow> ceil = 0 \<or> p \<le> ceil"

definition side_sound :: "(Price_t \<Rightarrow> bool) \<Rightarrow> (Price_t \<Rightarrow> Qty_t) \<Rightarrow> (Price_t \<Rightarrow> Qty_t) \<Rightarrow> bool" where
  "side_sound known q v \<longleftrightarrow> (\<forall>p. known p \<longrightarrow> q p = v p) \<and> (\<forall>p. q p \<noteq> 0 \<longrightarrow> q p = v p)"

definition book_sound :: "venue_side \<Rightarrow> venue_side \<Rightarrow> Price_t \<Rightarrow> Price_t \<Rightarrow> Book \<Rightarrow> int \<Rightarrow> bool" where
  "book_sound vb va fl ceil b k \<longleftrightarrow>
    side_sound (known_bid fl) (bid_qty b) (vb k) \<and> side_sound (known_ask ceil) (ask_qty b) (va k)"

definition tracker_sound :: "venue_side \<Rightarrow> venue_side \<Rightarrow> Tracker \<Rightarrow> bool" where
  "tracker_sound vb va t \<longleftrightarrow>
    (synced (seq t) \<longrightarrow> book_sound vb va (bidFloor t) (askCeil t) (book t) (last_id (seq t)))
    \<and> (\<forall>d\<in>set (buf t). delta_faithful vb va d)"

section \<open>Deltas keep a side sound\<close>

context level_store
begin

lemma put_faithful:
  assumes "invar s" and "\<forall>l\<in>set ls. valid_level l" and "side_sound known (lookup s) (V k)"
    and "levels_faithful V f l ls" and "f - 1 \<le> k" and "k \<le> l"
  shows "side_sound known (lookup (foldl put s ls)) (V l)"
proof -
  have q: "lookup (foldl put s ls) p = (if p \<in> prices ls then V l p else lookup s p)" for p
  proof (cases "p \<in> prices ls")
    case True
    then have "set_levels ls (lookup s) p = set_levels ls (\<lambda>_. 0) p" by (rule set_levels_in)
    also have "\<dots> = V l p" using assms(4) True unfolding levels_faithful_def by blast
    finally show ?thesis using True by (simp add: put_all(2) [OF assms(1,2)])
  qed (simp add: put_all(2) [OF assms(1,2)] set_levels_notin)
  have "V k p = V l p" if "p \<notin> prices ls" for p
    using assms(4-6) that unfolding levels_faithful_def by blast
  with assms(3) show ?thesis by (auto simp: side_sound_def q)
qed

end

lemma Book_Apply_sound:
  assumes "book_inv b" and "book_sound vb va fl ceil b k" and "delta_faithful vb va d"
    and "FirstID d - 1 \<le> k" and "k \<le> delta_LastID d"
    and ok: "Book_Apply b (delta_Bids d) (delta_Asks d) = Inr b'"
  shows "book_sound vb va fl ceil b' (delta_LastID d)"
proof -
  have v: "\<forall>l\<in>set (delta_Bids d). valid_level l" "\<forall>l\<in>set (delta_Asks d). valid_level l"
    and b': "b' = b\<lparr>bids := foldl side_apply (bids b) (delta_Bids d), asks := foldl side_apply (asks b) (delta_Asks d)\<rparr>"
    using ok by (auto simp: Book_Apply_def validate_iff split: option.splits)
  have i: "side_inv (bids b)" "side_inv (asks b)" using assms(1) by (auto simp: book_inv_def)
  have f: "levels_faithful vb (FirstID d) (delta_LastID d) (delta_Bids d)"
    "levels_faithful va (FirstID d) (delta_LastID d) (delta_Asks d)"
    using assms(3) by (auto simp: delta_faithful_def)
  show ?thesis
    using assms(2) side_store.put_faithful [OF i(1) v(1) _ f(1) assms(4,5)]
      side_store.put_faithful [OF i(2) v(2) _ f(2) assms(4,5)]
    by (simp add: book_sound_def b')
qed

section \<open>Snapshots anchor a sound side\<close>

lemma foldl_min_price:
  "foldl (\<lambda>m l. if Price l < m then Price l else m) m ls \<in> insert m (prices ls)
   \<and> foldl (\<lambda>m l. if Price l < m then Price l else m) m ls \<le> m
   \<and> (\<forall>p\<in>prices ls. foldl (\<lambda>m l. if Price l < m then Price l else m) m ls \<le> p)"
proof (induction ls arbitrary: m)
  case (Cons l ls)
  from Cons [of "if Price l < m then Price l else m"] show ?case by (auto split: if_splits)
qed simp

lemma foldl_max_price:
  "foldl (\<lambda>m l. if Price l > m then Price l else m) m ls \<in> insert m (prices ls)
   \<and> foldl (\<lambda>m l. if Price l > m then Price l else m) m ls \<ge> m
   \<and> (\<forall>p\<in>prices ls. foldl (\<lambda>m l. if Price l > m then Price l else m) m ls \<ge> p)"
proof (induction ls arbitrary: m)
  case (Cons l ls)
  from Cons [of "if Price l > m then Price l else m"] show ?case by (auto split: if_splits)
qed simp

lemma deepest_bid_props:
  "ls \<noteq> [] \<Longrightarrow> deepest_bid ls \<in> prices ls" "p \<in> prices ls \<Longrightarrow> deepest_bid ls \<le> p" "deepest_bid [] = 0"
  using foldl_min_price [of "case ls of [] \<Rightarrow> 0 | l # _ \<Rightarrow> Price l" ls]
  by (auto simp: deepest_bid_def split: list.splits)

lemma deepest_ask_props:
  "ls \<noteq> [] \<Longrightarrow> deepest_ask ls \<in> prices ls" "p \<in> prices ls \<Longrightarrow> p \<le> deepest_ask ls" "deepest_ask [] = 0"
  using foldl_max_price [of "case ls of [] \<Rightarrow> 0 | l # _ \<Rightarrow> Price l" ls]
  by (auto simp: deepest_ask_def split: list.splits)

lemma listed_sound:
  assumes "\<forall>l\<in>set ls. Qty l = v (Price l)" and "one_level_per_price ls"
    and "\<forall>p. p \<notin> prices ls \<and> cov p \<longrightarrow> v p = 0" and "\<forall>p. p \<notin> prices ls \<and> known p \<longrightarrow> cov p"
  shows "side_sound known (listed_qty ls) v"
proof -
  let ?fs = "filter (\<lambda>l. Qty l \<noteq> 0) ls"
  have q: "listed_qty ls p = (if p \<in> prices ls then v p else 0)" for p
  proof (cases "p \<in> prices ?fs")
    case True
    then obtain l where "l \<in> set ?fs" "Price l = p" by (auto simp: prices_def)
    then show ?thesis
      using assms(1,2) qty_at_distinct [of ?fs l]
      by (auto simp: listed_qty_def one_level_per_price_def prices_def)
  next
    case False
    have "v p = 0" if "p \<in> prices ls"
    proof -
      from that obtain l where "l \<in> set ls" "Price l = p" by (auto simp: prices_def)
      moreover from this False have "Qty l = 0" by (auto simp: prices_def)
      ultimately show ?thesis using assms(1) by force
    qed
    with False show ?thesis by (simp add: listed_qty_def qty_at_notin)
  qed
  show ?thesis unfolding side_sound_def q using assms(3,4) by auto
qed

lemma anchored_sound:
  assumes "book_inv (book t)" and "snap_faithful vb va s"
    and ok: "Book_Reset (book t) (snap_Bids s) (snap_Asks s) = Inr b"
  shows "book_sound vb va (bidFloor (anchored t b s)) (askCeil (anchored t b s)) b (snap_LastID s)"
proof -
  let ?bs = "snap_Bids s" and ?as = "snap_Asks s" and ?k = "snap_LastID s"
  have one: "one_level_per_price ?bs" "one_level_per_price ?as"
    and v: "\<forall>l\<in>set ?bs \<union> set ?as. valid_level l"
    using Book_Reset_fails_iff [of "book t" ?bs ?as] ok by auto
  then have pos: "\<forall>p\<in>prices ?bs \<union> prices ?as. 0 < p" by (auto simp: prices_def valid_level_def)
  have bid: "bid_covered (Truncated s) ?bs p" if "known_bid (bidFloor (anchored t b s)) p" for p
    using that pos deepest_bid_props(1) [of ?bs]
    by (cases "?bs = []") (auto simp: known_bid_def anchored_def setBounds_def bid_covered_def prices_def split: if_splits)
  have ask: "ask_covered (Truncated s) ?as p" if "known_ask (askCeil (anchored t b s)) p" for p
    using that pos deepest_ask_props(1) [of ?as]
    by (cases "?as = []") (auto simp: known_ask_def anchored_def setBounds_def ask_covered_def prices_def split: if_splits)
  have "side_sound (known_bid (bidFloor (anchored t b s))) (listed_qty ?bs) (vb ?k)"
    using assms(2) one bid by (intro listed_sound [where cov = "bid_covered (Truncated s) ?bs"]) (auto simp: snap_faithful_def)
  moreover have "side_sound (known_ask (askCeil (anchored t b s))) (listed_qty ?as) (va ?k)"
    using assms(2) one ask by (intro listed_sound [where cov = "ask_covered (Truncated s) ?as"]) (auto simp: snap_faithful_def)
  ultimately show ?thesis
    using Book_Reset_ok [OF assms(1) ok] by (simp add: book_sound_def)
qed

section \<open>The tracker keeps its promise\<close>

lemma contiguous_ids:
  assumes "in_i64 i" and "delta_i64 d" and "i < delta_LastID d" and "FirstID d \<le> wrap64 (i + 1)"
  shows "FirstID d - 1 \<le> i" and "i \<le> delta_LastID d"
  using assms next_id_no_wrap [of i d] by (auto simp: delta_i64_def)

lemma tracker_sound_frame:
  "book t' = book t \<Longrightarrow> seq t' = seq t \<Longrightarrow> bidFloor t' = bidFloor t \<Longrightarrow> askCeil t' = askCeil t \<Longrightarrow>
   set (buf t') \<subseteq> set (buf t) \<Longrightarrow> tracker_sound vb va t \<Longrightarrow> tracker_sound vb va t'"
  by (auto simp: tracker_sound_def)

lemma tracker_sound_unsynced:
  "\<not> synced (seq t) \<Longrightarrow> \<forall>d\<in>set (buf t). delta_faithful vb va d \<Longrightarrow> tracker_sound vb va t"
  by (simp add: tracker_sound_def)

lemma tracker_sound_buffer:
  assumes "buf_ok t" and "\<not> synced (seq t)" and "\<forall>d\<in>set (buf t). delta_faithful vb va d"
    and "delta_faithful vb va d"
  shows "tracker_sound vb va (buffer t d)"
  using assms set_buffer [OF assms(1), of d] by (intro tracker_sound_unsynced) auto

lemma tracker_sound_Apply:
  assumes inv: "tracker_inv t" and sound: "tracker_sound vb va t" and d: "delta_faithful vb va d"
  shows "tracker_sound vb va (fst (Tracker_Apply t d))"
proof (cases "delta_Symbol d = symbol (book t)")
  case sy: True
  have i: "book_inv (book t)" "in_i64 (last_id (seq t))" "delta_i64 d" "buf_ok t"
    and held: "\<forall>d\<in>set (buf t). delta_faithful vb va d"
    using inv sound d by (auto simp: tracker_inv_def delta_faithful_def tracker_sound_def)
  have unsync: "tracker_sound vb va (buffer (t\<lparr>seq := s', stats := x\<rparr>) d)" if "\<not> synced s'" for s' x
    using that i held d by (intro tracker_sound_buffer) (auto simp: buf_ok_def)
  show ?thesis
  proof (cases "synced (seq t)")
    case live: True
    obtain s' c where n: "Next (seq t) d = (s', c)" by (cases "Next (seq t) d")
    show ?thesis
    proof (cases c)
      case Stale
      with n sy live Next_cases(1) [OF n] sound show ?thesis
        by (simp add: Tracker_Apply_cases(2)) (erule tracker_sound_frame [rotated -1]; simp)
    next
      case Contiguous
      note nc = Next_cases(2) [OF n Contiguous]
      show ?thesis
      proof (cases "Book_Apply (book t) (delta_Bids d) (delta_Asks d)")
        case (Inl e)
        then show ?thesis
          using n Contiguous sy live unsync [of "Invalidate s'" "stats t"]
          by (simp add: Tracker_Apply_cases(4) Invalidate_def)
      next
        case (Inr b)
        have "book_sound vb va (bidFloor t) (askCeil t) b (delta_LastID d)"
          using sound live nc contiguous_ids [OF i(2,3)]
          by (intro Book_Apply_sound [OF i(1) _ d _ _ Inr, of _ _ "last_id (seq t)"]) (auto simp: tracker_sound_def)
        with n Contiguous sy live Inr nc held show ?thesis
          by (simp add: Tracker_Apply_cases(3) tracker_sound_def)
      qed
    next
      case Gapped
      with n sy live Next_cases(3) [OF n] show ?thesis by (simp add: Tracker_Apply_cases(5) unsync)
    qed
  next
    case False
    then have "tracker_sound vb va (buffer t d)"
      by (rule tracker_sound_buffer [OF i(4) _ held d])
    with False sy show ?thesis
      by (simp add: Tracker_Apply_cases(1)) (erule tracker_sound_frame [rotated -1]; simp)
  qed
next
  case False
  with sound show ?thesis by (simp add: Tracker_Apply_wrong_symbol)
qed

lemma tracker_sound_Load:
  assumes inv: "tracker_inv t" and sound: "tracker_sound vb va t" and s: "snap_faithful vb va s"
  shows "tracker_sound vb va (fst (Load t s))"
proof (cases rule: Load_cases [of t s])
  case (refused e)
  with sound show ?thesis by (simp add: tracker_sound_def)
next
  case (accepted b)
  let ?t = "anchored t b s"
  obtain t' r where res: "replay ?t 0 (buf t) = (t', r)" by (cases "replay ?t 0 (buf t)")
  have i: "book_inv (book t)" and held: "\<forall>d\<in>set (buf t). delta_faithful vb va d"
    using inv sound by (auto simp: tracker_inv_def tracker_sound_def)
  define J where "J = (\<lambda>b' (s' :: Sequencer). book_inv b' \<and> in_i64 (last_id s')
    \<and> book_sound vb va (bidFloor ?t) (askCeil ?t) b' (last_id s'))"
  have "replayed J ?t (buf t) t' r"
  proof (rule replay_rule [where pre = "[]" and i = 0])
    show "J (book ?t) (seq ?t)"
      using anchored_sound [OF i s accepted(3)] Book_Reset_ok(1) [OF i accepted(3)] s
      by (simp add: J_def snap_faithful_def)
    show "J b' (s'\<lparr>last_id := delta_LastID d\<rparr>)"
      if d: "d \<in> set (buf t)" and J: "J b0 s'" and "last_id s' < delta_LastID d"
        "FirstID d \<le> wrap64 (last_id s' + 1)" and ok: "Book_Apply b0 (delta_Bids d) (delta_Asks d) = Inr b'"
      for b0 s' d b'
    proof -
      have df: "delta_faithful vb va d" "delta_i64 d" using held d by (auto simp: delta_faithful_def)
      have "book_sound vb va (bidFloor ?t) (askCeil ?t) b' (delta_LastID d)"
        using J contiguous_ids [OF _ df(2) that(3,4)]
        by (intro Book_Apply_sound [OF _ _ df(1) _ _ ok, of _ _ "last_id s'"]) (auto simp: J_def)
      with J df(2) Book_Apply_ok(1) [OF _ ok] show ?thesis by (simp add: J_def delta_i64_def)
    qed
  qed (use res in simp_all)
  then show ?thesis
    using held unfolding accepted(4) res
    by (auto simp: replayed_def tracker_sound_def J_def dest!: suffix_facts)
qed

abbreviation fed :: "venue_side \<Rightarrow> venue_side \<Rightarrow> Symbol \<Rightarrow> int \<Rightarrow> Tracker \<Rightarrow> bool" where
  "fed vb va \<equiv> tracker_run (delta_faithful vb va) (snap_faithful vb va)"

lemma fed_sound:
  assumes "fed vb va sy c t"
  shows "tracker_inv t \<and> tracker_sound vb va t"
  using assms
proof induction
  case run_new
  have "tracker_sound vb va (NewTracker sy c)"
    by (simp add: tracker_sound_def NewTracker_def zero_Sequencer_def)
  then show ?case by (simp add: tracker_inv_New)
next
  case (run_apply t d)
  then show ?case by (simp add: inv_pres tracker_sound_Apply delta_faithful_def)
next
  case (run_begin t)
  then show ?case by (auto simp: inv_pres) (auto simp: BeginFetch_def tracker_sound_def)
next
  case (run_failed t)
  then show ?case by (auto simp: inv_pres) (auto simp: FetchFailed_def tracker_sound_def)
next
  case (run_load t s)
  then show ?case by (simp add: inv_pres tracker_sound_Load snap_faithful_def)
qed

lemma complete_book:
  assumes "tracker_sound vb va t" and "Live t" and "bidFloor t = 0" and "askCeil t = 0"
  shows "bid_qty (book t) = vb (Tracker_LastID t)" and "ask_qty (book t) = va (Tracker_LastID t)"
  using assms
  by (auto simp: tracker_sound_def Live_iff book_sound_def side_sound_def known_bid_def known_ask_def
      Tracker_LastID_def LastID_def)

lemma same_venue_same_side:
  assumes "side_inv s" "side_inv s'" "desc s = desc s'" "qty_at (levels s) = qty_at (levels s')"
  shows "s = s'"
proof -
  have "levels s = levels s'"
    using assms by (intro ordered_levels_ext [of "desc s"]) (auto simp: side_inv_def)
  with assms(3) show ?thesis by (cases s; cases s') simp
qed

section \<open>Properties\<close>

text \<open>
  C1. Every live book is right. Take any venue and any tracker that was driven by its operations
  in any order, on any interleaving of faithful deltas (stale, overlapping, out of order or with
  ids missing) and faithful snapshots (late, old, truncated). Whenever the tracker says it is
  live, each side of its book holds, at every price inside the range the tracker claims to know,
  exactly the quantity the venue had at the update id the tracker reports, and a level held
  outside that range has the venue's quantity too: a live book can be incomplete past its
  bounds, and nowhere wrong.
\<close>

theorem live_book_is_venue_book:
  assumes "fed vb va sy c t" and "Live t"
  shows "(\<forall>p. known_bid (bidFloor t) p \<longrightarrow> bid_qty (book t) p = vb (Tracker_LastID t) p)
    \<and> (\<forall>p. bid_qty (book t) p \<noteq> 0 \<longrightarrow> bid_qty (book t) p = vb (Tracker_LastID t) p)
    \<and> (\<forall>p. known_ask (askCeil t) p \<longrightarrow> ask_qty (book t) p = va (Tracker_LastID t) p)
    \<and> (\<forall>p. ask_qty (book t) p \<noteq> 0 \<longrightarrow> ask_qty (book t) p = va (Tracker_LastID t) p)
    \<and> book_inv (book t) \<and> symbol (book t) = sy"
  using fed_sound [OF assms(1)] assms(2) tracker_run_symbol [OF assms(1)]
  by (auto simp: tracker_sound_def Live_iff book_sound_def side_sound_def Tracker_LastID_def LastID_def
      tracker_inv_def)

text \<open>
  C1 on a venue with one bid that changes at update 6: a tracker that loads a snapshot at 5 and
  then applies the delta 6 holds the new quantity.
\<close>

theorem live_book_is_venue_book_witness:
  "let vb = (\<lambda>k p. if p = 10 then if 6 \<le> k then 3 else 1 else 0); va = (\<lambda>k p. 0);
       s = zero_Snapshot\<lparr>snap_Symbol := ''A-B'', snap_LastID := 5, snap_Bids := [\<lparr>Price = 10, Qty = 1\<rparr>]\<rparr>;
       d = zero_BookDelta\<lparr>delta_Symbol := ''A-B'', FirstID := 6, delta_LastID := 6, delta_Bids := [\<lparr>Price = 10, Qty = 3\<rparr>]\<rparr>;
       t = fst (Tracker_Apply (fst (Load (NewTracker ''A-B'' 4) s)) d)
   in fed vb va ''A-B'' 4 t \<and> Live t \<and> Tracker_LastID t = 6 \<and> bid_qty (book t) 10 = 3"
proof -
  let ?vb = "\<lambda>k p. if p = 10 then if (6::int) \<le> k then 3 else 1 else (0::int)" and ?va = "\<lambda>(k::int) (p::int). 0::int"
  let ?s = "zero_Snapshot\<lparr>snap_Symbol := ''A-B'', snap_LastID := 5, snap_Bids := [\<lparr>Price = 10, Qty = 1\<rparr>]\<rparr>"
  let ?d = "zero_BookDelta\<lparr>delta_Symbol := ''A-B'', FirstID := 6, delta_LastID := 6, delta_Bids := [\<lparr>Price = 10, Qty = 3\<rparr>]\<rparr>"
  define t where "t = fst (Tracker_Apply (fst (Load (NewTracker ''A-B'' 4) ?s)) ?d)"
  have "delta_faithful ?vb ?va ?d"
    by (auto simp: delta_faithful_def levels_faithful_def delta_i64_def in_i64_def MinInt64_def MaxInt64_def
        zero_BookDelta_def)
  moreover have "snap_faithful ?vb ?va ?s"
    by (auto simp: snap_faithful_def in_i64_def MinInt64_def MaxInt64_def zero_Snapshot_def)
  ultimately have run: "fed ?vb ?va ''A-B'' 4 t"
    unfolding t_def by (intro run_apply run_load run_new)
  have live: "Live t" and k: "Tracker_LastID t = 6"
    by (simp_all add: t_def Load_def Let_def NewTracker_def New_def zero_Snapshot_def zero_BookDelta_def
        Live_iff zero_Sequencer_def Book_Reset_def sorted_levels_def SortFunc_def setBounds_def Seq_Reset_def
        Next_def wrap64_def Book_Apply_def clearBuffer_def Tracker_Apply_def NeedsResync_def LastID_def
        Tracker_LastID_def)
  have "known_bid (bidFloor t) 10"
    by (simp add: t_def Load_def Let_def NewTracker_def New_def zero_Snapshot_def zero_BookDelta_def
        Live_iff zero_Sequencer_def Book_Reset_def sorted_levels_def SortFunc_def setBounds_def Seq_Reset_def
        Next_def wrap64_def Book_Apply_def clearBuffer_def Tracker_Apply_def NeedsResync_def LastID_def
        known_bid_def)
  with live_book_is_venue_book [OF run live] have "bid_qty (book t) 10 = 3" by (simp add: k)
  with run live k show ?thesis by (simp add: Let_def t_def)
qed

lemma fed_same_book:
  assumes "fed vb va sy c t" and "fed vb va sy c' t'" and "Live t" and "Live t'"
    and "Tracker_LastID t = Tracker_LastID t'"
    and "bidFloor t = 0" "askCeil t = 0" "bidFloor t' = 0" "askCeil t' = 0"
  shows "book t = book t'"
proof -
  have s: "tracker_inv t" "tracker_sound vb va t" "tracker_inv t'" "tracker_sound vb va t'"
    using fed_sound assms(1,2) by blast+
  have i: "book_inv (book t)" "book_inv (book t')" using s by (auto simp: tracker_inv_def)
  have "bid_qty (book t) = bid_qty (book t')" "ask_qty (book t) = ask_qty (book t')"
    using complete_book [OF s(2) assms(3,6,7)] complete_book [OF s(4) assms(4,8,9)] assms(5) by simp_all
  then have "bids (book t) = bids (book t')" "asks (book t) = asks (book t')"
    using i by (auto simp: book_inv_def intro: same_venue_same_side)
  moreover have "symbol (book t) = symbol (book t')"
    using tracker_run_symbol [OF assms(1)] tracker_run_symbol [OF assms(2)] by simp
  ultimately show ?thesis by (cases "book t"; cases "book t'") simp
qed

text \<open>
  A replay converges whatever the schedule: two trackers of one symbol fed from the same
  venue, each by its own interleaving of deltas and snapshots and with its own buffer size, hold
  the same book, level for level and in the same order, as soon as both are live at the same
  update id and were anchored on complete snapshots.
\<close>

lemma same_id_same_book:
  assumes "fed vb va sy c t" and "fed vb va sy c' t'" and "Live t" and "Live t'"
    and "Tracker_LastID t = Tracker_LastID t'"
    and "bidFloor t = 0" "askCeil t = 0" "bidFloor t' = 0" "askCeil t' = 0"
  shows "book t = book t'"
  by (rule fed_same_book [OF assms])

end
