(* ===== verification/Compare.thy ===== *)
theory Compare
  imports Tracker
begin

text \<open>
  \<^verbatim>\<open>internal/book/compare.go\<close>: the comparison of a tracked book with a freshly
  fetched snapshot. \<open>compareSide\<close> is the merge of two sides sorted top first, cut at a bound;
  the positions \<open>i\<close> and \<open>j\<close> of the source are the suffixes of the two lists still to be
  merged. The lemmas give its result as a set and as a count.
\<close>

datatype Side = Bid | Ask

definition Side_String :: "Side \<Rightarrow> string" where
  "Side_String s = (case s of Bid \<Rightarrow> ''bid'' | Ask \<Rightarrow> ''ask'')"

record LevelDiff =
  diff_Side :: Side
  diff_Price :: Price_t
  Local :: Qty_t
  Remote :: Qty_t

record Diff =
  diff_Symbol :: Symbol
  diff_Live :: bool
  LocalID :: int
  SnapshotID :: int
  Compared :: int
  Levels :: "LevelDiff list"
  BidFloor :: Price_t
  AskCeil :: Price_t

definition OK :: "Diff \<Rightarrow> bool" where
  "OK d = (Levels d = [])"

definition IDSkew :: "Diff \<Rightarrow> int" where
  "IDSkew d = wrap64 (SnapshotID d - LocalID d)"

definition LevelDiff_String :: "LevelDiff \<Rightarrow> bytes" where
  "LevelDiff_String d = Side_String (diff_Side d) @ '' '' @ FormatInt (diff_Price d) @ '': local '' @ FormatInt (Local d)
     @ '', snapshot '' @ FormatInt (Remote d)"

definition Diff_String :: "Diff \<Rightarrow> bytes" where
  "Diff_String d =
    (let state = (if diff_Live d then ''live'' else ''stale'')
     in diff_Symbol d @ '': '' @ state @ '', '' @
        (if OK d then FormatInt (Compared d) @ '' levels match, skew '' @ FormatInt (IDSkew d)
         else FormatInt (int (length (Levels d))) @ '' of '' @ FormatInt (Compared d) @ '' levels diverge, skew ''
           @ FormatInt (IDSkew d) @ '', first '' @ LevelDiff_String (Levels d ! 0)))"

definition covers :: "bool \<Rightarrow> Price_t \<Rightarrow> Price_t \<Rightarrow> bool" where
  "covers ds bound p = (if bound = 0 then True else if ds then p \<ge> bound else p \<le> bound)"

definition nearer :: "bool \<Rightarrow> Price_t \<Rightarrow> Price_t \<Rightarrow> bool" where
  "nearer ds a b = (if ds then a > b else a < b)"

function compareSide ::
  "Side \<Rightarrow> bool \<Rightarrow> Level list \<Rightarrow> Level list \<Rightarrow> Price_t \<Rightarrow> LevelDiff list \<Rightarrow> nat \<Rightarrow> LevelDiff list \<times> nat" where
  "compareSide sd ds loc rem bound out n =
    (let hasL = (loc \<noteq> [] \<and> covers ds bound (Price (hd loc)));
         hasR = (rem \<noteq> [] \<and> covers ds bound (Price (hd rem)))
     in if \<not> hasL \<and> \<not> hasR then (out, n)
        else if hasL \<and> hasR \<and> Price (hd loc) = Price (hd rem)
        then compareSide sd ds (tl loc) (tl rem) bound
               (if Qty (hd loc) \<noteq> Qty (hd rem)
                then out @ [\<lparr>diff_Side = sd, diff_Price = Price (hd loc), Local = Qty (hd loc), Remote = Qty (hd rem)\<rparr>]
                else out) (n + 1)
        else if hasL \<and> (\<not> hasR \<or> nearer ds (Price (hd loc)) (Price (hd rem)))
        then compareSide sd ds (tl loc) rem bound
               (out @ [\<lparr>diff_Side = sd, diff_Price = Price (hd loc), Local = Qty (hd loc), Remote = 0\<rparr>]) (n + 1)
        else compareSide sd ds loc (tl rem) bound
               (out @ [\<lparr>diff_Side = sd, diff_Price = Price (hd rem), Local = 0, Remote = Qty (hd rem)\<rparr>]) (n + 1))"
  by pat_completeness auto
termination
  by (relation "measure (\<lambda>(sd, ds, loc, rem, bound, out, n). length loc + length rem)")
     (auto simp: length_greater_0_conv [symmetric] simp del: length_greater_0_conv)

declare compareSide.simps [simp del]

text \<open>The bounds of a comparison: the shallower of the book's and the snapshot's.\<close>

definition bid_bound :: "Tracker \<Rightarrow> bool \<Rightarrow> Level list \<Rightarrow> Price_t" where
  "bid_bound t trunc bs =
    (if trunc \<and> bs \<noteq> [] \<and> Price (last bs) > bidFloor t then Price (last bs) else bidFloor t)"

definition ask_bound :: "Tracker \<Rightarrow> bool \<Rightarrow> Level list \<Rightarrow> Price_t" where
  "ask_bound t trunc as =
    (if trunc \<and> as \<noteq> [] \<and> (askCeil t = 0 \<or> Price (last as) < askCeil t) then Price (last as) else askCeil t)"

datatype compare_error = CompareSymbol Symbol Symbol | CompareBid book_error | CompareAsk book_error

definition Tracker_Compare :: "Tracker \<Rightarrow> Snapshot \<Rightarrow> compare_error + Diff" where
  "Tracker_Compare t s =
    (if snap_Symbol s \<noteq> symbol (book t) then Inl (CompareSymbol (symbol (book t)) (snap_Symbol s))
     else case sorted_levels (bids (book t)) (snap_Bids s) of Inl e \<Rightarrow> Inl (CompareBid e)
     | Inr bs \<Rightarrow>
       (case sorted_levels (asks (book t)) (snap_Asks s) of Inl e \<Rightarrow> Inl (CompareAsk e)
        | Inr as \<Rightarrow>
           let fl = bid_bound t (Truncated s) bs;
               ceil = ask_bound t (Truncated s) as;
               (l1, n1) = compareSide Bid True (levels (bids (book t))) bs fl [] 0;
               (l2, n2) = compareSide Ask False (levels (asks (book t))) as ceil l1 0
           in Inr \<lparr>diff_Symbol = symbol (book t), diff_Live = Live t, LocalID = LastID (seq t),
                   SnapshotID = snap_LastID s, Compared = int n1 + int n2, Levels = l2,
                   BidFloor = fl, AskCeil = ceil\<rparr>))"

section \<open>The merge\<close>

definition diff_at :: "Side \<Rightarrow> Level list \<Rightarrow> Level list \<Rightarrow> Price_t \<Rightarrow> LevelDiff" where
  "diff_at sd loc rem p = \<lparr>diff_Side = sd, diff_Price = p, Local = qty_at loc p, Remote = qty_at rem p\<rparr>"

text \<open>The prices a comparison of two sides examines.\<close>

definition examined :: "bool \<Rightarrow> Price_t \<Rightarrow> Level list \<Rightarrow> Level list \<Rightarrow> Price_t set" where
  "examined ds bound loc rem = {p \<in> prices loc \<union> prices rem. covers ds bound p}"

lemma finite_examined [simp]: "finite (examined ds bound loc rem)"
  by (auto simp: examined_def prices_def)

lemma covers_rank_mono: "covers ds bound q \<Longrightarrow> rank ds p \<le> rank ds q \<Longrightarrow> covers ds bound p"
  by (auto simp: covers_def rank_def split: if_splits)

lemma uncovered_head: "ordered ds ls \<Longrightarrow> \<not> (ls \<noteq> [] \<and> covers ds bound (Price (hd ls))) \<Longrightarrow> p \<in> prices ls \<Longrightarrow> \<not> covers ds bound p"
proof (cases ls)
  case (Cons l ls')
  assume o: "ordered ds ls" and "\<not> (ls \<noteq> [] \<and> covers ds bound (Price (hd ls)))" "p \<in> prices ls"
  moreover have "rank ds (Price l) \<le> rank ds p"
    using ordered_head_nearest [OF o _ \<open>p \<in> prices ls\<close>] Cons by simp
  ultimately show ?thesis using Cons covers_rank_mono by auto
qed simp

lemma nearer_rank: "nearer ds a b \<longleftrightarrow> rank ds a < rank ds b"
  by (auto simp: nearer_def rank_def)

lemma prices_tl_rank: "ordered ds (l # ls) \<Longrightarrow> p \<in> prices ls \<Longrightarrow> rank ds (Price l) < rank ds p"
  by (auto simp: prices_def)

text \<open>What a merge of \<open>loc\<close> and \<open>rem\<close> adds to \<open>out\<close> and \<open>n\<close>.\<close>

definition merged :: "Side \<Rightarrow> bool \<Rightarrow> Level list \<Rightarrow> Level list \<Rightarrow> Price_t \<Rightarrow> LevelDiff list \<Rightarrow> nat \<Rightarrow> LevelDiff list \<times> nat \<Rightarrow> bool" where
  "merged sd ds loc rem bound out n res \<longleftrightarrow>
    (\<exists>new. res = (out @ new, n + card (examined ds bound loc rem))
       \<and> set new = diff_at sd loc rem ` {p \<in> examined ds bound loc rem. qty_at loc p \<noteq> qty_at rem p}
       \<and> sorted_wrt (\<lambda>a b. rank ds (diff_Price a) < rank ds (diff_Price b)) new)"

lemma merged_step:
  assumes E: "examined ds bound loc rem = insert p (examined ds bound loc' rem')"
    and q: "\<forall>x\<in>examined ds bound loc' rem'. rank ds p < rank ds x
        \<and> qty_at loc x = qty_at loc' x \<and> qty_at rem x = qty_at rem' x"
    and m: "merged sd ds loc' rem' bound
        (out @ (if qty_at loc p \<noteq> qty_at rem p then [diff_at sd loc rem p] else [])) (n + 1) res"
  shows "merged sd ds loc rem bound out n res"
proof -
  let ?E = "examined ds bound loc rem" and ?E' = "examined ds bound loc' rem'"
  let ?h = "if qty_at loc p \<noteq> qty_at rem p then [diff_at sd loc rem p] else []"
  obtain new where new: "res = (out @ ?h @ new, n + 1 + card ?E')"
    "set new = diff_at sd loc' rem' ` {x \<in> ?E'. qty_at loc' x \<noteq> qty_at rem' x}"
    "sorted_wrt (\<lambda>a b. rank ds (diff_Price a) < rank ds (diff_Price b)) new"
    using m by (auto simp: merged_def)
  have "p \<notin> ?E'" using q by auto
  then have card: "card ?E = 1 + card ?E'" by (simp add: E)
  have "diff_at sd loc' rem' x = diff_at sd loc rem x" if "x \<in> ?E'" for x
    using q that by (simp add: diff_at_def)
  then have set: "set new = diff_at sd loc rem ` {x \<in> ?E'. qty_at loc x \<noteq> qty_at rem x}"
    unfolding new(2) using q by (auto intro!: image_eqI)
  then have "set (?h @ new) = diff_at sd loc rem ` {x \<in> ?E. qty_at loc x \<noteq> qty_at rem x}"
    unfolding E by auto
  moreover have "sorted_wrt (\<lambda>a b. rank ds (diff_Price a) < rank ds (diff_Price b)) (?h @ new)"
    using new(3) q by (auto simp: set diff_at_def)
  ultimately show ?thesis
    unfolding merged_def using new(1) card by (intro exI [of _ "?h @ new"]) simp
qed

text \<open>One lemma per branch of the merge: the nearest price is peeled off.\<close>

lemma merged_both:
  assumes "ordered ds (l # loc)" and "ordered ds (r # rem)" and "Price l = Price r" and "covers ds bound (Price l)"
    and m: "merged sd ds loc rem bound
        (if Qty l \<noteq> Qty r then out @ [\<lparr>diff_Side = sd, diff_Price = Price l, Local = Qty l, Remote = Qty r\<rparr>] else out)
        (n + 1) res"
  shows "merged sd ds (l # loc) (r # rem) bound out n res"
proof (rule merged_step [of _ _ _ _ "Price l" loc rem])
  have "rank ds (Price l) < rank ds p" if "p \<in> prices loc \<union> prices rem" for p
    using that assms(1-3) by (auto simp: prices_def)
  then show "\<forall>x\<in>examined ds bound loc rem. rank ds (Price l) < rank ds x
      \<and> qty_at (l # loc) x = qty_at loc x \<and> qty_at (r # rem) x = qty_at rem x"
    using assms(3) by (fastforce simp: examined_def)
  show "examined ds bound (l # loc) (r # rem) = insert (Price l) (examined ds bound loc rem)"
    using assms(3,4) by (auto simp: examined_def)
  show "merged sd ds loc rem bound (out @ (if qty_at (l # loc) (Price l) \<noteq> qty_at (r # rem) (Price l)
      then [diff_at sd (l # loc) (r # rem) (Price l)] else [])) (n + 1) res"
    using m assms(3) by (simp add: diff_at_def split: if_splits)
qed

lemma merged_left:
  assumes "ordered ds (l # loc)" and "covers ds bound (Price l)" and "Qty l \<noteq> 0"
    and far: "\<forall>p\<in>prices rem. covers ds bound p \<longrightarrow> rank ds (Price l) < rank ds p"
    and m: "merged sd ds loc rem bound
        (out @ [\<lparr>diff_Side = sd, diff_Price = Price l, Local = Qty l, Remote = 0\<rparr>]) (n + 1) res"
  shows "merged sd ds (l # loc) rem bound out n res"
proof (rule merged_step [of _ _ _ _ "Price l" loc rem])
  have "Price l \<notin> prices rem" using far assms(2) by blast
  with m assms(3) show "merged sd ds loc rem bound (out @ (if qty_at (l # loc) (Price l) \<noteq> qty_at rem (Price l)
      then [diff_at sd (l # loc) rem (Price l)] else [])) (n + 1) res"
    by (simp add: diff_at_def qty_at_notin)
  show "examined ds bound (l # loc) rem = insert (Price l) (examined ds bound loc rem)"
    using assms(2) by (auto simp: examined_def)
  show "\<forall>x\<in>examined ds bound loc rem. rank ds (Price l) < rank ds x
      \<and> qty_at (l # loc) x = qty_at loc x \<and> qty_at rem x = qty_at rem x"
    using far prices_tl_rank [OF assms(1)] by (fastforce simp: examined_def)
qed

lemma merged_right:
  assumes "ordered ds (r # rem)" and "covers ds bound (Price r)" and "Qty r \<noteq> 0"
    and far: "\<forall>p\<in>prices loc. covers ds bound p \<longrightarrow> rank ds (Price r) < rank ds p"
    and m: "merged sd ds loc rem bound
        (out @ [\<lparr>diff_Side = sd, diff_Price = Price r, Local = 0, Remote = Qty r\<rparr>]) (n + 1) res"
  shows "merged sd ds loc (r # rem) bound out n res"
proof (rule merged_step [of _ _ _ _ "Price r" loc rem])
  have "Price r \<notin> prices loc" using far assms(2) by blast
  with m assms(3) show "merged sd ds loc rem bound (out @ (if qty_at loc (Price r) \<noteq> qty_at (r # rem) (Price r)
      then [diff_at sd loc (r # rem) (Price r)] else [])) (n + 1) res"
    by (simp add: diff_at_def qty_at_notin)
  show "examined ds bound loc (r # rem) = insert (Price r) (examined ds bound loc rem)"
    using assms(2) by (auto simp: examined_def)
  show "\<forall>x\<in>examined ds bound loc rem. rank ds (Price r) < rank ds x
      \<and> qty_at loc x = qty_at loc x \<and> qty_at (r # rem) x = qty_at rem x"
    using far prices_tl_rank [OF assms(1)] by (fastforce simp: examined_def)
qed

text \<open>Where the other side's head is out of range or farther away, so is the rest of it.\<close>

lemma head_far:
  assumes "ordered ds ls" and "ls \<noteq> [] \<and> covers ds bound (Price (hd ls)) \<longrightarrow> rank ds p < rank ds (Price (hd ls))"
  shows "\<forall>x\<in>prices ls. covers ds bound x \<longrightarrow> rank ds p < rank ds x"
proof (intro ballI impI)
  fix x assume x: "x \<in> prices ls" "covers ds bound x"
  then have "ls \<noteq> []" by auto
  then have near: "rank ds (Price (hd ls)) \<le> rank ds x"
    using ordered_head_nearest [OF assms(1) _ x(1)] by (simp add: hd_conv_nth)
  with x(2) have "covers ds bound (Price (hd ls))" by (rule covers_rank_mono)
  with assms(2) \<open>ls \<noteq> []\<close> near show "rank ds p < rank ds x" by fastforce
qed

lemma compareSide_merged:
  assumes "ordered ds loc" and "ordered ds rem" and "\<forall>l\<in>set loc \<union> set rem. Qty l \<noteq> 0"
  shows "merged sd ds loc rem bound out n (compareSide sd ds loc rem bound out n)"
  using assms
proof (induction sd ds loc rem bound out n rule: compareSide.induct)
  case (1 sd ds loc rem bound out n)
  define hasL hasR where "hasL = (loc \<noteq> [] \<and> covers ds bound (Price (hd loc)))"
    and "hasR = (rem \<noteq> [] \<and> covers ds bound (Price (hd rem)))"
  note IH = "1.IH" [OF hasL_def hasR_def]
  note step = compareSide.simps [of sd ds loc rem bound out n, folded hasL_def hasR_def, unfolded Let_def]
  consider (neither) "\<not> hasL" "\<not> hasR" | (both) "hasL" "hasR" "Price (hd loc) = Price (hd rem)"
    | (left) "hasL" "\<not> (hasR \<and> Price (hd loc) = Price (hd rem))" "\<not> hasR \<or> nearer ds (Price (hd loc)) (Price (hd rem))"
    | (right) "hasR" "\<not> (hasL \<and> Price (hd loc) = Price (hd rem))" "\<not> (hasL \<and> nearer ds (Price (hd loc)) (Price (hd rem)))"
    by blast
  then show ?case
  proof cases
    case neither
    then have "\<not> covers ds bound p" if "p \<in> prices loc \<union> prices rem" for p
      using that uncovered_head [OF "1.prems"(1)] uncovered_head [OF "1.prems"(2)]
      unfolding hasL_def hasR_def by blast
    then have "examined ds bound loc rem = {}" by (auto simp: examined_def)
    then show ?thesis using neither step by (simp add: merged_def)
  next
    case both
    then obtain l loc' r rem' where lr: "loc = l # loc'" "rem = r # rem'"
      by (cases loc; cases rem) (auto simp: hasL_def hasR_def)
    let ?out = "if Qty l \<noteq> Qty r
      then out @ [\<lparr>diff_Side = sd, diff_Price = Price l, Local = Qty l, Remote = Qty r\<rparr>] else out"
    have eq: "compareSide sd ds loc rem bound out n = compareSide sd ds loc' rem' bound ?out (n + 1)"
      unfolding step using both by (simp add: lr)
    have "merged sd ds loc' rem' bound ?out (n + 1) (compareSide sd ds loc' rem' bound ?out (n + 1))"
      using IH(1) both "1.prems" by (cases "Qty l = Qty r") (simp_all add: lr)
    then show ?thesis
      unfolding eq unfolding lr using both "1.prems"(1,2) by (intro merged_both) (simp_all add: lr hasL_def)
  next
    case left
    then obtain l loc' where l: "loc = l # loc'" by (cases loc) (auto simp: hasL_def)
    have far: "\<forall>p\<in>prices rem. covers ds bound p \<longrightarrow> rank ds (Price l) < rank ds p"
      using left l by (intro head_far [OF "1.prems"(2)]) (auto simp: hasR_def nearer_rank)
    show ?thesis
      unfolding l by (rule merged_left) (use left "1.prems" IH(2) step far l in \<open>auto simp: hasL_def\<close>)
  next
    case right
    then obtain r rem' where r: "rem = r # rem'" by (cases rem) (auto simp: hasR_def)
    have far: "\<forall>p\<in>prices loc. covers ds bound p \<longrightarrow> rank ds (Price r) < rank ds p"
      using right r by (intro head_far [OF "1.prems"(1)]) (auto simp: hasL_def nearer_rank order_less_le)
    show ?thesis
      unfolding r by (rule merged_right) (use right "1.prems" IH(3) step far r in \<open>auto simp: hasR_def\<close>)
  qed
qed

section \<open>Compare\<close>

lemma Tracker_Compare_Inr:
  assumes "book_inv (book t)" and "Tracker_Compare t s = Inr d"
  obtains bs as where "sorted_levels (bids (book t)) (snap_Bids s) = Inr bs"
    "sorted_levels (asks (book t)) (snap_Asks s) = Inr as" "snap_Symbol s = symbol (book t)"
    "BidFloor d = bid_bound t (Truncated s) bs" "AskCeil d = ask_bound t (Truncated s) as"
    "diff_Live d = Live t" "LocalID d = Tracker_LastID t" "SnapshotID d = snap_LastID s"
    "set (Levels d) =
       diff_at Bid (levels (bids (book t))) bs ` {p \<in> examined True (BidFloor d) (levels (bids (book t))) bs.
         bid_qty (book t) p \<noteq> qty_at bs p}
     \<union> diff_at Ask (levels (asks (book t))) as ` {p \<in> examined False (AskCeil d) (levels (asks (book t))) as.
         ask_qty (book t) p \<noteq> qty_at as p}"
    "Compared d = int (card (examined True (BidFloor d) (levels (bids (book t))) bs))
      + int (card (examined False (AskCeil d) (levels (asks (book t))) as))"
proof -
  let ?b = "levels (bids (book t))" and ?a = "levels (asks (book t))"
  obtain bs as where bs: "sorted_levels (bids (book t)) (snap_Bids s) = Inr bs"
    and as: "sorted_levels (asks (book t)) (snap_Asks s) = Inr as" and sy: "snap_Symbol s = symbol (book t)"
    using assms(2) by (auto simp: Tracker_Compare_def split: sum.splits if_splits)
  let ?fl = "bid_bound t (Truncated s) bs" and ?ceil = "ask_bound t (Truncated s) as"
  obtain l1 n1 where c1: "compareSide Bid True ?b bs ?fl [] 0 = (l1, n1)" by fastforce
  obtain l2 n2 where c2: "compareSide Ask False ?a as ?ceil l1 0 = (l2, n2)" by fastforce
  have d: "d = \<lparr>diff_Symbol = symbol (book t), diff_Live = Live t, LocalID = LastID (seq t),
      SnapshotID = snap_LastID s, Compared = int n1 + int n2, Levels = l2, BidFloor = ?fl, AskCeil = ?ceil\<rparr>"
    using assms(2) sy by (simp add: Tracker_Compare_def bs as c1 c2 Let_def)
  have i: "ordered True ?b" "ordered False ?a" "\<forall>l\<in>set ?b \<union> set ?a. Qty l \<noteq> 0"
    "desc (bids (book t))" "\<not> desc (asks (book t))"
    using assms(1) by (force simp: book_inv_def side_inv_def)+
  have m1: "merged Bid True ?b bs ?fl [] 0 (l1, n1)"
    using compareSide_merged [of True ?b bs Bid ?fl "[]" 0] i sorted_levels_Inr(1) [OF bs] sorted_levels_qty(3) [OF bs]
    by (auto simp: c1)
  have m2: "merged Ask False ?a as ?ceil l1 0 (l2, n2)"
    using compareSide_merged [of False ?a as Ask ?ceil l1 0] i sorted_levels_Inr(1) [OF as] sorted_levels_qty(3) [OF as]
    by (auto simp: c2)
  show thesis
    using m1 m2 by (intro that [OF bs as sy]) (auto simp: d Tracker_LastID_def merged_def)
qed

section \<open>Properties\<close>

text \<open>
  C25. The comparison of one side reports every divergence and nothing else: on two sides sorted
  top first with non-zero levels, the merge appends one entry for each price inside the bound at
  which the two price functions differ (an absent level counting as zero), carrying the two
  quantities, from the top of book outwards, and counts each distinct price inside the bound
  exactly once.
\<close>

theorem compareSide_exact:
  assumes "ordered ds loc" and "ordered ds rem" and "\<forall>l\<in>set loc \<union> set rem. Qty l \<noteq> 0"
  shows "\<exists>new. compareSide sd ds loc rem bound out n = (out @ new, n + card (examined ds bound loc rem))
    \<and> set new = diff_at sd loc rem ` {p \<in> examined ds bound loc rem. qty_at loc p \<noteq> qty_at rem p}
    \<and> sorted_wrt (\<lambda>a b. rank ds (diff_Price a) < rank ds (diff_Price b)) new"
  using compareSide_merged [OF assms] by (simp add: merged_def)

text \<open>C25 on two bid sides that differ at one price and agree at another.\<close>

theorem compareSide_exact_witness:
  "\<exists>new. compareSide Bid True [\<lparr>Price = 12, Qty = 1\<rparr>, \<lparr>Price = 10, Qty = 2\<rparr>] [\<lparr>Price = 10, Qty = 2\<rparr>] 0 [] 0 = (new, 2)
    \<and> diff_Price ` set new = {12}"
proof -
  let ?l = "[\<lparr>Price = 12, Qty = 1\<rparr>, \<lparr>Price = 10, Qty = 2\<rparr>]" and ?r = "[\<lparr>Price = 10, Qty = 2\<rparr>]"
  have ex: "examined True 0 ?l ?r = {10, 12}"
    by (auto simp: examined_def covers_def)
  have "ordered True ?l" "ordered True ?r" "\<forall>l\<in>set ?l \<union> set ?r. Qty l \<noteq> 0"
    by (simp_all add: rank_def)
  from compareSide_exact [OF this, of Bid 0 "[]" 0] obtain new where
    "compareSide Bid True ?l ?r 0 [] 0 = (new, 2)"
    "set new = diff_at Bid ?l ?r ` {p \<in> {10, 12}. qty_at ?l p \<noteq> qty_at ?r p}"
    by (auto simp: ex)
  moreover have "{p \<in> {10, 12}. qty_at ?l p \<noteq> qty_at ?r p} = {12}" by auto
  ultimately show ?thesis by (auto simp: diff_at_def)
qed

end
