(* ===== verification/RecordFormat.thy ===== *)
theory RecordFormat
  imports Model "HOL-Library.Sublist"
begin

text \<open>
  \<^verbatim>\<open>internal/record/format.go\<close>, \<^verbatim>\<open>writer.go\<close> and \<^verbatim>\<open>reader.go\<close>: the recording file, as the bytes
  inside the compressed stream. The compressor is a third-party package: on the writing side it is
  the parameter \<open>zw\<close>, which extends a stream by some bytes or fails; on the reading side it is the
  decompressed bytes together with how the stream ends. \<open>json.Marshal\<close> and \<open>json.Unmarshal\<close> of a
  snapshot are the parameters \<open>marshal\<close> and \<open>unmarshal\<close>.
\<close>

datatype rec_kind = KFrame | KSnapshot | KMeta | KDrop | KInvalid nat

definition kind_byte :: "rec_kind \<Rightarrow> nat" where
  "kind_byte k = (case k of KFrame \<Rightarrow> 1 | KSnapshot \<Rightarrow> 2 | KMeta \<Rightarrow> 3 | KDrop \<Rightarrow> 4 | KInvalid n \<Rightarrow> n)"

definition byte_kind :: "nat \<Rightarrow> rec_kind" where
  "byte_kind n = (if n = 1 then KFrame else if n = 2 then KSnapshot else if n = 3 then KMeta
     else if n = 4 then KDrop else KInvalid n)"

definition Kind_String :: "rec_kind \<Rightarrow> string" where
  "Kind_String k = (case k of KFrame \<Rightarrow> ''frame'' | KSnapshot \<Rightarrow> ''snapshot'' | KMeta \<Rightarrow> ''meta'' | KDrop \<Rightarrow> ''drop''
     | KInvalid n \<Rightarrow> ''invalid'')"

definition validKind :: "rec_kind \<Rightarrow> bool" where
  "validKind k = (case k of KInvalid n \<Rightarrow> False | _ \<Rightarrow> True)"

definition magic :: bytes where
  "magic = ''MSREC'' @ [CHR 0x00]"

definition formatVersion :: nat where
  "formatVersion = 1"

definition headerSize :: nat where
  "headerSize = length magic + 2"

definition recordHead :: nat where
  "recordHead = 1 + 8 + 4"

definition MaxPayloadSize :: nat where
  "MaxPayloadSize = 16777216"

text \<open>\<open>binary.LittleEndian\<close>: \<open>n\<close> bytes of a number, least significant first, and back.\<close>

fun le_bytes :: "nat \<Rightarrow> nat \<Rightarrow> bytes" where
  "le_bytes 0 v = []"
| "le_bytes (Suc n) v = char_of (v mod 256) # le_bytes n (v div 256)"

fun le_val :: "bytes \<Rightarrow> nat" where
  "le_val [] = 0"
| "le_val (c # cs) = of_char c + 256 * le_val cs"

definition u64_of_time :: "gotime \<Rightarrow> nat" where
  "u64_of_time t = nat (wrap64 t mod 18446744073709551616)"

definition time_of_u64 :: "nat \<Rightarrow> gotime" where
  "time_of_u64 n = wrap64 (int n)"

datatype rec_error =
    ErrBadMagic
  | ErrBadVersion nat
  | ErrPayloadTooBig nat
  | ErrCorruptRecord
  | ErrUnknownRecKind nat
  | EncodeSnapshot bytes
  | DecodeSnapshot bytes
  | StreamWrite
  | StreamRead bytes

section \<open>Writer\<close>

record Writer =
  w_out :: bytes
  w_n :: u64

type_synonym zwrite = "bytes \<Rightarrow> bytes \<Rightarrow> bytes option"

definition file_header :: bytes where
  "file_header = magic @ le_bytes 2 formatVersion"

definition NewWriter :: "zwrite \<Rightarrow> rec_error + Writer" where
  "NewWriter zw = (case zw [] file_header of None \<Rightarrow> Inl StreamWrite | Some out \<Rightarrow> Inr \<lparr>w_out = out, w_n = 0\<rparr>)"

definition record_head :: "rec_kind \<Rightarrow> gotime \<Rightarrow> bytes \<Rightarrow> bytes" where
  "record_head k at payload = char_of (kind_byte k) # le_bytes 8 (u64_of_time at) @ le_bytes 4 (length payload)"

definition write_record :: "zwrite \<Rightarrow> rec_kind \<Rightarrow> gotime \<Rightarrow> bytes \<Rightarrow> Writer \<Rightarrow> Writer \<times> rec_error option" where
  "write_record zw k at payload w =
    (if length payload > MaxPayloadSize then (w, Some (ErrPayloadTooBig (length payload)))
     else case zw (w_out w) (record_head k at payload) of
       None \<Rightarrow> (w, Some StreamWrite)
     | Some out \<Rightarrow>
        (case zw out payload of
           None \<Rightarrow> (w\<lparr>w_out := out\<rparr>, Some StreamWrite)
         | Some out' \<Rightarrow> (w\<lparr>w_out := out', w_n := w_n w + 1\<rparr>, None)))"

definition WriteFrame :: "zwrite \<Rightarrow> Frame \<Rightarrow> Writer \<Rightarrow> Writer \<times> rec_error option" where
  "WriteFrame zw f w = write_record zw KFrame (frame_ReceivedAt f) (Data f) w"

definition WriteMeta :: "zwrite \<Rightarrow> gotime \<Rightarrow> bytes \<Rightarrow> Writer \<Rightarrow> Writer \<times> rec_error option" where
  "WriteMeta zw at body w = write_record zw KMeta at body w"

definition WriteSnapshot ::
  "zwrite \<Rightarrow> (Snapshot \<Rightarrow> bytes + bytes) \<Rightarrow> gotime \<Rightarrow> Snapshot \<Rightarrow> Writer \<Rightarrow> Writer \<times> rec_error option" where
  "WriteSnapshot zw marshal at s w =
    (case marshal s of Inl e \<Rightarrow> (w, Some (EncodeSnapshot e)) | Inr payload \<Rightarrow> write_record zw KSnapshot at payload w)"

definition WriteDropped :: "zwrite \<Rightarrow> gotime \<Rightarrow> u64 \<Rightarrow> Writer \<Rightarrow> Writer \<times> rec_error option" where
  "WriteDropped zw at n w = write_record zw KDrop at (le_bytes 8 (unat n)) w"

section \<open>Reader\<close>

datatype stream_end = StreamEOF | StreamUnexpectedEOF | StreamFailed bytes

record Reader =
  r_buf :: bytes
  r_end :: stream_end
  r_n :: u64

record Record =
  rec_Kind :: rec_kind
  rec_ReceivedAt :: gotime
  Payload :: bytes
  rec_Snapshot :: Snapshot
  rec_Dropped :: u64

definition Record_Frame :: "Record \<Rightarrow> Frame" where
  "Record_Frame r = \<lparr>Data = Payload r, frame_ReceivedAt = rec_ReceivedAt r\<rparr>"

datatype read_error = EOF | UnexpectedEOF | ReadFailed bytes

text \<open>\<open>io.ReadFull\<close>: all \<open>k\<close> bytes, or why not; nothing at all at a clean end is \<open>io.EOF\<close>.\<close>

definition ReadFull :: "nat \<Rightarrow> Reader \<Rightarrow> read_error + bytes \<times> Reader" where
  "ReadFull k r =
    (if k \<le> length (r_buf r) then Inr (take k (r_buf r), r\<lparr>r_buf := drop k (r_buf r)\<rparr>)
     else Inl (case r_end r of
                 StreamEOF \<Rightarrow> if r_buf r = [] then EOF else UnexpectedEOF
               | StreamUnexpectedEOF \<Rightarrow> UnexpectedEOF
               | StreamFailed e \<Rightarrow> ReadFailed e))"

definition errUnexpectedEOF :: "read_error \<Rightarrow> rec_error" where
  "errUnexpectedEOF e = (case e of ReadFailed x \<Rightarrow> StreamRead x | _ \<Rightarrow> ErrCorruptRecord)"

definition NewReader :: "bytes \<Rightarrow> stream_end \<Rightarrow> rec_error + Reader" where
  "NewReader buf e =
    (case ReadFull headerSize \<lparr>r_buf = buf, r_end = e, r_n = 0\<rparr> of
       Inl err \<Rightarrow> Inl (errUnexpectedEOF err)
     | Inr (header, rd) \<Rightarrow>
        if take (length magic) header \<noteq> magic then Inl ErrBadMagic
        else let v = le_val (drop (length magic) header)
          in if v \<noteq> formatVersion then Inl (ErrBadVersion v) else Inr rd)"

definition decode_record ::
  "(bytes \<Rightarrow> bytes + Snapshot) \<Rightarrow> rec_kind \<Rightarrow> gotime \<Rightarrow> bytes \<Rightarrow> rec_error + Record" where
  "decode_record unmarshal k at payload =
    (let rec = \<lparr>rec_Kind = k, rec_ReceivedAt = at, Payload = [], rec_Snapshot = zero_Snapshot, rec_Dropped = 0\<rparr>
     in if k = KDrop
        then if length payload \<noteq> 8 then Inl ErrCorruptRecord else Inr (rec\<lparr>rec_Dropped := of_nat (le_val payload)\<rparr>)
        else if k = KSnapshot
        then case unmarshal payload of Inl e \<Rightarrow> Inl (DecodeSnapshot e) | Inr s \<Rightarrow> Inr (rec\<lparr>rec_Snapshot := s\<rparr>)
        else Inr (rec\<lparr>Payload := payload\<rparr>))"

text \<open>\<open>Inl None\<close> is \<open>io.EOF\<close>, the clean end of the file.\<close>

definition Reader_Next ::
  "(bytes \<Rightarrow> bytes + Snapshot) \<Rightarrow> Reader \<Rightarrow> Reader \<times> (rec_error option + Record)" where
  "Reader_Next unmarshal r =
    (case ReadFull recordHead r of
       Inl EOF \<Rightarrow> (r, Inl None)
     | Inl e \<Rightarrow> (r, Inl (Some (errUnexpectedEOF e)))
     | Inr (head, r') \<Rightarrow>
        let k = byte_kind (of_char (head ! 0)); len = le_val (take 4 (drop 9 head)); at = time_of_u64 (le_val (take 8 (drop 1 head)))
        in if \<not> validKind k then (r', Inl (Some (ErrUnknownRecKind (kind_byte k))))
           else if len > MaxPayloadSize then (r', Inl (Some (ErrPayloadTooBig len)))
           else case ReadFull len r' of
             Inl e \<Rightarrow> (r', Inl (Some (errUnexpectedEOF e)))
           | Inr (payload, r'') \<Rightarrow>
              (r''\<lparr>r_n := r_n r'' + 1\<rparr>,
               case decode_record unmarshal k at payload of Inl e \<Rightarrow> Inl (Some e) | Inr rec \<Rightarrow> Inr rec))"

lemma ReadFull_Inr: "ReadFull k r = Inr (b, r') \<Longrightarrow> length (r_buf r') = length (r_buf r) - k \<and> k \<le> length (r_buf r)"
  by (auto simp: ReadFull_def split: if_splits)

lemma Reader_Next_shorter:
  assumes "Reader_Next un r = (r', Inr rec)"
  shows "length (r_buf r') < length (r_buf r)"
proof -
  obtain head r1 where h: "ReadFull recordHead r = Inr (head, r1)"
    using assms by (auto simp: Reader_Next_def split: sum.splits read_error.splits)
  with assms have "length (r_buf r') \<le> length (r_buf r1)"
    by (auto simp: Reader_Next_def Let_def split: sum.splits if_splits dest!: ReadFull_Inr)
  with ReadFull_Inr [OF h] show ?thesis by (auto simp: recordHead_def)
qed

text \<open>Every record of a file, and how it ended: \<open>None\<close> is a clean end.\<close>

function read_all :: "(bytes \<Rightarrow> bytes + Snapshot) \<Rightarrow> Reader \<Rightarrow> Record list \<times> rec_error option" where
  "read_all un r =
    (case Reader_Next un r of
       (r', Inl None) \<Rightarrow> ([], None)
     | (r', Inl (Some e)) \<Rightarrow> ([], Some e)
     | (r', Inr rec) \<Rightarrow> (let (recs, e) = read_all un r' in (rec # recs, e)))"
  by pat_completeness auto
termination
  by (relation "measure (\<lambda>(un, r). length (r_buf r))") (auto dest: Reader_Next_shorter [OF sym])

declare read_all.simps [simp del]

section \<open>Little-endian numbers\<close>

lemma length_le_bytes [simp]: "length (le_bytes n v) = n"
  by (induction n arbitrary: v) simp_all

lemma le_val_le_bytes: "le_val (le_bytes n v) = v mod 256 ^ n"
proof (induction n arbitrary: v)
  case (Suc n)
  have "v mod 256 + 256 * (v div 256 mod 256 ^ n) = v mod (256 * 256 ^ n)"
    by (metis mod_mult2_eq add.commute)
  with Suc show ?case by simp
qed simp

lemma time_round_trip: "in_i64 t \<Longrightarrow> time_of_u64 (u64_of_time t) = t"
proof -
  assume t: "in_i64 t"
  have "wrap64 (t mod 18446744073709551616) = wrap64 t"
    unfolding wrap64_def by (simp only: mod_add_left_eq)
  with t show ?thesis by (simp add: time_of_u64_def u64_of_time_def wrap64_id)
qed

lemma u64_of_time_less: "u64_of_time t < 256 ^ 8"
  by (simp add: u64_of_time_def nat_less_iff)

section \<open>Items\<close>

text \<open>What a recording is asked to hold, the bytes it becomes and the record it is read back as.\<close>

datatype item = IFrame Frame | IMeta gotime bytes | ISnapshot gotime Snapshot | IDrop gotime u64

fun item_kind :: "item \<Rightarrow> rec_kind" where
  "item_kind (IFrame f) = KFrame"
| "item_kind (IMeta at b) = KMeta"
| "item_kind (ISnapshot at s) = KSnapshot"
| "item_kind (IDrop at n) = KDrop"

fun item_at :: "item \<Rightarrow> gotime" where
  "item_at (IFrame f) = frame_ReceivedAt f"
| "item_at (IMeta at b) = at"
| "item_at (ISnapshot at s) = at"
| "item_at (IDrop at n) = at"

fun item_payload :: "(Snapshot \<Rightarrow> bytes + bytes) \<Rightarrow> item \<Rightarrow> bytes" where
  "item_payload marshal (IFrame f) = Data f"
| "item_payload marshal (IMeta at b) = b"
| "item_payload marshal (ISnapshot at s) = (case marshal s of Inl e \<Rightarrow> [] | Inr p \<Rightarrow> p)"
| "item_payload marshal (IDrop at n) = le_bytes 8 (unat n)"

definition item_bytes :: "(Snapshot \<Rightarrow> bytes + bytes) \<Rightarrow> item \<Rightarrow> bytes" where
  "item_bytes marshal it = record_head (item_kind it) (item_at it) (item_payload marshal it) @ item_payload marshal it"

fun item_record :: "item \<Rightarrow> Record" where
  "item_record (IFrame f) = \<lparr>rec_Kind = KFrame, rec_ReceivedAt = frame_ReceivedAt f, Payload = Data f, rec_Snapshot = zero_Snapshot, rec_Dropped = 0\<rparr>"
| "item_record (IMeta at b) = \<lparr>rec_Kind = KMeta, rec_ReceivedAt = at, Payload = b, rec_Snapshot = zero_Snapshot, rec_Dropped = 0\<rparr>"
| "item_record (ISnapshot at s) = \<lparr>rec_Kind = KSnapshot, rec_ReceivedAt = at, Payload = [], rec_Snapshot = s, rec_Dropped = 0\<rparr>"
| "item_record (IDrop at n) = \<lparr>rec_Kind = KDrop, rec_ReceivedAt = at, Payload = [], rec_Snapshot = zero_Snapshot, rec_Dropped = n\<rparr>"

definition item_ok :: "(Snapshot \<Rightarrow> bytes + bytes) \<Rightarrow> (bytes \<Rightarrow> bytes + Snapshot) \<Rightarrow> item \<Rightarrow> bool" where
  "item_ok marshal unmarshal it \<longleftrightarrow> in_i64 (item_at it) \<and> length (item_payload marshal it) \<le> MaxPayloadSize
    \<and> (\<forall>at s. it = ISnapshot at s \<longrightarrow> (\<exists>p. marshal s = Inr p \<and> unmarshal p = Inr s))"

fun write_item :: "zwrite \<Rightarrow> (Snapshot \<Rightarrow> bytes + bytes) \<Rightarrow> item \<Rightarrow> Writer \<Rightarrow> Writer \<times> rec_error option" where
  "write_item zw marshal (IFrame f) w = WriteFrame zw f w"
| "write_item zw marshal (IMeta at b) w = WriteMeta zw at b w"
| "write_item zw marshal (ISnapshot at s) w = WriteSnapshot zw marshal at s w"
| "write_item zw marshal (IDrop at n) w = WriteDropped zw at n w"

fun write_items :: "zwrite \<Rightarrow> (Snapshot \<Rightarrow> bytes + bytes) \<Rightarrow> item list \<Rightarrow> Writer \<Rightarrow> Writer \<times> rec_error option" where
  "write_items zw marshal [] w = (w, None)"
| "write_items zw marshal (it # its) w =
    (case write_item zw marshal it w of (w', Some e) \<Rightarrow> (w', Some e) | (w', None) \<Rightarrow> write_items zw marshal its w')"

text \<open>A stream that takes every byte it is given.\<close>

definition lossless :: "zwrite \<Rightarrow> bool" where
  "lossless zw \<longleftrightarrow> (\<forall>out d. zw out d = Some (out @ d))"

lemma write_item_ok:
  assumes "lossless zw" and "item_ok marshal unmarshal it"
  shows "write_item zw marshal it w = (w\<lparr>w_out := w_out w @ item_bytes marshal it, w_n := w_n w + 1\<rparr>, None)"
  using assms
  by (cases it) (auto simp: lossless_def item_ok_def item_bytes_def write_record_def WriteFrame_def WriteMeta_def
      WriteSnapshot_def WriteDropped_def split: sum.splits)

lemma write_items_ok:
  assumes "lossless zw" and "\<forall>it\<in>set its. item_ok marshal unmarshal it"
  shows "write_items zw marshal its w =
    (w\<lparr>w_out := w_out w @ concat (map (item_bytes marshal) its), w_n := w_n w + of_nat (length its)\<rparr>, None)"
  using assms(2)
proof (induction its arbitrary: w)
  case (Cons it its)
  then show ?case using write_item_ok [OF assms(1), of marshal unmarshal it w] by (simp add: algebra_simps)
qed simp

lemma record_head_simps:
  "length (record_head k at p) = recordHead" "record_head k at p ! 0 = char_of (kind_byte k)"
  "take 8 (drop 1 (record_head k at p)) = le_bytes 8 (u64_of_time at)"
  "take 4 (drop 9 (record_head k at p)) = le_bytes 4 (length p)"
  by (simp_all add: record_head_def recordHead_def)

lemma item_head:
  assumes "item_ok marshal unmarshal it"
  shows "byte_kind (of_char (record_head (item_kind it) (item_at it) (item_payload marshal it) ! 0)) = item_kind it"
    and "validKind (item_kind it)"
    and "le_val (le_bytes 4 (length (item_payload marshal it))) = length (item_payload marshal it)"
    and "time_of_u64 (le_val (le_bytes 8 (u64_of_time (item_at it)))) = item_at it"
proof -
  show "byte_kind (of_char (record_head (item_kind it) (item_at it) (item_payload marshal it) ! 0)) = item_kind it"
    by (cases it) (simp_all add: record_head_simps kind_byte_def byte_kind_def)
  show "validKind (item_kind it)" by (cases it) (simp_all add: validKind_def)
  have "length (item_payload marshal it) < 256 ^ 4" using assms by (auto simp: item_ok_def MaxPayloadSize_def)
  then show "le_val (le_bytes 4 (length (item_payload marshal it))) = length (item_payload marshal it)"
    by (simp add: le_val_le_bytes)
  have "u64_of_time (item_at it) mod 256 ^ 8 = u64_of_time (item_at it)"
    using u64_of_time_less by (rule mod_less)
  with assms show "time_of_u64 (le_val (le_bytes 8 (u64_of_time (item_at it)))) = item_at it"
    by (simp only: le_val_le_bytes) (simp add: item_ok_def time_round_trip)
qed

lemma decode_item:
  assumes "item_ok marshal unmarshal it"
  shows "decode_record unmarshal (item_kind it) (item_at it) (item_payload marshal it) = Inr (item_record it)"
proof (cases it)
  case (IDrop at n)
  have "unat n mod 256 ^ 8 = unat n" using unat_u64_less [of n] by (intro mod_less) simp
  then have "of_nat (le_val (le_bytes 8 (unat n))) = n"
    by (simp only: le_val_le_bytes) simp
  with IDrop show ?thesis by (simp add: decode_record_def Let_def del: le_bytes.simps)
qed (use assms in \<open>auto simp: decode_record_def item_ok_def Let_def\<close>)

section \<open>Reading back\<close>

lemma Reader_Next_item:
  assumes ok: "item_ok marshal unmarshal it" and buf: "r_buf r = item_bytes marshal it @ rest"
  shows "Reader_Next unmarshal r = (r\<lparr>r_buf := rest, r_n := r_n r + 1\<rparr>, Inr (item_record it))"
proof -
  let ?p = "item_payload marshal it" and ?h = "record_head (item_kind it) (item_at it) (item_payload marshal it)"
  have head: "ReadFull recordHead r = Inr (?h, r\<lparr>r_buf := ?p @ rest\<rparr>)"
    using record_head_simps(1) [of "item_kind it" "item_at it" ?p] by (simp add: ReadFull_def buf item_bytes_def)
  have body: "ReadFull (length ?p) (r\<lparr>r_buf := ?p @ rest\<rparr>) = Inr (?p, r\<lparr>r_buf := rest\<rparr>)"
    by (simp add: ReadFull_def)
  have "length ?p \<le> MaxPayloadSize" using ok by (simp add: item_ok_def)
  then show ?thesis
    unfolding Reader_Next_def head
    by (simp only: sum.case prod.case Let_def record_head_simps(3,4) item_head [OF ok] if_False not_True_eq_False
        not_less body decode_item [OF ok] linorder_not_less) simp
qed

lemma Reader_Next_cut:
  assumes ok: "item_ok marshal unmarshal it" and buf: "r_buf r = take k (item_bytes marshal it)"
    and k: "0 < k" "k < length (item_bytes marshal it)" and e: "r_end r = StreamEOF"
  shows "\<exists>r'. Reader_Next unmarshal r = (r', Inl (Some ErrCorruptRecord))"
proof (cases "k < recordHead")
  case True
  have "length (r_buf r) < recordHead" "r_buf r \<noteq> []" using buf k True by auto
  then have "ReadFull recordHead r = Inl UnexpectedEOF" by (simp add: ReadFull_def e)
  then show ?thesis by (simp add: Reader_Next_def errUnexpectedEOF_def)
next
  case False
  let ?p = "item_payload marshal it" and ?h = "record_head (item_kind it) (item_at it) (item_payload marshal it)"
  have len: "length ?h = recordHead" by (rule record_head_simps)
  have cut: "r_buf r = ?h @ take (k - recordHead) ?p"
    using False len by (simp add: buf item_bytes_def)
  have short: "k - recordHead < length ?p" using k(2) False len by (simp add: item_bytes_def)
  have head: "ReadFull recordHead r = Inr (?h, r\<lparr>r_buf := take (k - recordHead) ?p\<rparr>)"
    using len by (simp add: ReadFull_def cut)
  have "\<exists>x. ReadFull (length ?p) (r\<lparr>r_buf := take (k - recordHead) ?p\<rparr>) = Inl x \<and> errUnexpectedEOF x = ErrCorruptRecord"
    using short by (simp add: ReadFull_def e errUnexpectedEOF_def)
  then obtain x where body: "ReadFull (length ?p) (r\<lparr>r_buf := take (k - recordHead) ?p\<rparr>) = Inl x"
    and x: "errUnexpectedEOF x = ErrCorruptRecord" by blast
  have "length ?p \<le> MaxPayloadSize" using ok by (simp add: item_ok_def)
  then show ?thesis
    unfolding Reader_Next_def head
    by (simp only: sum.case prod.case Let_def record_head_simps(3,4) item_head [OF ok] if_False not_True_eq_False
        body x linorder_not_less) simp
qed

lemma item_bytes_pos: "0 < length (item_bytes marshal it)"
  by (simp add: item_bytes_def record_head_def)

text \<open>
  A file cut after \<open>k\<close> bytes of its records reads back the records that are whole, and ends cleanly
  exactly when the cut falls between two records.
\<close>

fun whole :: "(Snapshot \<Rightarrow> bytes + bytes) \<Rightarrow> nat \<Rightarrow> item list \<Rightarrow> nat" where
  "whole marshal k [] = 0"
| "whole marshal k (it # its) =
    (if length (item_bytes marshal it) \<le> k then Suc (whole marshal (k - length (item_bytes marshal it)) its) else 0)"

lemma read_all_cut:
  assumes "\<forall>it\<in>set its. item_ok marshal unmarshal it" and "k \<le> length (concat (map (item_bytes marshal) its))"
    and "r_buf r = take k (concat (map (item_bytes marshal) its))" and "r_end r = StreamEOF"
  shows "read_all unmarshal r = (map item_record (take (whole marshal k its) its),
    if k = length (concat (map (item_bytes marshal) (take (whole marshal k its) its))) then None else Some ErrCorruptRecord)"
  using assms
proof (induction its arbitrary: k r)
  case Nil
  then have "ReadFull recordHead r = Inl EOF" by (simp add: ReadFull_def recordHead_def)
  then show ?case using Nil.prems(2) by (subst read_all.simps) (simp add: Reader_Next_def)
next
  case (Cons it its)
  let ?b = "item_bytes marshal it"
  show ?case
  proof (cases "length ?b \<le> k")
    case True
    let ?k = "k - length ?b"
    have buf: "r_buf r = ?b @ take ?k (concat (map (item_bytes marshal) its))" using Cons.prems(3) True by simp
    have nx: "Reader_Next unmarshal r = (r\<lparr>r_buf := take ?k (concat (map (item_bytes marshal) its)), r_n := r_n r + 1\<rparr>, Inr (item_record it))"
      by (rule Reader_Next_item [OF _ buf]) (use Cons.prems(1) in simp)
    have "?k \<le> length (concat (map (item_bytes marshal) its))" using Cons.prems(2) by simp
    from Cons.IH [OF _ this, of "r\<lparr>r_buf := take ?k (concat (map (item_bytes marshal) its)), r_n := r_n r + 1\<rparr>"] Cons.prems(1,4) True
    show ?thesis by (subst read_all.simps) (auto simp: nx)
  next
    case False
    then have buf: "r_buf r = take k ?b" using Cons.prems(3) by simp
    show ?thesis
    proof (cases "k = 0")
      case True
      then have "ReadFull recordHead r = Inl EOF" using buf Cons.prems(4) by (simp add: ReadFull_def recordHead_def)
      then show ?thesis using True item_bytes_pos [of marshal it] by (subst read_all.simps) (simp add: Reader_Next_def)
    next
      case k: False
      obtain r' where "Reader_Next unmarshal r = (r', Inl (Some ErrCorruptRecord))"
        using Reader_Next_cut [OF _ buf _ _ Cons.prems(4)] Cons.prems(1) False k by auto
      then show ?thesis using k False by (subst read_all.simps) simp
    qed
  qed
qed

lemma file_header_length: "length file_header = headerSize"
  by (simp add: file_header_def headerSize_def)

lemma NewReader_header:
  "NewReader (file_header @ buf) e = Inr \<lparr>r_buf = buf, r_end = e, r_n = 0\<rparr>"
proof -
  have "take (length magic) file_header = magic" "le_val (drop (length magic) file_header) = formatVersion"
    by (simp_all add: file_header_def le_val_le_bytes formatVersion_def)
  then show ?thesis using file_header_length by (simp add: NewReader_def ReadFull_def)
qed

lemma written_file:
  assumes "lossless zw" and "\<forall>it\<in>set its. item_ok marshal unmarshal it" and "NewWriter zw = Inr w0"
    and "write_items zw marshal its w0 = (w, err)"
  shows "err = None" and "w_n w = of_nat (length its)" and "w_out w = file_header @ concat (map (item_bytes marshal) its)"
proof -
  have "w0 = \<lparr>w_out = file_header, w_n = 0\<rparr>" using assms(1,3) by (auto simp: NewWriter_def lossless_def)
  with write_items_ok [OF assms(1,2), of w0] assms(4)
  show "err = None" and "w_n w = of_nat (length its)" and "w_out w = file_header @ concat (map (item_bytes marshal) its)"
    by auto
qed

lemma whole_fits:
  "whole marshal k its \<le> length its
    \<and> length (concat (map (item_bytes marshal) (take (whole marshal k its) its))) \<le> k
    \<and> (whole marshal k its < length its \<longrightarrow> k < length (concat (map (item_bytes marshal) (take (Suc (whole marshal k its)) its))))"
proof (induction its arbitrary: k)
  case (Cons it its)
  from Cons.IH [of "k - length (item_bytes marshal it)"] show ?case by auto
qed simp

lemma written_size:
  assumes "lossless zw" and "\<forall>it\<in>set its. item_ok marshal unmarshal it" and "NewWriter zw = Inr w0"
  shows "length (w_out (fst (write_items zw marshal (take j its) w0)))
    = headerSize + length (concat (map (item_bytes marshal) (take j its)))"
proof -
  obtain wj ej where wj: "write_items zw marshal (take j its) w0 = (wj, ej)" by fastforce
  have "\<forall>it\<in>set (take j its). item_ok marshal unmarshal it" using assms(2) by (meson in_set_takeD)
  from written_file(3) [OF assms(1) this assms(3) wj] show ?thesis by (simp add: wj file_header_length)
qed

lemma whole_all: "k = length (concat (map (item_bytes marshal) its)) \<Longrightarrow> whole marshal k its = length its"
  by (induction its arbitrary: k) auto

lemma read_file_cut:
  assumes "\<forall>it\<in>set its. item_ok marshal unmarshal it" and "k \<le> length (concat (map (item_bytes marshal) its))"
  shows "\<exists>r. NewReader (take (headerSize + k) (file_header @ concat (map (item_bytes marshal) its))) StreamEOF = Inr r
    \<and> read_all unmarshal r = (map item_record (take (whole marshal k its) its),
        if k = length (concat (map (item_bytes marshal) (take (whole marshal k its) its))) then None else Some ErrCorruptRecord)"
proof -
  let ?b = "concat (map (item_bytes marshal) its)"
  have "take (headerSize + k) (file_header @ ?b) = file_header @ take k ?b" by (simp add: file_header_length)
  then have "NewReader (take (headerSize + k) (file_header @ ?b)) StreamEOF = Inr \<lparr>r_buf = take k ?b, r_end = StreamEOF, r_n = 0\<rparr>"
    by (simp add: NewReader_header)
  with read_all_cut [OF assms, of "\<lparr>r_buf = take k ?b, r_end = StreamEOF, r_n = 0\<rparr>"] show ?thesis by simp
qed

section \<open>Properties\<close>

text \<open>
  C36. A recording reads back as it was written. Write any sequence of frames, metadata, snapshots and drop
  markers, each within the payload limit and the range of a timestamp, to a stream that takes them;
  then no write fails, the writer has counted them all, and reading the file gives exactly the same
  records, in order, with their nanosecond timestamps, payloads, snapshots and drop counts, and a
  clean end of file.
\<close>

theorem recording_round_trip:
  assumes "lossless zw" and "\<forall>it\<in>set its. item_ok marshal unmarshal it" and "NewWriter zw = Inr w0"
    and "write_items zw marshal its w0 = (w, err)"
  shows "err = None \<and> w_n w = of_nat (length its)
    \<and> (\<exists>r. NewReader (w_out w) StreamEOF = Inr r \<and> read_all unmarshal r = (map item_record its, None))"
proof -
  let ?b = "concat (map (item_bytes marshal) its)"
  note w = written_file [OF assms]
  have "whole marshal (length ?b) its = length its" by (rule whole_all) simp
  then show ?thesis
    using read_file_cut [OF assms(2), of "length ?b"] w by (simp add: file_header_length [symmetric])
qed

text \<open>C36 on a frame followed by a drop marker.\<close>

definition ex_items :: "item list" where
  "ex_items = [IFrame \<lparr>Data = ''{}'', frame_ReceivedAt = 7\<rparr>, IDrop 8 3]"

lemma ex_items_ok: "\<forall>it\<in>set ex_items. item_ok marshal unmarshal it"
  by (simp add: ex_items_def item_ok_def in_i64_def MinInt64_def MaxInt64_def MaxPayloadSize_def)

theorem recording_round_trip_witness:
  "\<exists>w r. write_items (\<lambda>out d. Some (out @ d)) (\<lambda>_. Inl []) ex_items \<lparr>w_out = file_header, w_n = 0\<rparr> = (w, None)
     \<and> NewReader (w_out w) StreamEOF = Inr r \<and> read_all (\<lambda>_. Inl []) r = (map item_record ex_items, None)"
proof -
  let ?zw = "\<lambda>out d. Some (out @ d)" and ?w0 = "\<lparr>w_out = file_header, w_n = 0\<rparr>"
  have l: "lossless ?zw" by (simp add: lossless_def)
  have n: "NewWriter ?zw = Inr ?w0" by (simp add: NewWriter_def)
  obtain w err where w: "write_items ?zw (\<lambda>_. Inl []) ex_items ?w0 = (w, err)" by fastforce
  from recording_round_trip [OF l ex_items_ok n w, of "\<lambda>_. Inl []"] w show ?thesis by auto
qed

text \<open>
  C37. A recording that was cut short yields its whole records. Take the first \<open>n\<close> bytes of a file that
  was written as above, as a crash or a full disk leaves it. Where \<open>n\<close> ends inside the header the file is refused
  as corrupt; otherwise exactly the records whose writing had completed within those \<open>n\<close> bytes are
  read back, in order: the first \<open>m\<close>, where the file had at most \<open>n\<close> bytes after the \<open>m\<close>-th record and
  more than \<open>n\<close> after the next one. The reading ends cleanly exactly when the cut falls between two
  records, and reports a corrupt record otherwise.
\<close>

theorem recording_truncated:
  assumes "lossless zw" and "\<forall>it\<in>set its. item_ok marshal unmarshal it" and "NewWriter zw = Inr w0"
    and "write_items zw marshal its w0 = (w, err)" and "n \<le> length (w_out w)"
  shows "let size = (\<lambda>j. length (w_out (fst (write_items zw marshal (take j its) w0)))) in
    (n < headerSize \<longrightarrow> NewReader (take n (w_out w)) StreamEOF = Inl ErrCorruptRecord)
    \<and> (headerSize \<le> n \<longrightarrow> (\<exists>r m. NewReader (take n (w_out w)) StreamEOF = Inr r
        \<and> m \<le> length its \<and> size m \<le> n \<and> (m < length its \<longrightarrow> n < size (Suc m))
        \<and> read_all unmarshal r = (map item_record (take m its), if n = size m then None else Some ErrCorruptRecord)))"
  unfolding Let_def written_size [OF assms(1-3)]
proof (intro conjI impI)
  note w = written_file [OF assms(1-4)]
  assume "n < headerSize"
  then have "ReadFull headerSize \<lparr>r_buf = take n (w_out w), r_end = StreamEOF, r_n = 0\<rparr> = Inl (if take n (w_out w) = [] then EOF else UnexpectedEOF)"
    by (simp add: ReadFull_def)
  then show "NewReader (take n (w_out w)) StreamEOF = Inl ErrCorruptRecord"
    by (simp add: NewReader_def errUnexpectedEOF_def)
next
  note w = written_file [OF assms(1-4)]
  let ?b = "\<lambda>its. concat (map (item_bytes marshal) its)"
  assume n: "headerSize \<le> n"
  define k where "k = n - headerSize"
  have k: "n = headerSize + k" "k \<le> length (?b its)" using n assms(5) w(3) by (simp_all add: k_def file_header_length)
  obtain r where r: "NewReader (take n (w_out w)) StreamEOF = Inr r"
    "read_all unmarshal r = (map item_record (take (whole marshal k its) its),
      if k = length (?b (take (whole marshal k its) its)) then None else Some ErrCorruptRecord)"
    using read_file_cut [OF assms(2) k(2)] unfolding w(3) k(1) by blast
  let ?sz = "\<lambda>j. headerSize + length (?b (take j its))"
  show "\<exists>r m. NewReader (take n (w_out w)) StreamEOF = Inr r
      \<and> m \<le> length its \<and> ?sz m \<le> n \<and> (m < length its \<longrightarrow> n < ?sz (Suc m))
      \<and> read_all unmarshal r = (map item_record (take m its), if n = ?sz m then None else Some ErrCorruptRecord)"
    using r whole_fits [of marshal k its] k(1) by (intro exI [of _ r] exI [of _ "whole marshal k its"]) simp
qed

text \<open>C37 where the last byte of the marker is missing: every record but the marker is read back.\<close>

theorem recording_truncated_witness:
  "\<exists>w r. write_items (\<lambda>out d. Some (out @ d)) (\<lambda>_. Inl []) ex_items \<lparr>w_out = file_header, w_n = 0\<rparr> = (w, None)
     \<and> NewReader (take (length (w_out w) - 1) (w_out w)) StreamEOF = Inr r
     \<and> read_all (\<lambda>_. Inl []) r = (map item_record (butlast ex_items), Some ErrCorruptRecord)"
proof -
  let ?zw = "\<lambda>out d. Some (out @ d)" and ?w0 = "\<lparr>w_out = file_header, w_n = 0\<rparr>"
  have l: "lossless ?zw" by (simp add: lossless_def)
  have n: "NewWriter ?zw = Inr ?w0" by (simp add: NewWriter_def)
  obtain w err where w: "write_items ?zw (\<lambda>_. Inl []) ex_items ?w0 = (w, err)" by fastforce
  note f = written_file [OF l ex_items_ok [of _ "\<lambda>_. Inl []"] n w]
  have big: "headerSize \<le> length (w_out w) - 1"
    unfolding f(3) using item_bytes_pos by (simp add: ex_items_def file_header_length item_bytes_def record_head_def)
  let ?sz = "\<lambda>j. headerSize + length (concat (map (item_bytes (\<lambda>_. Inl [])) (take j ex_items)))"
  from recording_truncated [OF l ex_items_ok [of _ "\<lambda>_. Inl []"] n w, of "length (w_out w) - 1"] big
  obtain r m where r: "NewReader (take (length (w_out w) - 1) (w_out w)) StreamEOF = Inr r"
    "m \<le> length ex_items" "?sz m \<le> length (w_out w) - 1" "m < length ex_items \<Longrightarrow> length (w_out w) - 1 < ?sz (Suc m)"
    "read_all (\<lambda>_. Inl []) r = (map item_record (take m ex_items), if length (w_out w) - 1 = ?sz m then None else Some ErrCorruptRecord)"
    unfolding Let_def written_size [OF l ex_items_ok [of _ "\<lambda>_. Inl []"] n] by auto
  have len: "length (w_out w) = ?sz 2" unfolding f(3) by (simp add: file_header_length ex_items_def)
  have two: "2 \<le> length (item_bytes (\<lambda>_. Inl []) (IDrop 8 3))" by (simp add: item_bytes_def record_head_def)
  have m: "m = 1"
  proof -
    consider "m = 0" | "m = 1" | "m = 2" using r(2) by (force simp: ex_items_def)
    then show ?thesis using r(3,4) len two item_bytes_pos [of "\<lambda>_. Inl []" "IDrop 8 3"] by cases (auto simp: ex_items_def)
  qed
  have "length (w_out w) - 1 \<noteq> ?sz m" unfolding m len using two by (auto simp: ex_items_def)
  then have "read_all (\<lambda>_. Inl []) r = (map item_record (butlast ex_items), Some ErrCorruptRecord)"
    unfolding r(5) m by (simp add: ex_items_def)
  with r(1) w f(1) show ?thesis by auto
qed

end
