(* ===== verification/Recorder.thy ===== *)
theory Recorder
  imports RecordFormat Queues
begin

text \<open>
  \<^verbatim>\<open>internal/record/recorder.go\<close>: the side consumer that writes hourly files. The queue drops the
  newest entry when it is full; \<open>run_entry\<close> is one turn of the writer goroutine: rotate on the hour of
  the record, write a marker for the entries lost since the last one, write the record. The file
  system is the map \<open>fs\<close> from the hour in a file's name to the content the file has once it is
  closed; opening a file can fail (\<open>can_open\<close>) and truncates it when it does not, as \<open>O_TRUNC\<close> says.
\<close>

definition DefaultQueueCap :: int where
  "DefaultQueueCap = 8192"

record rec_entry =
  e_kind :: rec_kind
  e_at :: gotime
  e_payload :: bytes
  e_snapshot :: Snapshot

record Recorder =
  rec_meta :: bytes
  rec_in :: "rec_entry list"
  rec_cap :: nat
  rec_closed :: bool
  rec_started :: bool
  rec_closeOnce :: bool
  written :: u64
  rec_dropped :: u64
  rec_files :: u64
  openErrs :: u64
  fs :: "int \<rightharpoonup> bytes"
  cur :: "(int \<times> Writer) option"
  lastDropped :: u64

datatype recorder_error = MetaRequired | MetaTooBig nat | CreateDir | RecorderStarted

definition NewRecorder :: "bool \<Rightarrow> bytes \<Rightarrow> int \<Rightarrow> (int \<rightharpoonup> bytes) \<Rightarrow> recorder_error + Recorder" where
  "NewRecorder mkdir_ok meta queueCap disk =
    (if meta = [] then Inl MetaRequired
     else if length meta > MaxPayloadSize then Inl (MetaTooBig (length meta))
     else if \<not> mkdir_ok then Inl CreateDir
     else Inr \<lparr>rec_meta = meta, rec_in = [], rec_cap = nat (if queueCap \<le> 0 then DefaultQueueCap else queueCap),
       rec_closed = False, rec_started = False, rec_closeOnce = False, written = 0, rec_dropped = 0, rec_files = 0,
       openErrs = 0, fs = disk, cur = None, lastDropped = 0\<rparr>)"

definition Recorder_Start :: "Recorder \<Rightarrow> recorder_error + Recorder" where
  "Recorder_Start r = (if rec_started r then Inl RecorderStarted else Inr (r\<lparr>rec_started := True\<rparr>))"

definition enqueue :: "Recorder \<Rightarrow> rec_entry \<Rightarrow> Recorder" where
  "enqueue r e =
    (if length (rec_in r) < rec_cap r then r\<lparr>rec_in := rec_in r @ [e]\<rparr> else r\<lparr>rec_dropped := rec_dropped r + 1\<rparr>)"

definition Recorder_Frame :: "Recorder \<Rightarrow> Frame \<Rightarrow> Recorder" where
  "Recorder_Frame r f =
    enqueue r \<lparr>e_kind = KFrame, e_at = frame_ReceivedAt f, e_payload = Data f, e_snapshot = zero_Snapshot\<rparr>"

definition Recorder_Snapshot :: "Recorder \<Rightarrow> gotime \<Rightarrow> Snapshot \<Rightarrow> Recorder" where
  "Recorder_Snapshot r at s = enqueue r \<lparr>e_kind = KSnapshot, e_at = at, e_payload = [], e_snapshot = s\<rparr>"

record RecorderStats =
  rst_Written :: u64
  rst_Dropped :: u64
  rst_Files :: u64

definition Recorder_Stats :: "Recorder \<Rightarrow> RecorderStats" where
  "Recorder_Stats r = \<lparr>rst_Written = written r, rst_Dropped = rec_dropped r, rst_Files = rec_files r\<rparr>"

definition Recorder_Close :: "Recorder \<Rightarrow> Recorder" where
  "Recorder_Close r =
    (if rec_closeOnce r then r
     else if \<not> rec_started r then r\<lparr>rec_closeOnce := True\<rparr>
     else r\<lparr>rec_closeOnce := True, rec_closed := True\<rparr>)"

text \<open>\<open>Truncate(time.Hour)\<close>, as the number of the hour; the file name is a function of it.\<close>

definition hour_ns :: int where
  "hour_ns = 3600000000000"

definition hour_of :: "gotime \<Rightarrow> int" where
  "hour_of t = t div hour_ns"

record rec_io =
  can_open :: "int \<Rightarrow> bool"
  zstd_write :: zwrite
  json_marshal :: "Snapshot \<Rightarrow> bytes + bytes"

text \<open>The open file and its writer; the file holds what the writer wrote.\<close>

definition set_writer :: "int \<Rightarrow> Writer \<Rightarrow> Recorder \<Rightarrow> Recorder" where
  "set_writer h w r = r\<lparr>cur := Some (h, w), fs := (fs r)(h \<mapsto> w_out w)\<rparr>"

definition openFile :: "rec_io \<Rightarrow> int \<Rightarrow> Recorder \<Rightarrow> Recorder \<times> bool" where
  "openFile io h r =
    (if \<not> can_open io h then (r, False)
     else case NewWriter (zstd_write io) of
       Inl e \<Rightarrow> (r\<lparr>fs := (fs r)(h \<mapsto> [])\<rparr>, False)
     | Inr w \<Rightarrow>
        (case WriteMeta (zstd_write io) (h * hour_ns) (rec_meta r) w of
           (w', Some e) \<Rightarrow> (r\<lparr>fs := (fs r)(h \<mapsto> w_out w')\<rparr>, False)
         | (w', None) \<Rightarrow> (set_writer h w' (r\<lparr>written := written r + 1, rec_files := rec_files r + 1\<rparr>), True)))"

definition write_entry :: "rec_io \<Rightarrow> rec_entry \<Rightarrow> Writer \<Rightarrow> Writer \<times> rec_error option" where
  "write_entry io e w =
    (case e_kind e of
       KFrame \<Rightarrow> WriteFrame (zstd_write io) \<lparr>Data = e_payload e, frame_ReceivedAt = e_at e\<rparr> w
     | KSnapshot \<Rightarrow> WriteSnapshot (zstd_write io) (json_marshal io) (e_at e) (e_snapshot e) w
     | k \<Rightarrow> (w, Some (ErrUnknownRecKind (kind_byte k))))"

definition report_drops :: "rec_io \<Rightarrow> rec_entry \<Rightarrow> int \<Rightarrow> Writer \<Rightarrow> Recorder \<Rightarrow> Writer \<times> Recorder" where
  "report_drops io e h w r =
    (let n = rec_dropped r
     in if n > lastDropped r
        then let w' = fst (WriteDropped (zstd_write io) (e_at e) (n - lastDropped r) w)
          in (w', set_writer h w' (r\<lparr>lastDropped := n, written := written r + 1\<rparr>))
        else (w, r))"

definition record_on :: "rec_io \<Rightarrow> rec_entry \<Rightarrow> int \<Rightarrow> Writer \<Rightarrow> Recorder \<Rightarrow> Recorder" where
  "record_on io e h w0 r0 =
    (let (w, r) = report_drops io e h w0 r0
     in case write_entry io e w of
          (w', Some err) \<Rightarrow> set_writer h w' r
        | (w', None) \<Rightarrow> set_writer h w' (r\<lparr>written := written r + 1\<rparr>))"

text \<open>Rotation: keep the open file when it covers the hour, otherwise close it and open that of the hour.\<close>

definition rotate_file :: "rec_io \<Rightarrow> int \<Rightarrow> Recorder \<Rightarrow> Recorder \<times> bool" where
  "rotate_file io h r =
    (case cur r of
       Some (hour, w) \<Rightarrow> if hour = h then (r, True) else openFile io h (r\<lparr>cur := None\<rparr>)
     | None \<Rightarrow> openFile io h r)"

definition run_entry :: "rec_io \<Rightarrow> Recorder \<Rightarrow> rec_entry \<Rightarrow> Recorder" where
  "run_entry io r e =
    (let h = hour_of (e_at e); (r', ok) = rotate_file io h r
     in case (ok, cur r') of
          (True, Some (_, w)) \<Rightarrow> record_on io e h w r'
        | _ \<Rightarrow> r'\<lparr>openErrs := openErrs r' + 1, rec_dropped := rec_dropped r' + 1\<rparr>)"

text \<open>The writer goroutine takes the head of the queue.\<close>

definition run_step :: "rec_io \<Rightarrow> Recorder \<Rightarrow> Recorder" where
  "run_step io r = (case rec_in r of [] \<Rightarrow> r | e # es \<Rightarrow> run_entry io (r\<lparr>rec_in := es\<rparr>) e)"

section \<open>The queue\<close>

interpretation recorder_queue:
  drop_newest "\<lambda>r. length (rec_in r) \<le> rec_cap r" rec_in rec_cap rec_dropped enqueue
  by unfold_locales (auto simp: enqueue_def)

section \<open>The writer on a healthy disk\<close>

definition entry_item :: "rec_entry \<Rightarrow> item" where
  "entry_item e = (if e_kind e = KFrame then IFrame \<lparr>Data = e_payload e, frame_ReceivedAt = e_at e\<rparr> else ISnapshot (e_at e) (e_snapshot e))"

definition healthy :: "rec_io \<Rightarrow> (bytes \<Rightarrow> bytes + Snapshot) \<Rightarrow> bool" where
  "healthy io unmarshal \<longleftrightarrow> (\<forall>h. can_open io h) \<and> lossless (zstd_write io)"

definition entry_ok :: "rec_io \<Rightarrow> (bytes \<Rightarrow> bytes + Snapshot) \<Rightarrow> rec_entry \<Rightarrow> bool" where
  "entry_ok io unmarshal e \<longleftrightarrow> (e_kind e = KFrame \<or> e_kind e = KSnapshot) \<and> item_ok (json_marshal io) unmarshal (entry_item e)"

text \<open>The records one entry becomes: a marker for what was lost since the last one, then itself.\<close>

definition entry_items :: "u64 \<Rightarrow> u64 \<Rightarrow> rec_entry \<Rightarrow> item list" where
  "entry_items l d e = (if d > l then [IDrop (e_at e) (d - l)] else []) @ [entry_item e]"

definition entry_hour :: "u64 \<times> rec_entry \<Rightarrow> int" where
  "entry_hour p = hour_of (e_at (snd p))"

text \<open>
  The records of a whole run, each with the hour of its file: the entries in the order the writer takes
  them, each with the value the drop counter has then.
\<close>

fun run_items :: "u64 \<Rightarrow> (u64 \<times> rec_entry) list \<Rightarrow> (int \<times> item) list" where
  "run_items l [] = []"
| "run_items l ((d, e) # des) =
    map (\<lambda>it. (hour_of (e_at e), it)) (entry_items l d e) @ run_items (if d > l then d else l) des"

definition hour_items :: "int \<Rightarrow> (u64 \<times> rec_entry) list \<Rightarrow> item list" where
  "hour_items h des = map snd (filter (\<lambda>p. fst p = h) (run_items 0 des))"

definition hour_file :: "rec_io \<Rightarrow> bytes \<Rightarrow> int \<Rightarrow> (u64 \<times> rec_entry) list \<Rightarrow> bytes" where
  "hour_file io meta h des =
    file_header @ concat (map (item_bytes (json_marshal io)) (IMeta (h * hour_ns) meta # hour_items h des))"

definition take_entry :: "rec_io \<Rightarrow> Recorder \<Rightarrow> u64 \<times> rec_entry \<Rightarrow> Recorder" where
  "take_entry io r p = run_entry io (r\<lparr>rec_dropped := fst p\<rparr>) (snd p)"

definition last_drop :: "(u64 \<times> rec_entry) list \<Rightarrow> u64" where
  "last_drop des = foldl (\<lambda>l p. if fst p > l then fst p else l) 0 des"

lemma run_items_append:
  "run_items l (xs @ ys) = run_items l xs @ run_items (foldl (\<lambda>l p. if fst p > l then fst p else l) l xs) ys"
  by (induction xs arbitrary: l) auto

lemma hour_items_snoc:
  "hour_items h (des @ [(d, e)]) =
    hour_items h des @ (if hour_of (e_at e) = h then entry_items (last_drop des) d e else [])"
  by (auto simp: hour_items_def run_items_append last_drop_def entry_items_def)

lemma hour_items_none: "h \<notin> entry_hour ` set des \<Longrightarrow> hour_items h des = []"
proof -
  have "h \<notin> entry_hour ` set des \<Longrightarrow> filter (\<lambda>p. fst p = h) (run_items l des) = []" for l
    by (induction l des rule: run_items.induct) (auto simp: entry_items_def entry_hour_def)
  then show "h \<notin> entry_hour ` set des \<Longrightarrow> hour_items h des = []" by (simp add: hour_items_def)
qed

lemma set_writer_simps [simp]:
  "cur (set_writer h w r) = Some (h, w)" "fs (set_writer h w r) = (fs r)(h \<mapsto> w_out w)"
  "lastDropped (set_writer h w r) = lastDropped r" "rec_meta (set_writer h w r) = rec_meta r"
  "rec_dropped (set_writer h w r) = rec_dropped r" "rec_files (set_writer h w r) = rec_files r"
  by (simp_all add: set_writer_def)

lemma record_on_healthy:
  assumes "healthy io un" and "entry_ok io un e"
  shows "\<exists>w'. cur (record_on io e h w r) = Some (h, w') \<and> fs (record_on io e h w r) = (fs r)(h \<mapsto> w_out w')
    \<and> w_out w' = w_out w @ concat (map (item_bytes (json_marshal io)) (entry_items (lastDropped r) (rec_dropped r) e))
    \<and> lastDropped (record_on io e h w r) = (if rec_dropped r > lastDropped r then rec_dropped r else lastDropped r)
    \<and> rec_meta (record_on io e h w r) = rec_meta r"
proof -
  let ?m = "json_marshal io" and ?zw = "zstd_write io"
  have l: "lossless ?zw" using assms(1) by (simp add: healthy_def)
  have at: "e_at e = item_at (entry_item e)" by (simp add: entry_item_def)
  then have drop_ok: "item_ok ?m un (IDrop (e_at e) n)" for n
    using assms(2) by (simp add: entry_ok_def item_ok_def MaxPayloadSize_def)
  have we: "write_entry io e v = (v\<lparr>w_out := w_out v @ item_bytes ?m (entry_item e), w_n := w_n v + 1\<rparr>, None)" for v
    using write_item_ok [OF l, of ?m un "entry_item e" v] assms(2) by (auto simp: entry_ok_def write_entry_def entry_item_def)
  have wd: "WriteDropped ?zw (e_at e) n v = (v\<lparr>w_out := w_out v @ item_bytes ?m (IDrop (e_at e) n), w_n := w_n v + 1\<rparr>, None)" for n v
    using write_item_ok [OF l drop_ok [of n], of v] by simp
  show ?thesis by (simp add: record_on_def report_drops_def we wd entry_items_def Let_def)
qed

lemma openFile_healthy:
  assumes "healthy io un" and "item_ok (json_marshal io) un (IMeta (h * hour_ns) (rec_meta r))"
  shows "\<exists>r' w'. openFile io h r = (r', True) \<and> cur r' = Some (h, w') \<and> fs r' = (fs r)(h \<mapsto> w_out w')
    \<and> w_out w' = file_header @ item_bytes (json_marshal io) (IMeta (h * hour_ns) (rec_meta r))
    \<and> lastDropped r' = lastDropped r \<and> rec_dropped r' = rec_dropped r \<and> rec_meta r' = rec_meta r"
proof -
  have l: "lossless (zstd_write io)" "can_open io h" using assms(1) by (simp_all add: healthy_def)
  have "NewWriter (zstd_write io) = Inr \<lparr>w_out = file_header, w_n = 0\<rparr>" using l(1) by (simp add: NewWriter_def lossless_def)
  moreover note write_item_ok [OF l(1) assms(2), of "\<lparr>w_out = file_header, w_n = 0\<rparr>"]
  ultimately show ?thesis using l(2) by (simp add: openFile_def)
qed

definition hours :: "(u64 \<times> rec_entry) list \<Rightarrow> int set" where
  "hours des = entry_hour ` set des"

definition run_ok :: "rec_io \<Rightarrow> bytes \<Rightarrow> (int \<rightharpoonup> bytes) \<Rightarrow> (u64 \<times> rec_entry) list \<Rightarrow> Recorder \<Rightarrow> bool" where
  "run_ok io meta disk des r \<longleftrightarrow> rec_meta r = meta \<and> lastDropped r = last_drop des
    \<and> (\<forall>h. fs r h = (if h \<in> hours des then Some (hour_file io meta h des) else disk h))
    \<and> (if des = [] then cur r = None
       else let h = entry_hour (last des) in \<exists>w. cur r = Some (h, w) \<and> w_out w = hour_file io meta h des)"

lemma hour_meta_ok:
  assumes "entry_ok io un e" and "0 \<le> e_at e" and "length meta \<le> MaxPayloadSize"
  shows "item_ok (json_marshal io) un (IMeta (hour_of (e_at e) * hour_ns) meta)"
proof -
  have at: "e_at e \<le> MaxInt64" using assms(1) by (auto simp: entry_ok_def item_ok_def entry_item_def in_i64_def split: if_splits)
  have "hour_of (e_at e) * hour_ns \<le> e_at e" "0 \<le> hour_of (e_at e) * hour_ns"
    using assms(2) by (simp_all add: hour_of_def hour_ns_def)
  with at assms(3) show ?thesis by (simp add: item_ok_def in_i64_def MinInt64_def)
qed

lemma sorted_last:
  assumes "sorted (map f xs)" and "x \<in> set xs"
  shows "f x \<le> f (last xs)"
proof -
  obtain ys z where xs: "xs = ys @ [z]" using assms(2) by (cases xs rule: rev_cases) auto
  with assms show ?thesis by (auto simp: sorted_append)
qed

text \<open>After a rotation the open file is the one of the hour and holds what was written to it so far.\<close>

lemma rotate_ok:
  assumes io: "healthy io un" and e: "entry_ok io un e" "0 \<le> e_at e" and meta: "length meta \<le> MaxPayloadSize"
    and sorted: "sorted (map entry_hour (des @ [(d, e)]))" and ok: "run_ok io meta disk des r"
    and h: "h = hour_of (e_at e)"
  shows "\<exists>r' w. rotate_file io h r = (r', True) \<and> cur r' = Some (h, w) \<and> fs r' = (fs r)(h \<mapsto> w_out w)
      \<and> w_out w = hour_file io meta h des \<and> lastDropped r' = last_drop des \<and> rec_dropped r' = rec_dropped r \<and> rec_meta r' = meta"
proof (cases "des \<noteq> [] \<and> entry_hour (last des) = h")
  case True
  then obtain w where w: "cur r = Some (h, w)" "w_out w = hour_file io meta h des"
    using ok by (auto simp: run_ok_def Let_def)
  have "h \<in> hours des"
    using True image_eqI [OF _ last_in_set [of des], of h entry_hour] by (simp add: hours_def)
  with w ok True show ?thesis by (intro exI [of _ r] exI [of _ w]) (auto simp: run_ok_def rotate_file_def)
next
  case False
  have fresh: "h \<notin> hours des"
  proof
    assume "h \<in> hours des"
    then obtain p where p: "p \<in> set des" "h = entry_hour p" by (auto simp: hours_def)
    then have "h \<le> entry_hour (last des)" and "des \<noteq> []"
      using sorted_last [of entry_hour des p] sorted by (auto simp: sorted_append)
    moreover have "entry_hour (last des) \<le> h"
      using sorted \<open>des \<noteq> []\<close> h by (auto simp: sorted_append entry_hour_def)
    ultimately show False using False by simp
  qed
  have fl: "hour_file io meta h des = file_header @ item_bytes (json_marshal io) (IMeta (h * hour_ns) meta)"
    using fresh hour_items_none [of h des] by (simp add: hour_file_def hours_def)
  have "\<exists>r0. rotate_file io h r = openFile io h r0 \<and> fs r0 = fs r \<and> lastDropped r0 = last_drop des
      \<and> rec_dropped r0 = rec_dropped r \<and> rec_meta r0 = meta"
    using ok False by (cases "des = []") (auto simp: run_ok_def rotate_file_def Let_def)
  then show ?thesis using openFile_healthy [OF io, of h] hour_meta_ok [OF e meta] fl h by metis
qed

lemma run_ok_take:
  assumes io: "healthy io un" and e: "entry_ok io un e" "0 \<le> e_at e" and meta: "length meta \<le> MaxPayloadSize"
    and sorted: "sorted (map entry_hour (des @ [(d, e)]))" and ok: "run_ok io meta disk des r"
  shows "run_ok io meta disk (des @ [(d, e)]) (take_entry io r (d, e))"
proof -
  let ?m = "json_marshal io" and ?r = "r\<lparr>rec_dropped := d\<rparr>"
  define h where "h = hour_of (e_at e)"
  have "run_ok io meta disk des ?r" using ok by (simp add: run_ok_def)
  note rot = rotate_ok [OF io e meta sorted this h_def]
  have simps: "fs ?r = fs r" "rec_dropped ?r = d" by simp_all
  obtain r' w where
    r': "rotate_file io h ?r = (r', True)" "cur r' = Some (h, w)" "fs r' = (fs r)(h \<mapsto> w_out w)"
      "w_out w = hour_file io meta h des" "lastDropped r' = last_drop des" "rec_dropped r' = d" "rec_meta r' = meta"
    using rot unfolding simps by blast
  have fl: "hour_file io meta j (des @ [(d, e)]) =
      hour_file io meta j des @ (if j = h then concat (map (item_bytes ?m) (entry_items (last_drop des) d e)) else [])" for j
    by (simp add: hour_file_def hour_items_snoc h_def)
  have t: "take_entry io r (d, e) = record_on io e h w r'"
    using r'(1,2) by (simp add: take_entry_def run_entry_def Let_def h_def)
  obtain w' where w': "cur (record_on io e h w r') = Some (h, w')" "fs (record_on io e h w r') = (fs r')(h \<mapsto> w_out w')"
    "w_out w' = w_out w @ concat (map (item_bytes ?m) (entry_items (lastDropped r') (rec_dropped r') e))"
    "lastDropped (record_on io e h w r') = (if rec_dropped r' > lastDropped r' then rec_dropped r' else lastDropped r')"
    "rec_meta (record_on io e h w r') = rec_meta r'"
    using record_on_healthy [OF io e(1), of h w r'] by blast
  have out: "w_out w' = hour_file io meta h (des @ [(d, e)])" unfolding w'(3) fl r' by simp
  have hs: "hours (des @ [(d, e)]) = insert h (hours des)" "entry_hour (last (des @ [(d, e)])) = h"
    by (auto simp: hours_def h_def entry_hour_def)
  have "fs (take_entry io r (d, e)) j = (if j \<in> hours (des @ [(d, e)]) then Some (hour_file io meta j (des @ [(d, e)])) else disk j)" for j
  proof (cases "j = h")
    case True
    then show ?thesis unfolding t w'(2) hs out by simp
  next
    case False
    then have "fs (take_entry io r (d, e)) j = fs r j" unfolding t w'(2) r'(3) by simp
    also have "\<dots> = (if j \<in> hours des then Some (hour_file io meta j des) else disk j)" using ok by (simp add: run_ok_def)
    finally show ?thesis unfolding hs fl using False by simp
  qed
  moreover have "lastDropped (take_entry io r (d, e)) = last_drop (des @ [(d, e)])"
    unfolding t w'(4) r' by (simp add: last_drop_def)
  moreover have "rec_meta (take_entry io r (d, e)) = meta" unfolding t w'(5) r' ..
  moreover have "cur (take_entry io r (d, e)) = Some (h, w')" unfolding t w'(1) ..
  moreover have "(des @ [(d, e)] = []) = False" by simp
  ultimately show ?thesis unfolding run_ok_def hs Let_def using out by (simp only: if_False) blast
qed

lemma run_ok_all:
  assumes io: "healthy io un" and meta: "length meta \<le> MaxPayloadSize" and new: "run_ok io meta disk [] r"
    and e: "\<forall>p\<in>set des. entry_ok io un (snd p) \<and> 0 \<le> e_at (snd p)" and sorted: "sorted (map entry_hour des)"
  shows "run_ok io meta disk des (foldl (take_entry io) r des)"
  using e sorted
proof (induction des rule: rev_induct)
  case (snoc p des)
  obtain d x where p: "p = (d, x)" by fastforce
  have "sorted (map entry_hour des)" using snoc.prems(2) by (simp add: sorted_append)
  with snoc.IH snoc.prems(1) have "run_ok io meta disk des (foldl (take_entry io) r des)" by simp
  from run_ok_take [OF io _ _ meta snoc.prems(2) [unfolded p] this] snoc.prems(1) show ?case by (simp add: p)
qed (use new in simp)

lemma run_items_ok:
  assumes "\<forall>p\<in>set des. entry_ok io un (snd p)"
  shows "\<forall>q\<in>set (run_items l des). item_ok (json_marshal io) un (snd q)"
  using assms
proof (induction l des rule: run_items.induct)
  case (2 l d e des)
  have "item_ok (json_marshal io) un (IDrop (e_at e) n)" for n
    using 2(2) by (auto simp: entry_ok_def item_ok_def entry_item_def MaxPayloadSize_def split: if_splits)
  with 2 show ?case by (auto simp: entry_items_def entry_ok_def)
qed simp

lemma run_items_entries:
  "map snd (filter (\<lambda>q. item_kind (snd q) \<noteq> KDrop) (run_items l des)) = map (entry_item \<circ> snd) des"
  by (induction l des rule: run_items.induct) (auto simp: entry_items_def entry_item_def)

fun drop_count :: "item \<Rightarrow> u64" where
  "drop_count (IDrop at n) = n"
| "drop_count _ = 0"

lemma run_items_drops:
  "l + sum_list (map (drop_count \<circ> snd) (run_items l des)) = foldl (\<lambda>l p. if fst p > l then fst p else l) l des"
  by (induction l des rule: run_items.induct) (auto simp: entry_items_def entry_item_def algebra_simps)

lemma run_ok_new:
  assumes "healthy io un" and "NewRecorder True meta c disk = Inr r"
    and "\<forall>p\<in>set des. entry_ok io un (snd p) \<and> 0 \<le> e_at (snd p)" and "sorted (map entry_hour des)"
  shows "run_ok io meta disk des (foldl (take_entry io) r des)"
proof (rule run_ok_all [OF assms(1) _ _ assms(3,4)])
  have r: "rec_meta r = meta" "lastDropped r = 0" "fs r = disk" "cur r = None"
    using assms(2) by (auto simp: NewRecorder_def split: if_splits)
  then show "run_ok io meta disk [] r" by (simp add: run_ok_def last_drop_def hours_def)
  show "length meta \<le> MaxPayloadSize" using assms(2) by (auto simp: NewRecorder_def split: if_splits)
qed

lemma hour_file_reads:
  assumes "length meta \<le> MaxPayloadSize" and "\<forall>p\<in>set des. entry_ok io un (snd p) \<and> 0 \<le> e_at (snd p)" and "h \<in> hours des"
  shows "\<exists>rd. NewReader (hour_file io meta h des) StreamEOF = Inr rd
      \<and> read_all un rd = (map item_record (IMeta (h * hour_ns) meta # hour_items h des), None)"
proof -
  let ?its = "IMeta (h * hour_ns) meta # hour_items h des"
  obtain p where "p \<in> set des" "h = entry_hour p" using assms(3) by (auto simp: hours_def)
  then have "item_ok (json_marshal io) un (IMeta (h * hour_ns) meta)" using hour_meta_ok [OF _ _ assms(1)] assms(2) by (simp add: entry_hour_def)
  then have ok: "\<forall>it\<in>set ?its. item_ok (json_marshal io) un it"
    using run_items_ok [of des io un 0] assms(2) by (auto simp: hour_items_def)
  let ?b = "concat (map (item_bytes (json_marshal io)) ?its)"
  have "whole (json_marshal io) (length ?b) ?its = length ?its" by (rule whole_all) simp
  with read_file_cut [OF ok, of "length ?b"] show ?thesis
    by (simp add: hour_file_def file_header_length [symmetric])
qed

lemma hour_files_read:
  assumes "healthy io un" and "NewRecorder True meta c disk = Inr r"
    and "\<forall>p\<in>set des. entry_ok io un (snd p) \<and> 0 \<le> e_at (snd p)" and "sorted (map entry_hour des)"
  shows "\<forall>h\<in>hours des. \<exists>content rd. fs (foldl (take_entry io) r des) h = Some content
        \<and> NewReader content StreamEOF = Inr rd
        \<and> read_all un rd = (map item_record (IMeta (h * hour_ns) meta # hour_items h des), None)"
proof -
  have "length meta \<le> MaxPayloadSize" using assms(2) by (auto simp: NewRecorder_def split: if_splits)
  from hour_file_reads [OF this assms(3)] run_ok_new [OF assms] show ?thesis by (simp add: run_ok_def)
qed

section \<open>Properties\<close>

text \<open>
  The queue never blocks and loses the newest: while the writer is stalled, a burst keeps the oldest
  entries up to the capacity, in order, and the counter grows by exactly the number of entries refused.
\<close>

lemma recorder_burst:
  assumes "NewRecorder True meta c disk = Inr r"
  shows "rec_in (foldl enqueue r es) = take (nat (if c \<le> 0 then DefaultQueueCap else c)) es
    \<and> rec_dropped (foldl enqueue r es) = of_nat (length es - nat (if c \<le> 0 then DefaultQueueCap else c))"
proof -
  have "rec_in r = []" "rec_dropped r = 0" "rec_cap r = nat (if c \<le> 0 then DefaultQueueCap else c)"
    using assms by (auto simp: NewRecorder_def split: if_splits)
  with recorder_queue.push_all [of r es] show ?thesis by simp
qed

text \<open>
  C38. The recording is complete and says what is missing. Let the writer take any entries, in
  non-decreasing order of their hours, on a disk that works, the drop counter having any values
  meanwhile. Then the file of every hour that has an entry reads back, with a clean end, as the metadata followed
  by exactly the records of that hour in order; the records other than markers, over all hours in the
  order written, are exactly the entries taken; and the markers add up to the last value the counter
  had, so each loss is reported once. No other file is touched.
\<close>

theorem recorder_hour_files:
  assumes "healthy io un" and "NewRecorder True meta c disk = Inr r"
    and "\<forall>p\<in>set des. entry_ok io un (snd p) \<and> 0 \<le> e_at (snd p)" and "sorted (map entry_hour des)"
  shows "(\<forall>h\<in>hours des. \<exists>content rd. fs (foldl (take_entry io) r des) h = Some content
        \<and> NewReader content StreamEOF = Inr rd
        \<and> read_all un rd = (map item_record (IMeta (h * hour_ns) meta # hour_items h des), None))
    \<and> (\<forall>h. h \<notin> hours des \<longrightarrow> fs (foldl (take_entry io) r des) h = disk h)
    \<and> map snd (filter (\<lambda>q. item_kind (snd q) \<noteq> KDrop) (run_items 0 des)) = map (entry_item \<circ> snd) des
    \<and> sum_list (map (drop_count \<circ> snd) (run_items 0 des)) = last_drop des"
  using hour_files_read [OF assms] run_ok_new [OF assms] run_items_entries [of 0 des] run_items_drops [of 0 des]
  by (simp add: run_ok_def last_drop_def)

text \<open>C38 on two frames in two hours, two entries having been lost before the second.\<close>

definition ex_io :: rec_io where
  "ex_io = \<lparr>can_open = (\<lambda>h. True), zstd_write = (\<lambda>out d. Some (out @ d)), json_marshal = (\<lambda>s. Inl [])\<rparr>"

definition ex_entry :: "gotime \<Rightarrow> rec_entry" where
  "ex_entry t = \<lparr>e_kind = KFrame, e_at = t, e_payload = ''{}'', e_snapshot = zero_Snapshot\<rparr>"

definition ex_recorder :: Recorder where
  "ex_recorder = (case NewRecorder True ''{}'' 0 Map.empty of Inr r \<Rightarrow> r)"

lemma ex_recorder_new: "NewRecorder True ''{}'' 0 Map.empty = Inr ex_recorder"
  by (simp add: ex_recorder_def NewRecorder_def MaxPayloadSize_def)

lemma ex_io_ok: "healthy ex_io un" "0 \<le> t \<Longrightarrow> t < 2 ^ 62 \<Longrightarrow> entry_ok ex_io un (ex_entry t)"
  by (simp_all add: healthy_def lossless_def ex_io_def entry_ok_def ex_entry_def entry_item_def item_ok_def
      in_i64_def MinInt64_def MaxInt64_def MaxPayloadSize_def)

theorem recorder_hour_files_witness:
  "\<exists>content rd. fs (foldl (take_entry ex_io) ex_recorder [(0, ex_entry 5), (2, ex_entry hour_ns)]) 1 = Some content
     \<and> NewReader content StreamEOF = Inr rd
     \<and> read_all (\<lambda>_. Inl []) rd = (map item_record [IMeta hour_ns ''{}'', IDrop hour_ns 2, entry_item (ex_entry hour_ns)], None)"
proof -
  let ?des = "[(0, ex_entry 5), (2, ex_entry hour_ns)]"
  have "\<forall>p\<in>set ?des. entry_ok ex_io (\<lambda>_. Inl []) (snd p) \<and> 0 \<le> e_at (snd p)"
    using ex_io_ok(2) [of 5] ex_io_ok(2) [of hour_ns] by (simp add: hour_ns_def ex_entry_def)
  moreover have "sorted (map entry_hour ?des)" by (simp add: entry_hour_def hour_of_def ex_entry_def hour_ns_def)
  ultimately have "\<forall>h\<in>hours ?des. \<exists>content rd. fs (foldl (take_entry ex_io) ex_recorder ?des) h = Some content
      \<and> NewReader content StreamEOF = Inr rd
      \<and> read_all (\<lambda>_. Inl []) rd = (map item_record (IMeta (h * hour_ns) ''{}'' # hour_items h ?des), None)"
    using recorder_hour_files [OF ex_io_ok(1) ex_recorder_new, of ?des "\<lambda>_. Inl []"] by blast
  moreover have "1 \<in> hours ?des" by (simp add: hours_def entry_hour_def hour_of_def ex_entry_def hour_ns_def)
  moreover have "hour_items 1 ?des = [IDrop hour_ns 2, entry_item (ex_entry hour_ns)]"
    by (simp add: hour_items_def entry_items_def hour_of_def ex_entry_def hour_ns_def)
  ultimately show ?thesis by force
qed

section \<open>Records that arrive late\<close>

text \<open>
  C39. The order of the hours is needed. A record whose hour is earlier than that of the open file, such as
  a frame that waited in a queue while a snapshot stamped after the turn of the hour overtook it,
  opens the file of its own hour again, and opening truncates: whatever had been written to it, and
  counted as written, is gone, and the file holds the metadata, a marker for the entries lost since the
  last one, and the late record alone.
\<close>

theorem late_record_truncates:
  assumes io: "healthy io un" and e: "entry_ok io un e" "0 \<le> e_at e" and meta: "length (rec_meta r) \<le> MaxPayloadSize"
    and cur: "cur r = Some (hour, w)" "hour \<noteq> hour_of (e_at e)"
  shows "fs (run_entry io r e) (hour_of (e_at e)) =
    Some (file_header @ item_bytes (json_marshal io) (IMeta (hour_of (e_at e) * hour_ns) (rec_meta r))
      @ concat (map (item_bytes (json_marshal io)) (entry_items (lastDropped r) (rec_dropped r) e)))"
proof -
  define h where "h = hour_of (e_at e)"
  let ?r = "r\<lparr>cur := None\<rparr>"
  have "item_ok (json_marshal io) un (IMeta (h * hour_ns) (rec_meta ?r))"
    unfolding h_def using hour_meta_ok [OF e] meta by simp
  from openFile_healthy [OF io this] obtain r' w' where r': "openFile io h ?r = (r', True)" "cur r' = Some (h, w')"
    "w_out w' = file_header @ item_bytes (json_marshal io) (IMeta (h * hour_ns) (rec_meta r))"
    "lastDropped r' = lastDropped r" "rec_dropped r' = rec_dropped r" by auto
  have "run_entry io r e = record_on io e h w' r'"
    using cur r'(1,2) by (simp add: run_entry_def rotate_file_def Let_def h_def)
  moreover obtain v :: Writer where "fs (record_on io e h w' r') = (fs r')(h \<mapsto> w_out v)"
    "w_out v = w_out w' @ concat (map (item_bytes (json_marshal io)) (entry_items (lastDropped r') (rec_dropped r') e))"
    using record_on_healthy [OF io e(1), of h w' r'] by blast
  ultimately show ?thesis unfolding h_def [symmetric] using r'(3-5) by simp
qed

text \<open>C39 where a frame of hour 0 comes after one of hour 1 and another of hour 0, which is gone.\<close>

theorem late_record_truncates_witness:
  "let r = foldl (take_entry ex_io) ex_recorder [(0, ex_entry 5), (0, ex_entry hour_ns)]
   in (\<exists>w. cur r = Some (1, w)) \<and> fs (run_entry ex_io r (ex_entry 7)) 0 =
     Some (file_header @ item_bytes (json_marshal ex_io) (IMeta 0 ''{}'')
       @ concat (map (item_bytes (json_marshal ex_io)) (entry_items (lastDropped r) (rec_dropped r) (ex_entry 7))))"
proof -
  let ?des = "[(0 :: u64, ex_entry 5), (0, ex_entry hour_ns)]"
  define r where "r = foldl (take_entry ex_io) ex_recorder ?des"
  have des: "\<forall>p\<in>set ?des. entry_ok ex_io (\<lambda>_. Inl []) (snd p) \<and> 0 \<le> e_at (snd p)" "sorted (map entry_hour ?des)"
    using ex_io_ok(2) [of 5] ex_io_ok(2) [of hour_ns] by (simp_all add: hour_ns_def ex_entry_def entry_hour_def hour_of_def)
  have "run_ok ex_io ''{}'' Map.empty ?des r"
    unfolding r_def by (rule run_ok_new [OF ex_io_ok(1) ex_recorder_new des])
  then obtain w where cur: "cur r = Some (1, w)" and meta: "rec_meta r = ''{}''"
    by (auto simp: run_ok_def Let_def entry_hour_def hour_of_def ex_entry_def hour_ns_def)
  have e: "entry_ok ex_io (\<lambda>_. Inl []) (ex_entry 7)" "0 \<le> e_at (ex_entry 7)" and h: "hour_of (e_at (ex_entry 7)) = 0"
    using ex_io_ok(2) [of 7] by (simp_all add: ex_entry_def hour_of_def hour_ns_def)
  have "length (rec_meta r) \<le> MaxPayloadSize" by (simp add: meta MaxPayloadSize_def)
  from late_record_truncates [OF ex_io_ok(1) e this cur] h meta cur show ?thesis
    unfolding r_def [symmetric] Let_def by simp
qed

end
