(* ===== verification/Shard.thy ===== *)
theory Shard
  imports Harness
begin

text \<open>
  One shard of the book stage, \<^verbatim>\<open>internal/pipeline/shard.go\<close> and the answering half of
  \<^verbatim>\<open>query.go\<close>: the goroutine that owns every book assigned to it. \<open>handle\<close> takes an event,
  \<open>complete\<close> takes a finished snapshot request, \<open>answer\<close> takes a query; a snapshot request in
  flight is an entry of \<open>inflight\<close>, one per fetch goroutine. A tracker is shared by pointer in
  the source and is reached through the map \<open>books\<close> here, so every mutation is written back
  under its key. The clock is the argument \<open>now\<close>; a histogram is the list of durations it was
  given, absent when the measurement is off. Log lines are not modelled.
\<close>

unbundle bit_operations_syntax

definition DefaultRetryDelay :: int where
  "DefaultRetryDelay = 1000000000"

text \<open>The routing hash: 64-bit FNV-1a over the bytes of the symbol.\<close>

definition fnv_step :: "u64 \<Rightarrow> char \<Rightarrow> u64" where
  "fnv_step h c = (h XOR of_char c) * 1099511628211"

definition shardIndex :: "Symbol \<Rightarrow> nat \<Rightarrow> nat" where
  "shardIndex sy n = unat (foldl fnv_step 14695981039346656037 sy mod of_nat n)"

definition eventSymbol :: "Event \<Rightarrow> Symbol option" where
  "eventSymbol ev =
    (case Kind ev of
       KindTrade \<Rightarrow> Some (trade_Symbol (ev_Trade ev))
     | KindBookDelta \<Rightarrow> Some (delta_Symbol (ev_BookDelta ev))
     | KindSnapshot \<Rightarrow> Some (snap_Symbol (ev_Snapshot ev))
     | KindOther _ \<Rightarrow> None)"

record fetchResult =
  res_symbol :: Symbol
  res_snapshot :: "bytes + Snapshot"

record shard =
  shard_id :: nat
  inq :: "Event list"
  inq_cap :: int
  inq_closed :: bool
  quit :: bool
  inflight :: "Symbol list"
  books :: "Symbol \<rightharpoonup> Tracker"
  bufferCap :: int
  retry :: int
  tickToBook :: "int list option"
  resync :: "int list option"
  fetchedAt :: "Symbol \<rightharpoonup> gotime"
  events :: u64
  applied :: u64
  discarded :: u64
  buffered :: u64
  gaps :: u64
  anchors :: u64
  refetches :: u64
  fetchFails :: u64
  shard_errors :: u64
  answered :: u64

definition time_Since :: "gotime \<Rightarrow> gotime \<Rightarrow> int" where
  "time_Since now t = max MinInt64 (min MaxInt64 (now - t))"

definition observe :: "int \<Rightarrow> int list option \<Rightarrow> int list option" where
  "observe d h = map_option (\<lambda>ds. ds @ [d]) h"

definition fetch :: "gotime \<Rightarrow> Symbol \<Rightarrow> shard \<Rightarrow> shard" where
  "fetch now k s =
    (case books s k of
       None \<Rightarrow> s
     | Some t \<Rightarrow>
        let (t', go) = BeginFetch t
        in if \<not> go then s
           else let sy = symbol (book t')
             in s\<lparr>books := (books s)(k \<mapsto> t'),
                  fetchedAt := (if fetchedAt s sy = None then (fetchedAt s)(sy \<mapsto> now) else fetchedAt s),
                  inflight := inflight s @ [sy]\<rparr>)"

definition tracker :: "gotime \<Rightarrow> Symbol \<Rightarrow> shard \<Rightarrow> shard" where
  "tracker now sy s =
    (case books s sy of
       Some t \<Rightarrow> s
     | None \<Rightarrow> fetch now sy (s\<lparr>books := (books s)(sy \<mapsto> NewTracker sy (bufferCap s))\<rparr>))"

text \<open>
  \<open>load_outcome\<close> is the \<open>switch\<close> of \<open>load\<close> on the error and the state of the book, and
  \<open>count_status\<close> the one of \<open>handle\<close> on the status of a delta: counters and measurements.
\<close>

definition load_outcome :: "gotime \<Rightarrow> Snapshot \<Rightarrow> bool \<Rightarrow> tracker_error option \<Rightarrow> shard \<Rightarrow> shard" where
  "load_outcome now snap live err s =
    (case err of
       Some (ErrSnapshotBehind _ _) \<Rightarrow> s\<lparr>discarded := discarded s + 1\<rparr>
     | Some _ \<Rightarrow> s\<lparr>shard_errors := shard_errors s + 1\<rparr>
     | None \<Rightarrow>
        if live
        then let s = s\<lparr>anchors := anchors s + 1\<rparr>
          in (case fetchedAt s (snap_Symbol snap) of
                None \<Rightarrow> s
              | Some started \<Rightarrow> s\<lparr>resync := observe (time_Since now started) (resync s),
                                 fetchedAt := (fetchedAt s)(snap_Symbol snap := None)\<rparr>)
        else s\<lparr>refetches := refetches s + 1\<rparr>)"

definition load :: "gotime \<Rightarrow> Symbol \<Rightarrow> Snapshot \<Rightarrow> shard \<Rightarrow> shard" where
  "load now k snap s =
    (case books s k of
       None \<Rightarrow> s
     | Some t \<Rightarrow>
        let (t', err) = Load t snap
        in fetch now k (load_outcome now snap (Live t') err (s\<lparr>books := (books s)(k \<mapsto> t')\<rparr>)))"

definition count_status :: "gotime \<Rightarrow> Event \<Rightarrow> tracker_error + Status \<Rightarrow> shard \<Rightarrow> shard" where
  "count_status now ev r s =
    (case r of
       Inl e \<Rightarrow> s\<lparr>shard_errors := shard_errors s + 1\<rparr>
     | Inr StatusApplied \<Rightarrow>
        s\<lparr>applied := applied s + 1,
          tickToBook := (if ExchangeTime ev \<noteq> 0
            then observe (time_Since now (ExchangeTime ev)) (tickToBook s) else tickToBook s)\<rparr>
     | Inr StatusDiscarded \<Rightarrow> s\<lparr>discarded := discarded s + 1\<rparr>
     | Inr StatusBuffered \<Rightarrow> s\<lparr>buffered := buffered s + 1\<rparr>
     | Inr StatusGapped \<Rightarrow> s\<lparr>gaps := gaps s + 1\<rparr>)"

definition handle_delta :: "gotime \<Rightarrow> Event \<Rightarrow> BookDelta \<Rightarrow> shard \<Rightarrow> shard" where
  "handle_delta now ev d s0 =
    (let s = tracker now (delta_Symbol d) s0
     in case books s (delta_Symbol d) of
          None \<Rightarrow> s
        | Some t \<Rightarrow>
           let (t', r) = Tracker_Apply t d
           in fetch now (delta_Symbol d)
                (count_status now ev r (s\<lparr>books := (books s)(delta_Symbol d \<mapsto> t')\<rparr>)))"

definition handle :: "gotime \<Rightarrow> Event \<Rightarrow> shard \<Rightarrow> shard" where
  "handle now ev s0 =
    (let s = s0\<lparr>events := events s0 + 1\<rparr>
     in case Kind ev of
          KindBookDelta \<Rightarrow> handle_delta now ev (ev_BookDelta ev) s
        | KindSnapshot \<Rightarrow>
           load now (snap_Symbol (ev_Snapshot ev)) (ev_Snapshot ev) (tracker now (snap_Symbol (ev_Snapshot ev)) s)
        | KindTrade \<Rightarrow> s
        | KindOther _ \<Rightarrow> s\<lparr>shard_errors := shard_errors s + 1\<rparr>)"

definition complete :: "gotime \<Rightarrow> fetchResult \<Rightarrow> shard \<Rightarrow> shard" where
  "complete now res s =
    (case books s (res_symbol res) of
       None \<Rightarrow> s
     | Some t \<Rightarrow>
        (case res_snapshot res of
           Inl err \<Rightarrow> fetch now (res_symbol res)
             (s\<lparr>fetchFails := fetchFails s + 1, books := (books s)(res_symbol res \<mapsto> FetchFailed t)\<rparr>)
         | Inr snap \<Rightarrow> load now (res_symbol res) snap s))"

section \<open>Queries\<close>

record BookView =
  view_Symbol :: Symbol
  view_Live :: bool
  view_LastID :: int
  view_Crossed :: bool
  view_Bids :: "Level list"
  view_Asks :: "Level list"
  view_BidDepth :: int
  view_AskDepth :: int
  view_Buffered :: int
  view_Stats :: Tracker.Stats

record query =
  q_symbol :: Symbol
  q_depth :: int
  q_check :: "Snapshot option"

datatype query_error = ErrUnknownSymbol nat Symbol | CheckFailed compare_error | ErrRouterClosed Symbol | QueryCanceled Symbol bytes

datatype reply = View BookView | Checked Diff

definition answer :: "query \<Rightarrow> shard \<Rightarrow> shard \<times> (query_error + reply)" where
  "answer q s0 =
    (let s = s0\<lparr>answered := answered s0 + 1\<rparr>
     in case books s (q_symbol q) of
          None \<Rightarrow> (s, Inl (ErrUnknownSymbol (shard_id s) (q_symbol q)))
        | Some t \<Rightarrow>
           (case q_check q of
              Some snap \<Rightarrow> (s, case Tracker_Compare t snap of Inl e \<Rightarrow> Inl (CheckFailed e) | Inr d \<Rightarrow> Inr (Checked d))
            | None \<Rightarrow>
               let b = book t
               in (s, Inr (View \<lparr>view_Symbol = q_symbol q, view_Live = Live t, view_LastID = Tracker_LastID t,
                     view_Crossed = Crossed b, view_Bids = Bids b (q_depth q), view_Asks = Asks b (q_depth q),
                     view_BidDepth = BidDepth b, view_AskDepth = AskDepth b, view_Buffered = Buffered t,
                     view_Stats = stats t\<rparr>))))"

section \<open>Routing\<close>

lemma shardIndex_less:
  assumes "0 < n" and "n < 2 ^ 63"
  shows "shardIndex sy n < n"
proof -
  have u: "unat (of_nat n :: u64) = n"
    using assms(2) by (simp add: unsigned_of_nat take_bit_nat_eq_self)
  have "unat (h mod of_nat n :: u64) < n" for h
    using assms(1) by (simp add: unat_mod u)
  then show ?thesis by (simp add: shardIndex_def)
qed

section \<open>What a tracker operation keeps\<close>

lemma fetching_Apply [simp]: "fetching (fst (Tracker_Apply t d)) = fetching t"
  by (auto simp: Tracker_Apply_def Let_def split: prod.splits Class.splits sum.splits)

lemma fetching_replay: "fetching (fst (replay t i ds)) = fetching t"
  by (induction t i ds rule: replay.induct)
     (auto simp: Let_def clearBuffer_def keepBufferFrom_def split: prod.splits Class.splits sum.splits)

lemma fetching_Load [simp]: "\<not> fetching (fst (Load t s))"
  by (cases rule: Load_cases [of t s]) (auto simp: fetching_replay anchored_def setBounds_def)

lemma NewTracker_simps [simp]: "\<not> fetching (NewTracker k c)" "symbol (book (NewTracker k c)) = k"
  by (simp_all add: NewTracker_def New_def)

lemma FetchFailed_simps [simp]:
  "book (FetchFailed t) = book t" "\<not> fetching (FetchFailed t)" "Live (FetchFailed t) = Live t"
  by (simp_all add: FetchFailed_def Live_def)

section \<open>The shard invariant\<close>

text \<open>
  For each symbol: an untracked one has no request in flight; a tracked one holds a tracker of
  that symbol, driven by what the shard was given for it; a stale book counts a request as
  outstanding, and then one is really in flight. When snapshots only come as answers
  (\<open>x\<close>: no snapshot event is routed) there is exactly one request in flight per outstanding one.
\<close>

definition in_flight :: "shard \<Rightarrow> Symbol \<Rightarrow> nat" where
  "in_flight s k = count_list (inflight s) k"

definition slot_inv ::
  "bool \<Rightarrow> (Symbol \<Rightarrow> BookDelta \<Rightarrow> bool) \<Rightarrow> (Symbol \<Rightarrow> Snapshot \<Rightarrow> bool) \<Rightarrow> shard \<Rightarrow> Symbol \<Rightarrow> bool" where
  "slot_inv x D S s k \<longleftrightarrow>
    (case books s k of
       None \<Rightarrow> in_flight s k = 0
     | Some t \<Rightarrow> tracker_run (D k) (S k) k (bufferCap s) t
         \<and> (fetching t \<longrightarrow> 0 < in_flight s k) \<and> (x \<longrightarrow> in_flight s k = of_bool (fetching t))
         \<and> (\<not> Live t \<longrightarrow> fetching t))"

text \<open>The same before the operation has asked for the snapshot it may need.\<close>

definition slot_ready ::
  "bool \<Rightarrow> (Symbol \<Rightarrow> BookDelta \<Rightarrow> bool) \<Rightarrow> (Symbol \<Rightarrow> Snapshot \<Rightarrow> bool) \<Rightarrow> shard \<Rightarrow> Symbol \<Rightarrow> bool" where
  "slot_ready x D S s k \<longleftrightarrow>
    (\<exists>t. books s k = Some t \<and> tracker_run (D k) (S k) k (bufferCap s) t
       \<and> (fetching t \<longrightarrow> 0 < in_flight s k) \<and> (x \<longrightarrow> in_flight s k = of_bool (fetching t)))"

definition shard_inv ::
  "bool \<Rightarrow> (Symbol \<Rightarrow> BookDelta \<Rightarrow> bool) \<Rightarrow> (Symbol \<Rightarrow> Snapshot \<Rightarrow> bool) \<Rightarrow> shard \<Rightarrow> bool" where
  "shard_inv x D S s \<longleftrightarrow> (\<forall>k. slot_inv x D S s k)"

definition event_ok ::
  "bool \<Rightarrow> (Symbol \<Rightarrow> BookDelta \<Rightarrow> bool) \<Rightarrow> (Symbol \<Rightarrow> Snapshot \<Rightarrow> bool) \<Rightarrow> Event \<Rightarrow> bool" where
  "event_ok x D S ev \<longleftrightarrow>
    (Kind ev = KindBookDelta \<longrightarrow> D (delta_Symbol (ev_BookDelta ev)) (ev_BookDelta ev))
    \<and> (Kind ev = KindSnapshot \<longrightarrow> \<not> x \<and> S (snap_Symbol (ev_Snapshot ev)) (ev_Snapshot ev))"

text \<open>Nothing but the slot of \<open>k\<close> changes.\<close>

definition only_slot :: "Symbol \<Rightarrow> shard \<Rightarrow> shard \<Rightarrow> bool" where
  "only_slot k s s' \<longleftrightarrow> bufferCap s' = bufferCap s
    \<and> (\<forall>j. j \<noteq> k \<longrightarrow> books s' j = books s j \<and> in_flight s' j = in_flight s j)"

lemma only_slot_refl [simp]: "only_slot k s s"
  by (simp add: only_slot_def)

lemma only_slot_trans: "only_slot k s s' \<Longrightarrow> only_slot k s' s'' \<Longrightarrow> only_slot k s s''"
  by (simp add: only_slot_def)

lemma slot_inv_cong:
  "books s' k = books s k \<Longrightarrow> in_flight s' k = in_flight s k \<Longrightarrow> bufferCap s' = bufferCap s \<Longrightarrow>
   slot_inv x D S s' k = slot_inv x D S s k"
  by (simp only: slot_inv_def)

lemma shard_inv_only_slot:
  assumes "shard_inv x D S s" and "only_slot k s s'" and "slot_inv x D S s' k"
  shows "shard_inv x D S s'"
proof -
  have "slot_inv x D S s' j" for j
    using assms slot_inv_cong [of s' j s] by (cases "j = k") (auto simp: shard_inv_def only_slot_def)
  then show ?thesis by (simp add: shard_inv_def)
qed

lemma slot_inv_ready: "slot_inv x D S s k \<Longrightarrow> books s k = Some t \<Longrightarrow> slot_ready x D S s k"
  by (simp add: slot_inv_def slot_ready_def)

lemma fetch_slot:
  assumes "slot_ready x D S s k"
  shows "slot_inv x D S (fetch now k s) k" and "only_slot k s (fetch now k s)"
    and "\<exists>t. books (fetch now k s) k = Some t"
proof -
  obtain t where t: "books s k = Some t" "tracker_run (D k) (S k) k (bufferCap s) t"
    "fetching t \<longrightarrow> 0 < in_flight s k" "x \<longrightarrow> in_flight s k = of_bool (fetching t)"
    using assms by (auto simp: slot_ready_def)
  have sy: "symbol (book t) = k" by (rule tracker_run_symbol [OF t(2)])
  have run: "tracker_run (D k) (S k) k (bufferCap s) (t\<lparr>fetching := True\<rparr>)" if "snd (BeginFetch t)"
    using run_begin [OF t(2)] that by (simp add: BeginFetch_def split: if_splits)
  show "slot_inv x D S (fetch now k s) k" and "only_slot k s (fetch now k s)"
    and "\<exists>t. books (fetch now k s) k = Some t"
    using t sy run
    by (auto simp: fetch_def BeginFetch_def slot_inv_def only_slot_def in_flight_def Live_def Let_def)
qed

lemma tracker_slot:
  assumes "slot_inv x D S s k"
  shows "slot_inv x D S (tracker now k s) k" and "only_slot k s (tracker now k s)"
    and "\<exists>t. books (tracker now k s) k = Some t"
proof -
  have "slot_inv x D S (tracker now k s) k \<and> only_slot k s (tracker now k s) \<and> (\<exists>t. books (tracker now k s) k = Some t)"
  proof (cases "books s k")
    case None
    let ?s = "s\<lparr>books := (books s)(k \<mapsto> NewTracker k (bufferCap s))\<rparr>"
    have "slot_ready x D S ?s k"
      using assms None by (auto simp: slot_inv_def slot_ready_def run_new in_flight_def)
    note f = fetch_slot [OF this, of now]
    have "only_slot k s ?s" by (simp add: only_slot_def in_flight_def)
    with f None show ?thesis by (auto simp: tracker_def intro: only_slot_trans)
  next
    case (Some t)
    with assms show ?thesis by (simp add: tracker_def)
  qed
  then show "slot_inv x D S (tracker now k s) k" and "only_slot k s (tracker now k s)"
    and "\<exists>t. books (tracker now k s) k = Some t" by auto
qed

lemma load_outcome_frame [simp]:
  "books (load_outcome now snap l err s) = books s" "inflight (load_outcome now snap l err s) = inflight s"
  "bufferCap (load_outcome now snap l err s) = bufferCap s"
  by (simp_all add: load_outcome_def Let_def split: option.split tracker_error.split)

lemma count_status_frame [simp]:
  "books (count_status now ev r s) = books s" "inflight (count_status now ev r s) = inflight s"
  "bufferCap (count_status now ev r s) = bufferCap s"
  by (simp_all add: count_status_def split: sum.split Status.split)

text \<open>A step that replaces one tracker by a later one of the same run, then asks if needed.\<close>

lemma update_fetch_slot:
  assumes "tracker_run (D k) (S k) k (bufferCap s) t'"
    and "fetching t' \<longrightarrow> 0 < in_flight s k" and "x \<longrightarrow> in_flight s k = of_bool (fetching t')"
    and "books s' = (books s)(k \<mapsto> t')" and "inflight s' = inflight s" and "bufferCap s' = bufferCap s"
  shows "slot_inv x D S (fetch now k s') k \<and> only_slot k s (fetch now k s')"
proof -
  have "slot_ready x D S s' k"
    using assms by (simp add: slot_ready_def in_flight_def)
  note f = fetch_slot [OF this, of now]
  have "only_slot k s s'" using assms by (simp add: only_slot_def in_flight_def)
  with f show ?thesis by (auto intro: only_slot_trans)
qed

lemma load_slot:
  assumes "books s k = Some t" and "tracker_run (D k) (S k) k (bufferCap s) t" and "S k snap"
    and "x \<longrightarrow> in_flight s k = 0"
  shows "slot_inv x D S (load now k snap s) k \<and> only_slot k s (load now k snap s)"
proof -
  obtain t' err where l: "Load t snap = (t', err)" by (cases "Load t snap")
  then have t': "\<not> fetching t'" "tracker_run (D k) (S k) k (bufferCap s) t'"
    using fetching_Load [of t snap] run_load [OF assms(2,3)] by simp_all
  show ?thesis
    using assms(1,4) t'
      update_fetch_slot [of D k S s t' x "load_outcome now snap (Live t') err (s\<lparr>books := (books s)(k \<mapsto> t')\<rparr>)" now]
    by (simp add: load_def l)
qed

lemma handle_delta_slot:
  assumes "slot_inv x D S s (delta_Symbol d)" and "D (delta_Symbol d) d"
  shows "slot_inv x D S (handle_delta now ev d s) (delta_Symbol d)
    \<and> only_slot (delta_Symbol d) s (handle_delta now ev d s)"
proof -
  let ?k = "delta_Symbol d" and ?s = "tracker now (delta_Symbol d) s"
  note tr = tracker_slot [OF assms(1), of now]
  obtain t where t: "books ?s ?k = Some t" using tr(3) by blast
  then have run: "tracker_run (D ?k) (S ?k) ?k (bufferCap ?s) t"
    "fetching t \<longrightarrow> 0 < in_flight ?s ?k" "x \<longrightarrow> in_flight ?s ?k = of_bool (fetching t)"
    using tr(1) by (simp_all add: slot_inv_def)
  obtain t' r where a: "Tracker_Apply t d = (t', r)" by (cases "Tracker_Apply t d")
  have "slot_inv x D S (handle_delta now ev d s) ?k \<and> only_slot ?k ?s (handle_delta now ev d s)"
    using run run_apply [OF run(1), of d] assms(2) fetching_Apply [of t d] t
      update_fetch_slot [of D ?k S ?s t' x "count_status now ev r (?s\<lparr>books := (books ?s)(?k \<mapsto> t')\<rparr>)" now]
    by (simp add: handle_delta_def Let_def a)
  with tr(2) show ?thesis by (auto intro: only_slot_trans)
qed

lemma shard_inv_frame:
  assumes "shard_inv x D S s" and "books s' = books s" and "inflight s' = inflight s" and "bufferCap s' = bufferCap s"
  shows "shard_inv x D S s'"
  using assms slot_inv_cong [of s' _ s] by (simp add: shard_inv_def in_flight_def)

lemma shard_inv_handle [inv_pres]:
  assumes "shard_inv x D S s" and "event_ok x D S ev"
  shows "shard_inv x D S (handle now ev s)"
proof -
  let ?s = "s\<lparr>events := events s + 1\<rparr>"
  have inv: "shard_inv x D S ?s" by (rule shard_inv_frame [OF assms(1)]) simp_all
  show ?thesis
  proof (cases "Kind ev")
    case KindBookDelta
    then show ?thesis
      using handle_delta_slot [of x D S ?s "ev_BookDelta ev" now ev] inv assms(2)
      by (auto simp: handle_def event_ok_def shard_inv_def [of _ _ _ ?s] intro: shard_inv_only_slot [OF inv])
  next
    case KindSnapshot
    let ?k = "snap_Symbol (ev_Snapshot ev)" and ?s' = "tracker now (snap_Symbol (ev_Snapshot ev)) ?s"
    have S: "S ?k (ev_Snapshot ev)" "\<not> x" using assms(2) KindSnapshot by (auto simp: event_ok_def)
    have "slot_inv x D S ?s ?k" using inv by (simp add: shard_inv_def)
    note tr = tracker_slot [OF this, of now]
    then obtain t where t: "books ?s' ?k = Some t" "tracker_run (D ?k) (S ?k) ?k (bufferCap ?s') t"
      by (auto simp: slot_inv_def)
    have l: "slot_inv x D S (load now ?k (ev_Snapshot ev) ?s') ?k" "only_slot ?k ?s' (load now ?k (ev_Snapshot ev) ?s')"
      using load_slot [where D = D and S = S and k = ?k and x = x, OF t S(1), of now] S(2) by auto
    show ?thesis
      using shard_inv_only_slot [OF inv only_slot_trans [OF tr(2) l(2)] l(1)] KindSnapshot by (simp add: handle_def)
  next
    case KindTrade
    with inv show ?thesis by (simp add: handle_def)
  next
    case (KindOther n)
    show ?thesis by (rule shard_inv_frame [OF assms(1)]) (simp_all add: handle_def KindOther)
  qed
qed

text \<open>A fetch goroutine hands its result over: it is no longer in flight, then \<open>complete\<close> runs.\<close>

definition deliver :: "gotime \<Rightarrow> fetchResult \<Rightarrow> shard \<Rightarrow> shard" where
  "deliver now res s = complete now res (s\<lparr>inflight := remove1 (res_symbol res) (inflight s)\<rparr>)"

lemma count_list_remove1: "count_list (remove1 a xs) b = count_list xs b - of_bool (b = a)"
  by (induction xs) auto

lemma shard_inv_deliver [inv_pres]:
  assumes inv: "shard_inv x D S s" and fl: "res_symbol res \<in> set (inflight s)"
    and S: "\<And>snap. res_snapshot res = Inr snap \<Longrightarrow> S (res_symbol res) snap"
  shows "shard_inv x D S (deliver now res s)"
proof -
  let ?k = "res_symbol res"
  let ?s = "s\<lparr>inflight := remove1 ?k (inflight s)\<rparr>"
  have n: "in_flight s ?k \<noteq> 0" using fl by (simp add: in_flight_def count_list_0_iff)
  have n': "in_flight ?s j = in_flight s j - of_bool (j = ?k)" for j
    by (simp add: in_flight_def count_list_remove1)
  have slot: "slot_inv x D S s ?k" using inv by (simp add: shard_inv_def)
  with n obtain t where t: "books s ?k = Some t" "tracker_run (D ?k) (S ?k) ?k (bufferCap s) t"
    "x \<longrightarrow> in_flight s ?k = of_bool (fetching t)"
    by (auto simp: slot_inv_def split: option.splits)
  then have x: "x \<longrightarrow> in_flight ?s ?k = 0" by (simp add: n')
  have only: "only_slot ?k s ?s" by (simp add: only_slot_def n')
  have "slot_inv x D S (deliver now res s) ?k \<and> only_slot ?k ?s (deliver now res s)"
  proof (cases "res_snapshot res")
    case (Inl e)
    have "slot_inv x D S (fetch now ?k (?s\<lparr>fetchFails := fetchFails ?s + 1, books := (books ?s)(?k \<mapsto> FetchFailed t)\<rparr>)) ?k
      \<and> only_slot ?k ?s (fetch now ?k (?s\<lparr>fetchFails := fetchFails ?s + 1, books := (books ?s)(?k \<mapsto> FetchFailed t)\<rparr>))"
      using x t(2) by (intro update_fetch_slot [where t' = "FetchFailed t"]) (simp_all add: run_failed)
    with t(1) Inl show ?thesis by (simp add: deliver_def complete_def)
  next
    case (Inr snap)
    then show ?thesis
      using load_slot [where D = D and S = S and s = ?s, of ?k t snap x now] t S [OF Inr] x
      by (simp add: deliver_def complete_def)
  qed
  then show ?thesis
    using shard_inv_only_slot [OF inv only_slot_trans [OF only]] by blast
qed

lemma answer_frame:
  "fst (answer q s) = s\<lparr>answered := answered s + 1\<rparr>"
  by (simp add: answer_def Let_def split: option.split)

lemma shard_inv_answer [inv_pres]: "shard_inv x D S s \<Longrightarrow> shard_inv x D S (fst (answer q s))"
  by (rule shard_inv_frame [of _ _ _ s]) (simp_all add: answer_frame)

section \<open>Frame of the shard operations\<close>

lemma fetch_frame [simp]:
  "inq (fetch now k s) = inq s" "inq_cap (fetch now k s) = inq_cap s" "shard_id (fetch now k s) = shard_id s" "inq_closed (fetch now k s) = inq_closed s"
  "quit (fetch now k s) = quit s" "bufferCap (fetch now k s) = bufferCap s" "answered (fetch now k s) = answered s"
  "events (fetch now k s) = events s"
  by (simp_all add: fetch_def Let_def split: option.split prod.split)

lemma tracker_frame [simp]:
  "inq (tracker now k s) = inq s" "inq_cap (tracker now k s) = inq_cap s" "shard_id (tracker now k s) = shard_id s" "inq_closed (tracker now k s) = inq_closed s"
  "quit (tracker now k s) = quit s" "bufferCap (tracker now k s) = bufferCap s" "events (tracker now k s) = events s"
  by (simp_all add: tracker_def split: option.split)

lemma outcome_frame [simp]:
  "inq (load_outcome now snap l err s) = inq s" "inq_cap (load_outcome now snap l err s) = inq_cap s" "shard_id (load_outcome now snap l err s) = shard_id s"
  "inq_closed (load_outcome now snap l err s) = inq_closed s" "quit (load_outcome now snap l err s) = quit s"
  "events (load_outcome now snap l err s) = events s"
  "inq (count_status now ev r s) = inq s" "inq_cap (count_status now ev r s) = inq_cap s" "shard_id (count_status now ev r s) = shard_id s"
  "inq_closed (count_status now ev r s) = inq_closed s" "quit (count_status now ev r s) = quit s"
  "events (count_status now ev r s) = events s"
  by (simp_all add: load_outcome_def count_status_def Let_def
      split: option.split tracker_error.split sum.split Status.split)

lemma load_frame [simp]:
  "inq (load now k snap s) = inq s" "inq_cap (load now k snap s) = inq_cap s" "shard_id (load now k snap s) = shard_id s"
  "inq_closed (load now k snap s) = inq_closed s" "quit (load now k snap s) = quit s"
  "bufferCap (load now k snap s) = bufferCap s" "events (load now k snap s) = events s"
  by (simp_all add: load_def split: option.split prod.split)

lemma handle_frame [simp]:
  "inq (handle now ev s) = inq s" "inq_cap (handle now ev s) = inq_cap s" "shard_id (handle now ev s) = shard_id s"
  "inq_closed (handle now ev s) = inq_closed s" "quit (handle now ev s) = quit s"
  "bufferCap (handle now ev s) = bufferCap s" "events (handle now ev s) = events s + 1"
  by (simp_all add: handle_def handle_delta_def Let_def split: option.split prod.split EventKind.split)

lemma deliver_frame [simp]:
  "inq (deliver now res s) = inq s" "inq_cap (deliver now res s) = inq_cap s" "shard_id (deliver now res s) = shard_id s"
  "inq_closed (deliver now res s) = inq_closed s" "quit (deliver now res s) = quit s"
  "bufferCap (deliver now res s) = bufferCap s" "events (deliver now res s) = events s"
  by (simp_all add: deliver_def complete_def split: option.split sum.split)

lemma fetch_dom [simp]: "dom (books (fetch now k s)) = dom (books s)"
  by (auto simp: fetch_def Let_def split: option.splits prod.splits if_splits)

lemma tracker_dom [simp]: "dom (books (tracker now k s)) = insert k (dom (books s))"
  by (auto simp: tracker_def split: option.splits)

lemma load_dom [simp]: "dom (books (load now k snap s)) = dom (books s)"
  by (auto simp: load_def split: option.splits prod.splits)

lemma handle_dom: "dom (books (handle now ev s)) \<subseteq> dom (books s) \<union> set_option (eventSymbol ev)"
proof (cases "Kind ev")
  case KindBookDelta
  let ?k = "delta_Symbol (ev_BookDelta ev)"
  have "dom (books (handle_delta now ev (ev_BookDelta ev) s')) = insert ?k (dom (books s'))" for s'
    using tracker_dom [of now ?k s']
    by (auto simp: handle_delta_def Let_def split: option.split prod.split simp del: tracker_dom)
  with KindBookDelta show ?thesis by (simp add: handle_def eventSymbol_def)
qed (auto simp: handle_def eventSymbol_def)

lemma deliver_dom [simp]: "dom (books (deliver now res s)) = dom (books s)"
  by (auto simp: deliver_def complete_def split: option.splits sum.splits)

section \<open>The snapshot source\<close>

text \<open>
  The interface \<open>Snapshotter\<close>: a source answers a request for a symbol with a snapshot labelled
  with that symbol, or with an error. The REST client and the store of a replay provide it.
\<close>

locale snapshotter =
  fixes source_ok :: "'w \<Rightarrow> bool"
    and Snapshot :: "'w \<Rightarrow> Symbol \<Rightarrow> 'e + Snapshot"
  assumes snapshot_symbol: "source_ok w \<Longrightarrow> Snapshot w sy = Inr s \<Longrightarrow> snap_Symbol s = sy"
begin

text \<open>A fetched snapshot is never refused for being of another symbol.\<close>

lemma fetched_snapshot_matches:
  assumes "source_ok w" and "Snapshot w sy = Inr s" and "symbol (book t) = sy"
  shows "snd (Load t s) \<noteq> Some (WrongSymbol a b)"
proof -
  have "snd (replay t' i ds) \<noteq> Some (WrongSymbol a b)" for t' i ds
    by (induction t' i ds rule: replay.induct)
       (auto simp: Let_def split: prod.splits Class.splits sum.splits)
  then show ?thesis
    using snapshot_symbol [OF assms(1,2)] assms(3) by (auto simp: Load_def Let_def split: sum.splits)
qed

end

section \<open>Accounting\<close>

text \<open>The counters a delta or a snapshot event can end in, added up.\<close>

definition dispositions :: "shard \<Rightarrow> u64" where
  "dispositions s = applied s + discarded s + buffered s + gaps s + anchors s + refetches s + shard_errors s"

lemma fetch_dispositions [simp]: "dispositions (fetch now k s) = dispositions s"
  by (simp add: fetch_def Let_def dispositions_def split: option.split prod.split)

lemma tracker_dispositions [simp]: "dispositions (tracker now k s) = dispositions s"
  by (simp add: tracker_def dispositions_def [of "_\<lparr>books := _\<rparr>"] split: option.split)
     (simp add: dispositions_def)

lemma load_outcome_dispositions [simp]: "dispositions (load_outcome now snap l err s) = dispositions s + 1"
  by (simp add: load_outcome_def dispositions_def Let_def split: option.split tracker_error.split)

lemma count_status_dispositions [simp]: "dispositions (count_status now ev r s) = dispositions s + 1"
  by (simp add: count_status_def dispositions_def split: sum.split Status.split)

lemma dispositions_books [simp]: "dispositions (s\<lparr>books := b\<rparr>) = dispositions s"
  by (simp add: dispositions_def)

lemma load_dispositions: "books s k = Some t \<Longrightarrow> dispositions (load now k snap s) = dispositions s + 1"
  by (simp add: load_def split: prod.split)

lemma tracker_books: "\<exists>t. books (tracker now k s) k = Some t"
  using tracker_dom [of now k s] by (auto simp: dom_def set_eq_iff)

section \<open>Properties\<close>

text \<open>
  C26. Every event is accounted for. Whatever the state of the shard, handling one event counts it
  once in \<open>events\<close>, and each event but a trade ends in exactly one of the counters applied,
  discarded, buffered, gaps, snapshots, refetches and errors: nothing the shard took disappears
  from its statistics and nothing is counted twice (modulo the 64 bits of a counter).
\<close>

theorem handle_accounts:
  "events (handle now ev s) = events s + 1
   \<and> dispositions (handle now ev s) = dispositions s + (if Kind ev = KindTrade then 0 else 1)"
proof -
  let ?s = "s\<lparr>events := events s + 1\<rparr>"
  have e: "dispositions ?s = dispositions s" by (simp add: dispositions_def)
  have "dispositions (handle now ev s) = dispositions s + (if Kind ev = KindTrade then 0 else 1)"
  proof (cases "Kind ev")
    case KindBookDelta
    obtain t where "books (tracker now (delta_Symbol (ev_BookDelta ev)) ?s) (delta_Symbol (ev_BookDelta ev)) = Some t"
      using tracker_books by blast
    with KindBookDelta e show ?thesis by (simp add: handle_def handle_delta_def Let_def split: prod.split)
  next
    case KindSnapshot
    obtain t where "books (tracker now (snap_Symbol (ev_Snapshot ev)) ?s) (snap_Symbol (ev_Snapshot ev)) = Some t"
      using tracker_books by blast
    from load_dispositions [OF this, of now "ev_Snapshot ev"] KindSnapshot e show ?thesis
      by (simp add: handle_def)
  qed (simp_all add: handle_def dispositions_def)
  then show ?thesis by simp
qed

end
