(* ===== verification/Replay.thy ===== *)
theory Replay
  imports Recorder Shard "HOL-Library.AList" "HOL-Library.List_Lexorder" "HOL-Library.Char_ord"
begin

text \<open>
  \<^verbatim>\<open>internal/record/source.go\<close>: a recording played back into the pipeline, and the snapshot tee of
  \<^verbatim>\<open>recorder.go\<close> that put the snapshots into it. The first pass (\<open>scan\<close>) keeps the metadata, the
  snapshots and the number of lost records, the second (\<open>Replay_Run\<close>) sends the frames. A file is
  what \<open>opn\<close> gives for its name: the decompressed bytes and how the stream ends, or nothing when it
  cannot be opened. The scaling of a delay by the speed is floating point and is the parameter
  \<open>scale\<close>, absent when the replay is not paced; the outcome of each \<open>select\<close> against the cancelled
  context is the list \<open>picks\<close>, \<open>True\<close> where the context wins. A Go map is an association list, whose
  order stands for the unspecified order of iteration.
\<close>

section \<open>The snapshot store\<close>

record SnapshotStore =
  ss_all :: "(Symbol \<times> Snapshot list) list"
  ss_next :: "(Symbol \<times> nat) list"
  ss_used :: u64

datatype store_error = ContextErr bytes | ErrNoSnapshot Symbol

definition newSnapshotStore :: SnapshotStore where
  "newSnapshotStore = \<lparr>ss_all = [], ss_next = [], ss_used = 0\<rparr>"

text \<open>Reading a key that is absent gives the zero value.\<close>

definition all_of :: "SnapshotStore \<Rightarrow> Symbol \<Rightarrow> Snapshot list" where
  "all_of s sy = (case map_of (ss_all s) sy of None \<Rightarrow> [] | Some l \<Rightarrow> l)"

definition next_of :: "SnapshotStore \<Rightarrow> Symbol \<Rightarrow> nat" where
  "next_of s sy = (case map_of (ss_next s) sy of None \<Rightarrow> 0 | Some i \<Rightarrow> i)"

definition store_add :: "Snapshot \<Rightarrow> SnapshotStore \<Rightarrow> SnapshotStore" where
  "store_add snap s = s\<lparr>ss_all := AList.update (snap_Symbol snap) (all_of s (snap_Symbol snap) @ [snap]) (ss_all s)\<rparr>"

definition Store_Snapshot :: "bytes option \<Rightarrow> Symbol \<Rightarrow> SnapshotStore \<Rightarrow> SnapshotStore \<times> (store_error + Snapshot)" where
  "Store_Snapshot ctx sy s =
    (case ctx of
       Some e \<Rightarrow> (s, Inl (ContextErr e))
     | None \<Rightarrow>
        let i = next_of s sy
        in if i \<ge> length (all_of s sy) then (s, Inl (ErrNoSnapshot sy))
           else (s\<lparr>ss_next := AList.update sy (i + 1) (ss_next s), ss_used := ss_used s + 1\<rparr>, Inr (all_of s sy ! i)))"

definition Store_Symbols :: "SnapshotStore \<Rightarrow> Symbol list" where
  "Store_Symbols s = sort (map fst (ss_all s))"

definition Store_Len :: "SnapshotStore \<Rightarrow> nat" where
  "Store_Len s = sum_list (map (length \<circ> snd) (ss_all s))"

definition Used :: "SnapshotStore \<Rightarrow> u64" where
  "Used s = ss_used s"

section \<open>Passes over the files\<close>

datatype ('n, 'e) replay_error = OpenFailed 'n | ReplayFailed 'n rec_error | Stopped 'e

type_synonym 'n opener = "'n \<Rightarrow> (bytes \<times> stream_end) option"

function each_record ::
  "(bytes \<Rightarrow> bytes + Snapshot) \<Rightarrow> 'n \<Rightarrow> (Record \<Rightarrow> 's \<Rightarrow> 's \<times> 'e option) \<Rightarrow> Reader \<Rightarrow> 's \<Rightarrow> 's \<times> ('n, 'e) replay_error option" where
  "each_record un name fn r st =
    (case Reader_Next un r of
       (r', Inl None) \<Rightarrow> (st, None)
     | (r', Inl (Some e)) \<Rightarrow> (st, Some (ReplayFailed name e))
     | (r', Inr rec) \<Rightarrow>
        (case fn rec st of
           (st', Some e) \<Rightarrow> (st', Some (Stopped e))
         | (st', None) \<Rightarrow> each_record un name fn r' st'))"
  by pat_completeness auto
termination
  by (relation "measure (\<lambda>(un, name, fn, r, st). length (r_buf r))") (auto dest: Reader_Next_shorter [OF sym])

declare each_record.simps [simp del]

definition eachInFile ::
  "'n opener \<Rightarrow> (bytes \<Rightarrow> bytes + Snapshot) \<Rightarrow> (Record \<Rightarrow> 's \<Rightarrow> 's \<times> 'e option) \<Rightarrow> 'n \<Rightarrow> 's \<Rightarrow> 's \<times> ('n, 'e) replay_error option" where
  "eachInFile opn un fn name st =
    (case opn name of
       None \<Rightarrow> (st, Some (OpenFailed name))
     | Some (content, e) \<Rightarrow>
        (case NewReader content e of
           Inl err \<Rightarrow> (st, Some (ReplayFailed name err))
         | Inr r \<Rightarrow> each_record un name fn r st))"

fun each ::
  "'n opener \<Rightarrow> (bytes \<Rightarrow> bytes + Snapshot) \<Rightarrow> (Record \<Rightarrow> 's \<Rightarrow> 's \<times> 'e option) \<Rightarrow> 'n list \<Rightarrow> 's \<Rightarrow> 's \<times> ('n, 'e) replay_error option" where
  "each opn un fn [] st = (st, None)"
| "each opn un fn (name # names) st =
    (case eachInFile opn un fn name st of
       (st', Some e) \<Rightarrow> (st', Some e)
     | (st', None) \<Rightarrow> each opn un fn names st')"

section \<open>The source\<close>

record 'n ReplaySource =
  src_files :: "'n list"
  src_meta :: "bytes option"
  src_store :: SnapshotStore
  src_frames :: u64
  src_drops :: u64

datatype ('n, 'e) source_error = NoFiles | ScanFailed "('n, 'e) replay_error" | NoMetadata 'n

definition scan_record :: "Record \<Rightarrow> 'n ReplaySource \<Rightarrow> 'n ReplaySource \<times> unit option" where
  "scan_record rec s =
    ((case rec_Kind rec of
        KMeta \<Rightarrow> (if src_meta s = None then s\<lparr>src_meta := Some (Payload rec)\<rparr> else s)
      | KSnapshot \<Rightarrow> s\<lparr>src_store := store_add (rec_Snapshot rec) (src_store s)\<rparr>
      | KDrop \<Rightarrow> s\<lparr>src_drops := src_drops s + rec_Dropped rec\<rparr>
      | _ \<Rightarrow> s), None)"

definition scan :: "'n opener \<Rightarrow> (bytes \<Rightarrow> bytes + Snapshot) \<Rightarrow> 'n ReplaySource \<Rightarrow> 'n ReplaySource \<times> ('n, unit) replay_error option" where
  "scan opn un s = each opn un scan_record (src_files s) s"

definition NewReplaySource :: "'n opener \<Rightarrow> (bytes \<Rightarrow> bytes + Snapshot) \<Rightarrow> 'n list \<Rightarrow> ('n, unit) source_error + 'n ReplaySource" where
  "NewReplaySource opn un files =
    (if files = [] then Inl NoFiles
     else case scan opn un \<lparr>src_files = files, src_meta = None, src_store = newSnapshotStore, src_frames = 0, src_drops = 0\<rparr> of
       (s, Some e) \<Rightarrow> Inl (ScanFailed e)
     | (s, None) \<Rightarrow> if src_meta s = None \<or> src_meta s = Some [] then Inl (NoMetadata (hd files)) else Inr s)"

definition Meta :: "'n ReplaySource \<Rightarrow> bytes" where
  "Meta s = (case src_meta s of None \<Rightarrow> [] | Some b \<Rightarrow> b)"

definition Snapshots :: "'n ReplaySource \<Rightarrow> SnapshotStore" where
  "Snapshots s = src_store s"

definition Frames :: "'n ReplaySource \<Rightarrow> u64" where
  "Frames s = src_frames s"

definition Drops :: "'n ReplaySource \<Rightarrow> u64" where
  "Drops s = src_drops s"

text \<open>The variables of a run: the channel, the counter, the last timestamp, the waits and the picks.\<close>

record run_state =
  sent :: "Frame list"
  run_frames :: u64
  last_at :: "gotime option"
  waits :: "int list"
  picks :: "bool list"

datatype ctx_error = ContextCanceled

definition select_ctx :: "run_state \<Rightarrow> bool \<times> run_state" where
  "select_ctx st = (case picks st of [] \<Rightarrow> (False, st) | p # ps \<Rightarrow> (p, st\<lparr>picks := ps\<rparr>))"

definition pace :: "(int \<Rightarrow> int) option \<Rightarrow> Record \<Rightarrow> run_state \<Rightarrow> bool \<times> run_state" where
  "pace scale rec st =
    (case (scale, last_at st) of
       (Some f, Some l) \<Rightarrow>
         let gap = f (time_Since (rec_ReceivedAt rec) l)
         in if gap > 0
            then let (done, st') = select_ctx st in (done, if done then st' else st'\<lparr>waits := waits st' @ [gap]\<rparr>)
            else (False, st)
     | _ \<Rightarrow> (False, st))"

definition run_record :: "(int \<Rightarrow> int) option \<Rightarrow> Record \<Rightarrow> run_state \<Rightarrow> run_state \<times> ctx_error option" where
  "run_record scale rec st =
    (if rec_Kind rec \<noteq> KFrame then (st, None)
     else case pace scale rec st of
       (True, st1) \<Rightarrow> (st1, Some ContextCanceled)
     | (False, st1) \<Rightarrow>
        (case select_ctx (st1\<lparr>last_at := Some (rec_ReceivedAt rec)\<rparr>) of
           (True, st2) \<Rightarrow> (st2, Some ContextCanceled)
         | (False, st2) \<Rightarrow> (st2\<lparr>sent := sent st2 @ [Record_Frame rec], run_frames := run_frames st2 + 1\<rparr>, None)))"

definition Replay_Run ::
  "'n opener \<Rightarrow> (bytes \<Rightarrow> bytes + Snapshot) \<Rightarrow> (int \<Rightarrow> int) option \<Rightarrow> bool list \<Rightarrow> 'n ReplaySource
    \<Rightarrow> 'n ReplaySource \<times> Frame list \<times> int list \<times> ('n, ctx_error) replay_error option" where
  "Replay_Run opn un scale cs s =
    (let (st, err) = each opn un (run_record scale) (src_files s)
           \<lparr>sent = [], run_frames = src_frames s, last_at = None, waits = [], picks = cs\<rparr>
     in (s\<lparr>src_frames := run_frames st\<rparr>, sent st, waits st, err))"

section \<open>The snapshot tee\<close>

definition snapshotTee_Snapshot ::
  "(Symbol \<Rightarrow> 'e + Snapshot) \<Rightarrow> gotime \<Rightarrow> Symbol \<Rightarrow> Recorder \<Rightarrow> Recorder \<times> ('e + Snapshot)" where
  "snapshotTee_Snapshot inner now sy r =
    (case inner sy of
       Inl e \<Rightarrow> (r, Inl e)
     | Inr snap \<Rightarrow> (Recorder_Snapshot r now snap, Inr snap))"

section \<open>What the store serves\<close>

lemma all_of_add:
  "all_of (store_add snap s) sy = all_of s sy @ (if snap_Symbol snap = sy then [snap] else [])"
  by (simp add: all_of_def store_add_def update_conv')

lemma store_add_frame [simp]: "ss_next (store_add snap s) = ss_next s" "ss_used (store_add snap s) = ss_used s"
  by (simp_all add: store_add_def)

lemma all_of_adds:
  "all_of (foldl (\<lambda>st x. store_add x st) s snaps) sy = all_of s sy @ filter (\<lambda>x. snap_Symbol x = sy) snaps"
  by (induction snaps arbitrary: s) (simp_all add: all_of_add)

lemma all_of_new [simp]: "all_of newSnapshotStore sy = []" "next_of newSnapshotStore sy = 0"
  by (simp_all add: all_of_def next_of_def newSnapshotStore_def)

lemma Store_Snapshot_all [simp]: "all_of (fst (Store_Snapshot ctx sy s)) k = all_of s k"
  by (auto simp: Store_Snapshot_def all_of_def Let_def split: option.split)

lemma next_of_Snapshot:
  "next_of (fst (Store_Snapshot ctx sy s)) k =
    (if k = sy \<and> ctx = None \<and> next_of s sy < length (all_of s sy) then next_of s k + 1 else next_of s k)"
  by (auto simp: Store_Snapshot_def next_of_def Let_def update_conv' split: option.split)

lemma Store_Len_add: "Store_Len (store_add snap s) = Store_Len s + 1"
proof -
  have "sum_list (map (length \<circ> snd) (AList.update k ((case map_of al k of None \<Rightarrow> [] | Some l \<Rightarrow> l) @ [snap]) al))
      = sum_list (map (length \<circ> snd) al) + 1" for k and al :: "(Symbol \<times> Snapshot list) list"
    by (induction al) auto
  then show ?thesis by (simp add: Store_Len_def store_add_def all_of_def)
qed

lemma store_adds_sizes:
  fixes snaps defines "s \<equiv> foldl (\<lambda>st x. store_add x st) newSnapshotStore snaps"
  shows "Store_Len s = length snaps" and "set (map fst (ss_all s)) = snap_Symbol ` set snaps"
    and "distinct (map fst (ss_all s))" and "ss_next s = []" and "ss_used s = 0"
  unfolding s_def
  by (induction snaps rule: rev_induct)
     (simp_all add: Store_Len_add, auto simp: store_add_def newSnapshotStore_def Store_Len_def dom_update distinct_update)

text \<open>Every snapshot is kept under its own symbol.\<close>

definition store_ok :: "SnapshotStore \<Rightarrow> bool" where
  "store_ok s \<longleftrightarrow> (\<forall>sy. \<forall>x\<in>set (all_of s sy). snap_Symbol x = sy) \<and> distinct (map fst (ss_all s))"

lemma store_ok_new [simp]: "store_ok newSnapshotStore"
  by (simp add: store_ok_def newSnapshotStore_def all_of_def)

lemma store_ok_add [inv_pres]: "store_ok s \<Longrightarrow> store_ok (store_add snap s)"
  by (auto simp: store_ok_def all_of_add) (simp add: store_add_def distinct_update)

lemma store_ok_Snapshot [inv_pres]:
  assumes "store_ok s"
  shows "store_ok (fst (Store_Snapshot ctx sy s))"
proof -
  have "ss_all (fst (Store_Snapshot ctx sy s)) = ss_all s"
    by (auto simp: Store_Snapshot_def Let_def split: option.split)
  with assms show ?thesis by (simp add: store_ok_def)
qed

interpretation replay_source:
  snapshotter store_ok "\<lambda>s sy. snd (Store_Snapshot None sy s)"
  by unfold_locales (auto simp: Store_Snapshot_def store_ok_def Let_def split: if_splits)

text \<open>A sequence of requests, from any goroutines, and the answers in the order of the lock.\<close>

fun serve_all :: "(bytes option \<times> Symbol) list \<Rightarrow> SnapshotStore \<Rightarrow> SnapshotStore \<times> (store_error + Snapshot) list" where
  "serve_all [] s = (s, [])"
| "serve_all ((ctx, sy) # qs) s =
    (let (s', a) = Store_Snapshot ctx sy s; (s'', as) = serve_all qs s' in (s'', a # as))"

definition answers_for :: "Symbol \<Rightarrow> (bytes option \<times> Symbol) list \<Rightarrow> (store_error + Snapshot) list \<Rightarrow> (store_error + Snapshot) list" where
  "answers_for sy qs as = map snd (filter (\<lambda>p. fst p = (None, sy)) (zip qs as))"

lemma answers_for_Cons [simp]:
  "answers_for sy (q # qs) (a # as) = (if q = (None, sy) then [a] else []) @ answers_for sy qs as"
  by (simp add: answers_for_def)

lemma serve_all_answers:
  "next_of s sy \<le> length (all_of s sy) \<Longrightarrow>
   answers_for sy qs (snd (serve_all qs s)) =
     take (count_list qs (None, sy))
       (map Inr (drop (next_of s sy) (all_of s sy)) @ replicate (count_list qs (None, sy)) (Inl (ErrNoSnapshot sy)))"
proof (induction qs arbitrary: s)
  case Nil
  then show ?case by (simp add: answers_for_def)
next
  case (Cons q qs)
  obtain ctx k where q: "q = (ctx, k)" by fastforce
  let ?s = "fst (Store_Snapshot ctx k s)" and ?n = "count_list qs (None, sy)"
  have le: "next_of ?s sy \<le> length (all_of ?s sy)" using Cons.prems by (simp add: next_of_Snapshot)
  have split: "answers_for sy (q # qs) (snd (serve_all (q # qs) s)) =
      (if q = (None, sy) then [snd (Store_Snapshot ctx k s)] else []) @ answers_for sy qs (snd (serve_all qs ?s))"
    by (simp add: q case_prod_beta)
  show ?case
  proof (cases "q = (None, sy)")
    case False
    then have "next_of ?s sy = next_of s sy" by (auto simp: q next_of_Snapshot)
    then show ?thesis unfolding split using Cons.IH [OF le] False by simp
  next
    case True
    then have qk: "ctx = None" "k = sy" by (simp_all add: q)
    show ?thesis
    proof (cases "next_of s sy < length (all_of s sy)")
      case room: True
      then have "snd (Store_Snapshot ctx k s) = Inr (all_of s sy ! next_of s sy)" by (simp add: qk Store_Snapshot_def Let_def)
      moreover have "next_of ?s sy = Suc (next_of s sy)" using room by (simp add: qk next_of_Snapshot)
      moreover have "replicate (Suc ?n) x = replicate ?n x @ [x]" for x :: "store_error + Snapshot"
        by (simp add: replicate_append_same)
      ultimately show ?thesis
        unfolding split using Cons.IH [OF le] True room
        by (simp add: Cons_nth_drop_Suc [symmetric] del: replicate_Suc)
    next
      case False
      then have "snd (Store_Snapshot ctx k s) = Inl (ErrNoSnapshot sy)" "next_of ?s sy = next_of s sy"
        by (simp_all add: qk Store_Snapshot_def Let_def)
      then show ?thesis unfolding split using Cons.IH [OF le] True False Cons.prems by simp
    qed
  qed
qed

lemma serve_all_used:
  "ss_used (fst (serve_all qs s)) = ss_used s + of_nat (length (filter is_ok (snd (serve_all qs s))))"
proof (induction qs arbitrary: s)
  case (Cons q qs)
  obtain ctx k where q: "q = (ctx, k)" by fastforce
  have "ss_used (fst (Store_Snapshot ctx k s)) = ss_used s + (if is_ok (snd (Store_Snapshot ctx k s)) then 1 else 0)"
    by (simp add: Store_Snapshot_def Let_def split: option.split)
  with Cons.IH [of "fst (Store_Snapshot ctx k s)"] show ?case by (simp add: q case_prod_beta)
qed simp

section \<open>A pass as a fold over the records\<close>

fun feed :: "(Record \<Rightarrow> 's \<Rightarrow> 's \<times> 'e option) \<Rightarrow> Record list \<Rightarrow> 's \<Rightarrow> 's \<times> 'e option" where
  "feed fn [] st = (st, None)"
| "feed fn (rec # recs) st = (case fn rec st of (st', Some e) \<Rightarrow> (st', Some e) | (st', None) \<Rightarrow> feed fn recs st')"

lemma feed_append:
  "feed fn (xs @ ys) st = (case feed fn xs st of (st', Some e) \<Rightarrow> (st', Some e) | (st', None) \<Rightarrow> feed fn ys st')"
  by (induction xs arbitrary: st) (auto split: prod.split option.split)

lemma each_record_feed:
  "each_record un name fn r st =
    (case feed fn (fst (read_all un r)) st of
       (st', Some e) \<Rightarrow> (st', Some (Stopped e))
     | (st', None) \<Rightarrow> (st', map_option (ReplayFailed name) (snd (read_all un r))))"
proof (induction un name fn r st rule: each_record.induct)
  case (1 un name fn r st)
  obtain r' x where n: "Reader_Next un r = (r', x)" by fastforce
  show ?case
  proof (cases x)
    case (Inl e)
    then show ?thesis by (subst each_record.simps, subst read_all.simps, subst (2) read_all.simps) (simp add: n split: option.split)
  next
    case (Inr rec)
    have ra: "read_all un r = (rec # fst (read_all un r'), snd (read_all un r'))"
      by (subst read_all.simps) (simp add: n Inr case_prod_beta)
    obtain st' y where f: "fn rec st = (st', y)" by fastforce
    show ?thesis
    proof (cases y)
      case None
      have "each_record un name fn r st = each_record un name fn r' st'"
        by (subst each_record.simps) (simp add: n Inr f None)
      with 1 [OF n [symmetric] Inr f [symmetric] None] show ?thesis unfolding ra fst_conv snd_conv by (simp add: f None)
    next
      case (Some e)
      then show ?thesis unfolding ra fst_conv by (subst each_record.simps) (simp add: n Inr f)
    qed
  qed
qed

text \<open>The records of a file that opens and reads to a clean end.\<close>

definition reads :: "'n opener \<Rightarrow> (bytes \<Rightarrow> bytes + Snapshot) \<Rightarrow> 'n \<Rightarrow> Record list \<Rightarrow> bool" where
  "reads opn un name recs \<longleftrightarrow> (\<exists>content e r. opn name = Some (content, e) \<and> NewReader content e = Inr r \<and> read_all un r = (recs, None))"

lemma eachInFile_reads:
  "reads opn un name recs \<Longrightarrow> eachInFile opn un fn name st =
    (case feed fn recs st of (st', Some e) \<Rightarrow> (st', Some (Stopped e)) | (st', None) \<Rightarrow> (st', None))"
  by (auto simp: reads_def eachInFile_def each_record_feed split: prod.split option.split)

lemma each_reads:
  assumes "list_all2 (reads opn un) names recss"
  shows "each opn un fn names st =
    (case feed fn (concat recss) st of (st', Some e) \<Rightarrow> (st', Some (Stopped e)) | (st', None) \<Rightarrow> (st', None))"
  using assms
proof (induction names recss arbitrary: st rule: list_all2_induct)
  case (Cons name names recs recss)
  then show ?case by (auto simp: eachInFile_reads feed_append split: prod.splits option.splits)
qed simp

text \<open>Conversely a pass that returns without an error has read every file to its end.\<close>

lemma each_complete:
  assumes "each opn un fn names st = (st', None)"
  shows "\<exists>recss. list_all2 (reads opn un) names recss \<and> feed fn (concat recss) st = (st', None)"
  using assms
proof (induction names arbitrary: st)
  case (Cons name names)
  obtain st1 where f: "eachInFile opn un fn name st = (st1, None)" and rest: "each opn un fn names st1 = (st', None)"
    using Cons.prems by (auto split: prod.splits option.splits)
  obtain content e r where o: "opn name = Some (content, e)" "NewReader content e = Inr r"
    and er: "each_record un name fn r st = (st1, None)"
    using f by (auto simp: eachInFile_def split: option.splits sum.splits)
  then have "snd (read_all un r) = None" and fd: "feed fn (fst (read_all un r)) st = (st1, None)"
    by (auto simp: each_record_feed split: prod.splits option.splits)
  then have "reads opn un name (fst (read_all un r))" using o by (auto simp: reads_def prod_eq_iff)
  moreover obtain recss where "list_all2 (reads opn un) names recss" "feed fn (concat recss) st1 = (st', None)"
    using Cons.IH [OF rest] by blast
  ultimately show ?case using fd by (intro exI [of _ "fst (read_all un r) # recss"]) (simp add: feed_append)
qed simp

text \<open>The records a pass can reach: up to the first file that fails.\<close>

fun readable :: "'n opener \<Rightarrow> (bytes \<Rightarrow> bytes + Snapshot) \<Rightarrow> 'n list \<Rightarrow> Record list" where
  "readable opn un [] = []"
| "readable opn un (name # names) =
    (case opn name of
       None \<Rightarrow> []
     | Some (content, e) \<Rightarrow>
        (case NewReader content e of
           Inl err \<Rightarrow> []
         | Inr r \<Rightarrow> fst (read_all un r) @ (if snd (read_all un r) = None then readable opn un names else [])))"

lemma readable_reads: "list_all2 (reads opn un) names recss \<Longrightarrow> readable opn un names = concat recss"
  by (induction names recss rule: list_all2_induct) (auto simp: reads_def)

lemma each_feed:
  "fst (each opn un fn names st) = fst (feed fn (readable opn un names) st)"
proof (induction names arbitrary: st)
  case (Cons name names)
  show ?case
  proof (cases "opn name")
    case (Some ce)
    obtain content e where ce: "ce = (content, e)" by fastforce
    show ?thesis
    proof (cases "NewReader content e")
      case (Inr r)
      obtain st' y where f: "feed fn (fst (read_all un r)) st = (st', y)" by fastforce
      have "eachInFile opn un fn name st = (case y of Some e \<Rightarrow> (st', Some (Stopped e))
          | None \<Rightarrow> (st', map_option (ReplayFailed name) (snd (read_all un r))))"
        by (simp add: eachInFile_def Some ce Inr each_record_feed f split: option.split)
      then show ?thesis
        using Cons.IH [of st'] by (simp add: Some ce Inr feed_append f split: option.split)
    qed (simp add: eachInFile_def Some ce)
  qed (simp add: eachInFile_def)
qed simp

section \<open>What the two passes keep\<close>

definition of_kind :: "rec_kind \<Rightarrow> Record list \<Rightarrow> Record list" where
  "of_kind k recs = filter (\<lambda>rec. rec_Kind rec = k) recs"

definition frames_of :: "Record list \<Rightarrow> Frame list" where
  "frames_of recs = map Record_Frame (of_kind KFrame recs)"

definition first_meta :: "bytes option \<Rightarrow> Record list \<Rightarrow> bytes option" where
  "first_meta m recs = (case m of Some b \<Rightarrow> Some b | None \<Rightarrow> (case of_kind KMeta recs of [] \<Rightarrow> None | rec # _ \<Rightarrow> Some (Payload rec)))"

lemma feed_scan:
  "feed scan_record recs s =
    (s\<lparr>src_meta := first_meta (src_meta s) recs,
       src_store := foldl (\<lambda>st x. store_add x st) (src_store s) (map rec_Snapshot (of_kind KSnapshot recs)),
       src_drops := src_drops s + sum_list (map rec_Dropped (of_kind KDrop recs))\<rparr>, None)"
proof (induction recs arbitrary: s)
  case (Cons rec recs)
  show ?case
    by (cases "rec_Kind rec")
       (auto simp: scan_record_def [of rec s] Cons.IH of_kind_def first_meta_def add.assoc split: option.splits)
qed (simp add: first_meta_def of_kind_def split: option.split)

text \<open>One record of the second pass: its frame is sent, or the context has won.\<close>

lemma run_record_cases:
  assumes "run_record scale rec st = (st', err)" and "\<forall>w\<in>set (waits st). 0 < w"
  shows "if err = None then sent st' = sent st @ frames_of [rec] \<and> run_frames st' = run_frames st + of_nat (length (frames_of [rec]))
      else sent st' = sent st \<and> run_frames st' = run_frames st"
    and "\<forall>w\<in>set (waits st'). 0 < w"
    and "picks st = [] \<Longrightarrow> err = None \<and> picks st' = []"
  using assms
  by (auto simp: run_record_def pace_def select_ctx_def Let_def frames_of_def of_kind_def split: if_splits list.splits option.splits bool.splits)

lemma feed_run:
  assumes "feed (run_record scale) recs st = (st', err)" and "\<forall>w\<in>set (waits st). 0 < w"
  shows "\<exists>fs. prefix fs (frames_of recs) \<and> sent st' = sent st @ fs \<and> run_frames st' = run_frames st + of_nat (length fs)
    \<and> (err = None \<longrightarrow> fs = frames_of recs) \<and> (\<forall>w\<in>set (waits st'). 0 < w) \<and> (picks st = [] \<longrightarrow> err = None)"
  using assms
proof (induction recs arbitrary: st)
  case (Cons rec recs)
  obtain st1 e1 where r: "run_record scale rec st = (st1, e1)" by fastforce
  note one = run_record_cases [OF r Cons.prems(2)]
  have fr: "frames_of (rec # recs) = frames_of [rec] @ frames_of recs" by (simp add: frames_of_def of_kind_def)
  show ?case
  proof (cases e1)
    case (Some e)
    with r Cons.prems(1) one show ?thesis by (intro exI [of _ "[]"]) auto
  next
    case None
    then have "feed (run_record scale) recs st1 = (st', err)" using r Cons.prems(1) by simp
    from Cons.IH [OF this one(2)] obtain fs where "prefix fs (frames_of recs)" "sent st' = sent st1 @ fs"
      "run_frames st' = run_frames st1 + of_nat (length fs)" "err = None \<longrightarrow> fs = frames_of recs"
      "\<forall>w\<in>set (waits st'). 0 < w" "picks st1 = [] \<longrightarrow> err = None" by blast
    with one None show ?thesis unfolding fr by (intro exI [of _ "frames_of [rec] @ fs"]) auto
  qed
qed (simp add: frames_of_def of_kind_def)

section \<open>The records of a whole recording\<close>

definition recording_items :: "bytes \<Rightarrow> (u64 \<times> rec_entry) list \<Rightarrow> item list" where
  "recording_items meta des =
    concat (map (\<lambda>h. IMeta (h * hour_ns) meta # hour_items h des) (sorted_list_of_set (hours des)))"

lemma run_items_hours: "fst ` set (run_items l des) = hours des"
  by (induction l des rule: run_items.induct) (simp_all add: hours_def entry_hour_def entry_items_def image_Un image_image image_constant_conv)

lemma run_items_sorted:
  assumes "sorted (map entry_hour des)"
  shows "sorted (map fst (run_items l des))"
  using assms
proof (induction l des rule: run_items.induct)
  case (2 l d e des)
  have "hour_of (e_at e) \<le> h" if "h \<in> fst ` set (run_items l' des)" for h l'
    using that 2(2) unfolding run_items_hours by (auto simp: hours_def entry_hour_def)
  with 2 show ?case by (auto simp: sorted_append entry_items_def)
qed simp

lemma recording_items_eq:
  assumes "sorted (map entry_hour des)"
  shows "filter (\<lambda>it. item_kind it \<noteq> KMeta) (recording_items meta des) = map snd (run_items 0 des)"
proof -
  let ?hs = "sorted_list_of_set (hours des)" and ?rs = "run_items 0 des"
  have "concat (map (\<lambda>h. filter (\<lambda>p. fst p = h) ?rs) ?hs) = ?rs"
    by (rule sorted_groups [OF run_items_sorted [OF assms]]) (simp_all add: run_items_hours hours_def)
  from arg_cong [OF this, of "map snd"] have "concat (map (\<lambda>h. hour_items h des) ?hs) = map snd ?rs"
    by (simp only: map_concat map_map comp_def hour_items_def)
  moreover have "item_kind it \<noteq> KMeta" if "it \<in> set (hour_items h des)" for it h
  proof -
    have "item_kind (snd q) \<noteq> KMeta" if "q \<in> set (run_items l des)" for q l
      using that by (induction l des rule: run_items.induct) (auto simp: entry_items_def entry_item_def split: if_splits)
    with that show ?thesis by (auto simp: hour_items_def)
  qed
  then have "filter (\<lambda>it. item_kind it \<noteq> KMeta) (hour_items h des) = hour_items h des" for h
    by (simp add: filter_id_conv)
  ultimately show ?thesis by (simp add: recording_items_def filter_concat comp_def)
qed

lemma item_record_kind [simp]: "rec_Kind (item_record it) = item_kind it"
  by (cases it) simp_all

lemma of_kind_recording:
  assumes "sorted (map entry_hour des)" and "k \<noteq> KMeta"
  shows "of_kind k (map item_record (recording_items meta des)) =
    map item_record (filter (\<lambda>it. item_kind it = k) (map snd (run_items 0 des)))"
proof -
  have "filter (\<lambda>it. item_kind it = k) (recording_items meta des) =
      filter (\<lambda>it. item_kind it = k) (filter (\<lambda>it. item_kind it \<noteq> KMeta) (recording_items meta des))"
    using assms(2) by (auto intro: filter_cong)
  then show ?thesis
    unfolding recording_items_eq [OF assms(1)] of_kind_def by (simp add: filter_map comp_def)
qed

text \<open>The entries of a kind, in the order the writer took them.\<close>

definition entries_of :: "rec_kind \<Rightarrow> (u64 \<times> rec_entry) list \<Rightarrow> rec_entry list" where
  "entries_of k des = filter (\<lambda>e. e_kind e = k) (map snd des)"

lemma run_items_kind:
  assumes "\<forall>p\<in>set des. e_kind (snd p) = KFrame \<or> e_kind (snd p) = KSnapshot" and "k = KFrame \<or> k = KSnapshot"
  shows "filter (\<lambda>it. item_kind it = k) (map snd (run_items l des)) = map entry_item (entries_of k des)"
  using assms(1)
proof (induction l des rule: run_items.induct)
  case (2 l d e des)
  then show ?case using assms(2) by (auto simp: entries_of_def entry_items_def entry_item_def)
qed (simp add: entries_of_def)

lemma recording_kinds:
  assumes "sorted (map entry_hour des)" and "\<forall>p\<in>set des. e_kind (snd p) = KFrame \<or> e_kind (snd p) = KSnapshot"
  shows "frames_of (map item_record (recording_items meta des)) =
      map (\<lambda>e. \<lparr>Data = e_payload e, frame_ReceivedAt = e_at e\<rparr>) (entries_of KFrame des)"
    and "map rec_Snapshot (of_kind KSnapshot (map item_record (recording_items meta des))) = map e_snapshot (entries_of KSnapshot des)"
    and "sum_list (map rec_Dropped (of_kind KDrop (map item_record (recording_items meta des)))) = last_drop des"
proof -
  note k = of_kind_recording [OF assms(1), of _ meta] and e = run_items_kind [OF assms(2), of _ 0]
  show "frames_of (map item_record (recording_items meta des)) =
      map (\<lambda>e. \<lparr>Data = e_payload e, frame_ReceivedAt = e_at e\<rparr>) (entries_of KFrame des)"
    by (auto simp: frames_of_def k e Record_Frame_def entries_of_def entry_item_def)
  show "map rec_Snapshot (of_kind KSnapshot (map item_record (recording_items meta des))) = map e_snapshot (entries_of KSnapshot des)"
    by (auto simp: k e entries_of_def entry_item_def)
  have "sum_list (map rec_Dropped (map item_record (filter (\<lambda>it. item_kind it = KDrop) its))) = sum_list (map drop_count its)" for its
  proof (induction its)
    case (Cons it its)
    then show ?case by (cases it) simp_all
  qed simp
  then show "sum_list (map rec_Dropped (of_kind KDrop (map item_record (recording_items meta des)))) = last_drop des"
    using run_items_drops [of 0 des] by (simp add: k last_drop_def comp_def)
qed

section \<open>Properties\<close>

definition disk_opener :: "(int \<rightharpoonup> bytes) \<Rightarrow> int opener" where
  "disk_opener disk h = map_option (\<lambda>c. (c, StreamEOF)) (disk h)"

lemma hours_reads:
  assumes "\<forall>h\<in>set hs. \<exists>content rd. disk h = Some content \<and> NewReader content StreamEOF = Inr rd \<and> read_all un rd = (map item_record (its h), None)"
  shows "list_all2 (reads (disk_opener disk) un) hs (map (\<lambda>h. map item_record (its h)) hs)"
  using assms by (induction hs) (auto simp: reads_def disk_opener_def)

lemma recorded_disk_reads:
  assumes "healthy io un" and "NewRecorder True meta c disk = Inr r"
    and "\<forall>p\<in>set des. entry_ok io un (snd p) \<and> 0 \<le> e_at (snd p)" and "sorted (map entry_hour des)"
  shows "\<exists>recss. list_all2 (reads (disk_opener (fs (foldl (take_entry io) r des))) un) (sorted_list_of_set (hours des)) recss
    \<and> concat recss = map item_record (recording_items meta des)"
proof -
  have "finite (hours des)" by (simp add: hours_def)
  then have "\<forall>h\<in>set (sorted_list_of_set (hours des)). \<exists>content rd. fs (foldl (take_entry io) r des) h = Some content
      \<and> NewReader content StreamEOF = Inr rd
      \<and> read_all un rd = (map item_record (IMeta (h * hour_ns) meta # hour_items h des), None)"
    using hour_files_read [OF assms] by simp
  from hours_reads [OF this] show ?thesis
    by (intro exI) (auto simp: recording_items_def map_concat comp_def)
qed

lemma recording_plays_back:
  assumes "healthy io un" and "NewRecorder True meta c disk = Inr r"
    and "\<forall>p\<in>set des. entry_ok io un (snd p) \<and> 0 \<le> e_at (snd p)" and "sorted (map entry_hour des)" and "des \<noteq> []"
  shows "let opn = disk_opener (fs (foldl (take_entry io) r des));
       frames = map (\<lambda>e. \<lparr>Data = e_payload e, frame_ReceivedAt = e_at e\<rparr>) (entries_of KFrame des)
     in \<exists>src. NewReplaySource opn un (sorted_list_of_set (hours des)) = Inr src
       \<and> Meta src = meta \<and> Drops src = last_drop des
       \<and> (\<forall>sy. all_of (Snapshots src) sy = filter (\<lambda>s. snap_Symbol s = sy) (map e_snapshot (entries_of KSnapshot des)))
       \<and> (\<exists>src' ws. Replay_Run opn un scale [] src = (src', frames, ws, None) \<and> Frames src' = of_nat (length frames))"
proof -
  define opn where "opn = disk_opener (fs (foldl (take_entry io) r des))"
  define recs where "recs = map item_record (recording_items meta des)"
  let ?hs = "sorted_list_of_set (hours des)"
  obtain recss where rd: "list_all2 (reads opn un) ?hs recss" "concat recss = recs"
    using recorded_disk_reads [OF assms(1-4)] unfolding opn_def recs_def by blast
  have hs: "?hs \<noteq> []" using assms(5) by (simp add: hours_def)
  have m: "meta \<noteq> []" using assms(2) by (auto simp: NewRecorder_def split: if_splits)
  have "\<forall>p\<in>set des. e_kind (snd p) = KFrame \<or> e_kind (snd p) = KSnapshot" using assms(3) by (auto simp: entry_ok_def)
  note kinds = recording_kinds [OF assms(4) this, of meta, folded recs_def]
  obtain h hs' where "?hs = h # hs'" using hs by (cases ?hs) auto
  then have fm: "first_meta None recs = Some meta"
    by (simp add: recs_def recording_items_def first_meta_def of_kind_def)
  define src where "src = \<lparr>src_files = ?hs, src_meta = Some meta,
      src_store = foldl (\<lambda>st x. store_add x st) newSnapshotStore (map rec_Snapshot (of_kind KSnapshot recs)),
      src_frames = 0, src_drops = last_drop des\<rparr>"
  have new: "NewReplaySource opn un ?hs = Inr src"
    using hs m fm kinds(3)
    by (simp add: NewReplaySource_def scan_def each_reads [OF rd(1)] rd(2) feed_scan src_def)
  define st0 where "st0 = \<lparr>sent = [], run_frames = 0, last_at = None, waits = [], picks = []\<rparr>"
  obtain st err where f: "feed (run_record scale) recs st0 = (st, err)" by fastforce
  then have "err = None" "sent st = frames_of recs" "run_frames st = of_nat (length (frames_of recs))"
    using feed_run [OF f] by (auto simp: st0_def)
  with f have "Replay_Run opn un scale [] src = (src\<lparr>src_frames := of_nat (length (frames_of recs))\<rparr>, frames_of recs, waits st, None)"
    by (simp add: Replay_Run_def src_def each_reads [OF rd(1)] rd(2) st0_def)
  then show ?thesis
    using new unfolding opn_def [symmetric] kinds(1) Let_def
    by (intro exI [of _ src]) (auto simp: Meta_def Drops_def Snapshots_def Frames_def src_def all_of_adds kinds(2))
qed

text \<open>
  C18. A recording plays back. Let the writer take any frames and snapshots, in non-decreasing order of
  their hours, on a disk that works, while entries may be lost. Replaying its files in order then
  gives back the metadata, reports exactly the number of lost entries the recorder had counted, holds
  for each symbol exactly its recorded snapshots in order, and, unless it is cancelled, sends exactly
  the recorded frames with their receive times, in order, counts them and ends without an error,
  whatever the pacing.
\<close>

theorem replay_of_recording:
  assumes "healthy io un" and "NewRecorder True meta c disk = Inr r"
    and "\<forall>p\<in>set des. entry_ok io un (snd p) \<and> 0 \<le> e_at (snd p)" and "sorted (map entry_hour des)" and "des \<noteq> []"
  shows "let opn = disk_opener (fs (foldl (take_entry io) r des));
       frames = map (\<lambda>e. \<lparr>Data = e_payload e, frame_ReceivedAt = e_at e\<rparr>) (entries_of KFrame des)
     in \<exists>src. NewReplaySource opn un (sorted_list_of_set (hours des)) = Inr src
       \<and> Meta src = meta \<and> Drops src = last_drop des
       \<and> (\<forall>sy. all_of (Snapshots src) sy = filter (\<lambda>s. snap_Symbol s = sy) (map e_snapshot (entries_of KSnapshot des)))
       \<and> (\<exists>src' ws. Replay_Run opn un scale [] src = (src', frames, ws, None) \<and> Frames src' = of_nat (length frames))"
  by (rule recording_plays_back [OF assms])

text \<open>C18 on two frames in two hours, two entries having been lost before the second.\<close>

theorem replay_of_recording_witness:
  "\<exists>src src' ws. let opn = disk_opener (fs (foldl (take_entry ex_io) ex_recorder [(0, ex_entry 5), (2, ex_entry hour_ns)]))
    in NewReplaySource opn (\<lambda>_. Inl []) [0, 1] = Inr src \<and> Meta src = ''{}'' \<and> Drops src = 2
      \<and> Replay_Run opn (\<lambda>_. Inl []) None [] src =
          (src', [\<lparr>Data = ''{}'', frame_ReceivedAt = 5\<rparr>, \<lparr>Data = ''{}'', frame_ReceivedAt = hour_ns\<rparr>], ws, None)"
proof -
  let ?des = "[(0 :: u64, ex_entry 5), (2, ex_entry hour_ns)]"
  have ok: "\<forall>p\<in>set ?des. entry_ok ex_io (\<lambda>_. Inl []) (snd p) \<and> 0 \<le> e_at (snd p)"
    using ex_io_ok(2) [of 5] ex_io_ok(2) [of hour_ns] by (simp add: hour_ns_def ex_entry_def)
  have sorted: "sorted (map entry_hour ?des)" by (simp add: entry_hour_def hour_of_def ex_entry_def hour_ns_def)
  have "hours ?des = {0, 1}" by (simp add: hours_def entry_hour_def hour_of_def ex_entry_def hour_ns_def)
  then have "sorted_list_of_set (hours ?des) = [0, 1]" by simp
  moreover have "last_drop ?des = 2" by (simp add: last_drop_def)
  moreover have "map (\<lambda>e. \<lparr>Data = e_payload e, frame_ReceivedAt = e_at e\<rparr>) (entries_of KFrame ?des) =
      [\<lparr>Data = ''{}'', frame_ReceivedAt = 5\<rparr>, \<lparr>Data = ''{}'', frame_ReceivedAt = hour_ns\<rparr>]"
    by (simp add: entries_of_def ex_entry_def)
  ultimately show ?thesis
    using replay_of_recording [OF ex_io_ok(1) ex_recorder_new ok sorted, of None] unfolding Let_def by auto
qed

text \<open>
  A replay that ends without an error is complete. Whatever the files hold, wherever they are cut and
  whenever the context is cancelled, the frames sent are the frames of the records that can be read,
  from the first one on and in order, each counted once, and no wait is zero or negative. And when
  \<open>Run\<close> returns nil, every file was opened and read to a clean end and every frame in it was sent:
  a truncated, corrupt or missing file, or a cancellation, never looks like the end of the recording.
\<close>

lemma Replay_Run_spec:
  assumes "Replay_Run opn un scale cs src = (src', out, ws, err)"
  shows "prefix out (frames_of (readable opn un (src_files src)))
    \<and> Frames src' = Frames src + of_nat (length out) \<and> (\<forall>w\<in>set ws. 0 < w)
    \<and> (err = None \<longrightarrow> (\<exists>recss. list_all2 (reads opn un) (src_files src) recss \<and> out = frames_of (concat recss)))"
proof -
  define st0 where "st0 = \<lparr>sent = [], run_frames = src_frames src, last_at = None, waits = [], picks = cs\<rparr>"
  obtain st where e: "each opn un (run_record scale) (src_files src) st0 = (st, err)"
    and r: "out = sent st" "ws = waits st" "src' = src\<lparr>src_frames := run_frames st\<rparr>"
    using assms by (auto simp: Replay_Run_def st0_def split: prod.splits)
  have st: "fst (feed (run_record scale) (readable opn un (src_files src)) st0) = st"
    using each_feed [of opn un "run_record scale" "src_files src" st0] e by simp
  then obtain x where f: "feed (run_record scale) (readable opn un (src_files src)) st0 = (st, x)" by (metis fst_conv surj_pair)
  have "\<exists>recss. list_all2 (reads opn un) (src_files src) recss \<and> out = frames_of (concat recss)" if "err = None"
  proof -
    from each_complete [of opn un "run_record scale" "src_files src" st0 st] e that
    obtain recss where rc: "list_all2 (reads opn un) (src_files src) recss" "feed (run_record scale) (concat recss) st0 = (st, None)"
      by auto
    with feed_run [OF rc(2)] r(1) show ?thesis by (auto simp: st0_def)
  qed
  with feed_run [OF f] r show ?thesis by (auto simp: st0_def Frames_def)
qed

text \<open>
  The store serves a recording reproducibly. Fill it with any snapshots, then let any goroutines
  ask, in any order and some of them cancelled. Each symbol is served its own snapshots in the order
  they were recorded, one per request, independently of what is asked for the other symbols, and
  every further request is refused; nothing is served twice or to a cancelled request. \<open>Used\<close> is the
  number of snapshots served, \<open>Len\<close> the number recorded, \<open>Symbols\<close> their symbols in order.
\<close>

lemma SnapshotStore_serves:
  "let s = foldl (\<lambda>st x. store_add x st) newSnapshotStore snaps; n = count_list qs (None, sy)
   in answers_for sy qs (snd (serve_all qs s)) =
        take n (map Inr (filter (\<lambda>x. snap_Symbol x = sy) snaps) @ replicate n (Inl (ErrNoSnapshot sy)))
      \<and> Used (fst (serve_all qs s)) = of_nat (length (filter is_ok (snd (serve_all qs s))))
      \<and> Store_Len s = length snaps \<and> Store_Symbols s = sorted_list_of_set (snap_Symbol ` set snaps)"
proof -
  define s where "s = foldl (\<lambda>st x. store_add x st) newSnapshotStore snaps"
  note sz = store_adds_sizes [of snaps, folded s_def]
  have "all_of s sy = filter (\<lambda>x. snap_Symbol x = sy) snaps" "next_of s sy = 0"
    using sz(4) by (simp_all add: s_def all_of_adds next_of_def)
  moreover have "Store_Symbols s = sorted_list_of_set (snap_Symbol ` set snaps)"
    unfolding Store_Symbols_def sz(2) [symmetric] using sz(3)
    by (metis distinct_remdups_id sorted_list_of_set_sort_remdups)
  ultimately show ?thesis
    unfolding s_def [symmetric] Let_def using serve_all_answers [of s sy qs] serve_all_used [of qs s] sz(1,5)
    by (simp add: Used_def)
qed

end
