(* ===== verification/Router.thy ===== *)
theory Router
  imports Shard
begin

text \<open>
  The book stage as a whole, \<^verbatim>\<open>internal/pipeline/shard.go\<close> and \<^verbatim>\<open>query.go\<close>: the router,
  its lifecycle, the bounded input channels, and every interleaving of its goroutines as the step
  relation \<open>router_run\<close>. An operation that waits in the source is one that is not enabled here:
  \<open>Route\<close> returns \<open>Inr None\<close> while the queue of the owning shard is full, a send on a closed
  channel is the panic it is in Go. The argument \<open>cx\<close> of an operation says whether one of its \<open>select\<close>s
  takes the case of the ended context, and with which error.
\<close>

record RouterConfig =
  Shards :: int
  QueueCap :: int
  BufferCap :: int
  has_Snapshots :: bool
  RetryDelay :: int
  has_TickToBook :: bool
  has_Resync :: bool

record Router =
  shards :: "shard list"
  started :: bool
  closeOnce :: bool

datatype router_error = SnapshotterRequired | QueueCapNotPositive int | ErrAlreadyStarted

definition new_shard :: "RouterConfig \<Rightarrow> nat \<Rightarrow> shard" where
  "new_shard cfg i =
    \<lparr>shard_id = i, inq = [], inq_cap = QueueCap cfg, inq_closed = False, quit = False, inflight = [],
     books = Map.empty, bufferCap = BufferCap cfg,
     retry = (if RetryDelay cfg \<le> 0 then DefaultRetryDelay else RetryDelay cfg),
     tickToBook = (if has_TickToBook cfg then Some [] else None),
     resync = (if has_Resync cfg then Some [] else None), fetchedAt = Map.empty,
     events = 0, applied = 0, discarded = 0, buffered = 0, gaps = 0, anchors = 0, refetches = 0,
     fetchFails = 0, shard_errors = 0, answered = 0\<rparr>"

definition NewRouter :: "int \<Rightarrow> RouterConfig \<Rightarrow> router_error + Router" where
  "NewRouter numCPU cfg =
    (if \<not> has_Snapshots cfg then Inl SnapshotterRequired
     else if QueueCap cfg \<le> 0 then Inl (QueueCapNotPositive (QueueCap cfg))
     else let n = (if Shards cfg \<le> 0 then numCPU else Shards cfg)
       in Inr \<lparr>shards = map (new_shard cfg) [0..<nat n], started = False, closeOnce = False\<rparr>)"

definition Router_Start :: "Router \<Rightarrow> router_error + Router" where
  "Router_Start r = (if started r then Inl ErrAlreadyStarted else Inr (r\<lparr>started := True\<rparr>))"

definition update_shard :: "Router \<Rightarrow> nat \<Rightarrow> (shard \<Rightarrow> shard) \<Rightarrow> Router" where
  "update_shard r i f = r\<lparr>shards := (shards r)[i := f (shards r ! i)]\<rparr>"

datatype route_error = NoSymbol EventKind | SendOnClosedChannel | RouteCanceled bytes

definition Route :: "bytes option \<Rightarrow> Event \<Rightarrow> Router \<Rightarrow> route_error + Router option" where
  "Route cx ev r =
    (case eventSymbol ev of
       None \<Rightarrow> Inl (NoSymbol (Kind ev))
     | Some k \<Rightarrow>
        let i = shardIndex k (length (shards r)); s = shards r ! i
        in case cx of
             Some e \<Rightarrow> Inl (RouteCanceled e)
           | None \<Rightarrow>
              if inq_closed s then Inl SendOnClosedChannel
              else if int (length (inq s)) < inq_cap s
              then Inr (Some (update_shard r i (\<lambda>s. s\<lparr>inq := inq s @ [ev]\<rparr>)))
              else Inr None)"

definition Router_Close :: "Router \<Rightarrow> Router" where
  "Router_Close r =
    (if closeOnce r then r
     else if \<not> started r then r\<lparr>closeOnce := True\<rparr>
     else r\<lparr>closeOnce := True, shards := map (\<lambda>s. s\<lparr>inq_closed := True\<rparr>) (shards r)\<rparr>)"

definition QueueDepth :: "Router \<Rightarrow> int list" where
  "QueueDepth r = map (\<lambda>s. int (length (inq s))) (shards r)"

record RouterStats =
  rs_Events :: u64
  rs_Applied :: u64
  rs_Discarded :: u64
  rs_Buffered :: u64
  rs_Gaps :: u64
  rs_Snapshots :: u64
  rs_Refetches :: u64
  rs_FetchFails :: u64
  rs_Errors :: u64
  rs_Queries :: u64

definition add_stats :: "RouterStats \<Rightarrow> shard \<Rightarrow> RouterStats" where
  "add_stats acc s =
    \<lparr>rs_Events = rs_Events acc + events s, rs_Applied = rs_Applied acc + applied s,
     rs_Discarded = rs_Discarded acc + discarded s, rs_Buffered = rs_Buffered acc + buffered s,
     rs_Gaps = rs_Gaps acc + gaps s, rs_Snapshots = rs_Snapshots acc + anchors s,
     rs_Refetches = rs_Refetches acc + refetches s, rs_FetchFails = rs_FetchFails acc + fetchFails s,
     rs_Errors = rs_Errors acc + shard_errors s, rs_Queries = rs_Queries acc + answered s\<rparr>"

definition Router_Stats :: "Router \<Rightarrow> RouterStats" where
  "Router_Stats r =
    foldl add_stats \<lparr>rs_Events = 0, rs_Applied = 0, rs_Discarded = 0, rs_Buffered = 0, rs_Gaps = 0,
      rs_Snapshots = 0, rs_Refetches = 0, rs_FetchFails = 0, rs_Errors = 0, rs_Queries = 0\<rparr> (shards r)"

text \<open>
  \<open>ask\<close>: the owning shard answers between two events, or has stopped. The caller may give up before
  the shard takes the request, or after it, when the answer is thrown away.
\<close>

type_synonym ask_ctx = "bytes option \<times> bytes option"

abbreviation patient :: ask_ctx where
  "patient \<equiv> (None, None)"

definition ask :: "ask_ctx \<Rightarrow> query \<Rightarrow> Router \<Rightarrow> Router \<times> (query_error + reply)" where
  "ask cx q r =
    (let i = shardIndex (q_symbol q) (length (shards r)); s = shards r ! i
     in case fst cx of
          Some e \<Rightarrow> (r, Inl (QueryCanceled (q_symbol q) e))
        | None \<Rightarrow>
           if quit s then (r, Inl (ErrRouterClosed (q_symbol q)))
           else (update_shard r i (\<lambda>s. fst (answer q s)),
             case snd cx of Some e \<Rightarrow> Inl (QueryCanceled (q_symbol q) e) | None \<Rightarrow> snd (answer q s)))"

definition Query :: "ask_ctx \<Rightarrow> Symbol \<Rightarrow> int \<Rightarrow> Router \<Rightarrow> Router \<times> (query_error + reply)" where
  "Query cx sy depth r = ask cx \<lparr>q_symbol = sy, q_depth = depth, q_check = None\<rparr> r"

definition Check :: "ask_ctx \<Rightarrow> Snapshot \<Rightarrow> Router \<Rightarrow> Router \<times> (query_error + reply)" where
  "Check cx snap r = ask cx \<lparr>q_symbol = snap_Symbol snap, q_depth = 0, q_check = Some snap\<rparr> r"

section \<open>Every interleaving of the stage\<close>

text \<open>
  The first two arguments after the parameters are history: the events \<open>Route\<close> accepted and the
  events the shards handled, in order. \<open>D\<close> and \<open>S\<close> say what deltas and snapshots the stage may be
  given for a symbol, \<open>x\<close> that no snapshot event is routed. The loop of \<open>run\<close> is \<open>st_event\<close>,
  \<open>st_result\<close> and \<open>st_query\<close>, in any order the scheduler picks; \<open>st_exit\<close> is its return.
\<close>

inductive router_run ::
  "int \<Rightarrow> RouterConfig \<Rightarrow> bool \<Rightarrow> (Symbol \<Rightarrow> BookDelta \<Rightarrow> bool) \<Rightarrow> (Symbol \<Rightarrow> Snapshot \<Rightarrow> bool)
   \<Rightarrow> Event list \<Rightarrow> Event list \<Rightarrow> Router \<Rightarrow> bool"
  for numCPU cfg x D S where
  st_new: "NewRouter numCPU cfg = Inr r \<Longrightarrow> 0 < numCPU \<Longrightarrow> in_i64 numCPU \<Longrightarrow> in_i64 (Shards cfg) \<Longrightarrow>
    router_run numCPU cfg x D S [] [] r"
| st_start: "router_run numCPU cfg x D S rt dn r \<Longrightarrow> Router_Start r = Inr r' \<Longrightarrow>
    router_run numCPU cfg x D S rt dn r'"
| st_route: "router_run numCPU cfg x D S rt dn r \<Longrightarrow> event_ok x D S ev \<Longrightarrow> Route cx ev r = Inr (Some r') \<Longrightarrow>
    router_run numCPU cfg x D S (rt @ [ev]) dn r'"
| st_event: "router_run numCPU cfg x D S rt dn r \<Longrightarrow> started r \<Longrightarrow> i < length (shards r) \<Longrightarrow>
    \<not> quit (shards r ! i) \<Longrightarrow> inq (shards r ! i) = ev # rest \<Longrightarrow>
    router_run numCPU cfg x D S rt (dn @ [ev]) (update_shard r i (\<lambda>s. handle now ev (s\<lparr>inq := rest\<rparr>)))"
| st_result: "router_run numCPU cfg x D S rt dn r \<Longrightarrow> i < length (shards r) \<Longrightarrow> \<not> quit (shards r ! i) \<Longrightarrow>
    res_symbol res \<in> set (inflight (shards r ! i)) \<Longrightarrow>
    (\<And>snap. res_snapshot res = Inr snap \<Longrightarrow> S (res_symbol res) snap) \<Longrightarrow>
    router_run numCPU cfg x D S rt dn (update_shard r i (deliver now res))"
| st_query: "router_run numCPU cfg x D S rt dn r \<Longrightarrow> started r \<Longrightarrow> router_run numCPU cfg x D S rt dn (fst (ask cx q r))"
| st_close: "router_run numCPU cfg x D S rt dn r \<Longrightarrow> router_run numCPU cfg x D S rt dn (Router_Close r)"
| st_exit: "router_run numCPU cfg x D S rt dn r \<Longrightarrow> started r \<Longrightarrow> i < length (shards r) \<Longrightarrow>
    inq (shards r ! i) = [] \<Longrightarrow> inq_closed (shards r ! i) \<Longrightarrow>
    router_run numCPU cfg x D S rt dn (update_shard r i (\<lambda>s. s\<lparr>quit := True\<rparr>))"
| st_abandon: "router_run numCPU cfg x D S rt dn r \<Longrightarrow> i < length (shards r) \<Longrightarrow> quit (shards r ! i) \<Longrightarrow>
    k \<in> set (inflight (shards r ! i)) \<Longrightarrow>
    router_run numCPU cfg x D S rt dn (update_shard r i (\<lambda>s. s\<lparr>inflight := remove1 k (inflight s)\<rparr>))"

section \<open>The invariant of the stage\<close>

definition owner :: "nat \<Rightarrow> Event \<Rightarrow> nat" where
  "owner n ev = (case eventSymbol ev of None \<Rightarrow> n | Some k \<Rightarrow> shardIndex k n)"

definition shard_ok ::
  "RouterConfig \<Rightarrow> bool \<Rightarrow> (Symbol \<Rightarrow> BookDelta \<Rightarrow> bool) \<Rightarrow> (Symbol \<Rightarrow> Snapshot \<Rightarrow> bool)
   \<Rightarrow> Event list \<Rightarrow> Event list \<Rightarrow> nat \<Rightarrow> nat \<Rightarrow> shard \<Rightarrow> bool" where
  "shard_ok cfg x D S rt dn n i s \<longleftrightarrow>
    shard_id s = i \<and> bufferCap s = BufferCap cfg
    \<and> inq_cap s = QueueCap cfg \<and> int (length (inq s)) \<le> QueueCap cfg
    \<and> filter (\<lambda>ev. owner n ev = i) rt = filter (\<lambda>ev. owner n ev = i) dn @ inq s
    \<and> (\<forall>ev\<in>set (inq s). event_ok x D S ev)
    \<and> (\<forall>k. books s k \<noteq> None \<longrightarrow> shardIndex k n = i)
    \<and> (\<not> quit s \<longrightarrow> shard_inv x D S s) \<and> (quit s \<longrightarrow> inq s = [] \<and> inq_closed s)"

definition router_inv ::
  "RouterConfig \<Rightarrow> bool \<Rightarrow> (Symbol \<Rightarrow> BookDelta \<Rightarrow> bool) \<Rightarrow> (Symbol \<Rightarrow> Snapshot \<Rightarrow> bool)
   \<Rightarrow> Event list \<Rightarrow> Event list \<Rightarrow> Router \<Rightarrow> bool" where
  "router_inv cfg x D S rt dn r \<longleftrightarrow>
    0 < length (shards r) \<and> length (shards r) < 2 ^ 63
    \<and> (\<forall>i<length (shards r). shard_ok cfg x D S rt dn (length (shards r)) i (shards r ! i))"

lemma router_inv_new:
  assumes "NewRouter numCPU cfg = Inr r" and "0 < numCPU" and "in_i64 numCPU" and "in_i64 (Shards cfg)"
  shows "router_inv cfg x D S [] [] r"
proof -
  let ?n = "if Shards cfg \<le> 0 then numCPU else Shards cfg"
  have r: "r = \<lparr>shards = map (new_shard cfg) [0..<nat ?n], started = False, closeOnce = False\<rparr>"
    and cap: "0 < QueueCap cfg"
    using assms(1) by (auto simp: NewRouter_def split: if_splits)
  have n: "0 < ?n" "?n \<le> MaxInt64" using assms by (auto simp: in_i64_def)
  then have "nat ?n < 2 ^ 63" by (simp add: MaxInt64_def nat_less_iff)
  moreover have "shard_ok cfg x D S [] [] m i (new_shard cfg i)" for m i
    using cap by (simp add: shard_ok_def new_shard_def shard_inv_def slot_inv_def in_flight_def)
  ultimately show ?thesis using n by (simp add: router_inv_def r)
qed

text \<open>One shard changes; the others see at most an event that is not theirs.\<close>

lemma router_inv_update:
  assumes "router_inv cfg x D S rt dn r" and "i < length (shards r)"
    and "shard_ok cfg x D S rt' dn' (length (shards r)) i (f (shards r ! i))"
    and "\<And>j. j \<noteq> i \<Longrightarrow> filter (\<lambda>ev. owner (length (shards r)) ev = j) rt' = filter (\<lambda>ev. owner (length (shards r)) ev = j) rt"
    and "\<And>j. j \<noteq> i \<Longrightarrow> filter (\<lambda>ev. owner (length (shards r)) ev = j) dn' = filter (\<lambda>ev. owner (length (shards r)) ev = j) dn"
  shows "router_inv cfg x D S rt' dn' (update_shard r i f)"
proof -
  let ?n = "length (shards r)"
  have "shard_ok cfg x D S rt' dn' ?n j (shards r ! j)" if "j < ?n" "j \<noteq> i" for j
  proof -
    have "shard_ok cfg x D S rt dn ?n j (shards r ! j)" using assms(1) that by (simp add: router_inv_def)
    then show ?thesis unfolding shard_ok_def assms(4,5) [OF that(2)] .
  qed
  with assms(1,2,3) show ?thesis by (auto simp: router_inv_def update_shard_def nth_list_update)
qed

lemma router_invD:
  "router_inv cfg x D S rt dn r \<Longrightarrow> i < length (shards r) \<Longrightarrow> shard_ok cfg x D S rt dn (length (shards r)) i (shards r ! i)"
  "router_inv cfg x D S rt dn r \<Longrightarrow> shardIndex k (length (shards r)) < length (shards r)"
  by (auto simp: router_inv_def shardIndex_less)

lemma owner_less:
  "router_inv cfg x D S rt dn r \<Longrightarrow> eventSymbol ev = Some k \<Longrightarrow> owner (length (shards r)) ev < length (shards r)"
  by (simp add: owner_def router_invD(2))

lemma shard_ok_push:
  assumes "shard_ok cfg x D S rt dn n i s" and "owner n ev = i" and "int (length (inq s)) < inq_cap s"
    and "event_ok x D S ev" and "\<not> inq_closed s"
  shows "shard_ok cfg x D S (rt @ [ev]) dn n i (s\<lparr>inq := inq s @ [ev]\<rparr>)"
proof -
  have "shard_inv x D S (s\<lparr>inq := inq s @ [ev]\<rparr>)" if "\<not> quit s"
    by (rule shard_inv_frame [of x D S s]) (use that assms(1) in \<open>simp_all add: shard_ok_def\<close>)
  with assms show ?thesis by (simp add: shard_ok_def)
qed

lemma shard_ok_pop:
  assumes "shard_ok cfg x D S rt dn n i s" and "\<not> quit s" and "inq s = ev # rest" and "i < n"
  shows "shard_ok cfg x D S rt (dn @ [ev]) n i (handle now ev (s\<lparr>inq := rest\<rparr>))" and "owner n ev = i"
proof -
  let ?s = "s\<lparr>inq := rest\<rparr>"
  have ok: "filter (\<lambda>ev. owner n ev = i) rt = filter (\<lambda>ev. owner n ev = i) dn @ ev # rest" "event_ok x D S ev"
    "\<forall>k. books s k \<noteq> None \<longrightarrow> shardIndex k n = i" "shard_inv x D S s"
    using assms by (simp_all add: shard_ok_def)
  have "ev \<in> set (filter (\<lambda>ev. owner n ev = i) rt)" unfolding ok(1) by simp
  then show o: "owner n ev = i" by simp
  then have k: "shardIndex k n = i" if "eventSymbol ev = Some k" for k
    using that by (simp add: owner_def)
  have "shard_inv x D S (handle now ev ?s)"
    by (intro shard_inv_handle ok(2) shard_inv_frame [OF ok(4)]) simp_all
  moreover have "\<forall>j. books (handle now ev ?s) j \<noteq> None \<longrightarrow> shardIndex j n = i"
  proof (intro allI impI)
    fix j
    assume "books (handle now ev ?s) j \<noteq> None"
    then have "books s j \<noteq> None \<or> eventSymbol ev = Some j"
      using handle_dom [of now ev ?s] by (auto simp: dom_def)
    with ok(3) k show "shardIndex j n = i" by blast
  qed
  ultimately show "shard_ok cfg x D S rt (dn @ [ev]) n i (handle now ev ?s)"
    using assms(1,3) o unfolding shard_ok_def by simp
qed

lemma router_inv_route:
  assumes inv: "router_inv cfg x D S rt dn r" and ev: "event_ok x D S ev" and rt: "Route cx ev r = Inr (Some r')"
  shows "router_inv cfg x D S (rt @ [ev]) dn r'"
proof -
  let ?n = "length (shards r)"
  obtain k where k: "eventSymbol ev = Some k" using rt by (auto simp: Route_def split: option.splits)
  define i where "i = shardIndex k ?n"
  have r': "r' = update_shard r i (\<lambda>s. s\<lparr>inq := inq s @ [ev]\<rparr>)" 
    and room: "int (length (inq (shards r ! i))) < inq_cap (shards r ! i)" and op: "\<not> inq_closed (shards r ! i)"
    using rt k by (auto simp: Route_def Let_def i_def split: if_splits option.splits)
  have i: "i < ?n" unfolding i_def by (rule router_invD(2) [OF inv])
  have o: "owner ?n ev = i" by (simp add: owner_def k i_def)
  note ok = shard_ok_push [OF router_invD(1) [OF inv i] o room ev op]
  show ?thesis
    unfolding r' by (rule router_inv_update [OF inv i]) (use ok in \<open>simp_all add: o\<close>)
qed

lemma router_inv_event:
  assumes inv: "router_inv cfg x D S rt dn r" and i: "i < length (shards r)" "\<not> quit (shards r ! i)"
    and q: "inq (shards r ! i) = ev # rest"
  shows "router_inv cfg x D S rt (dn @ [ev]) (update_shard r i (\<lambda>s. handle now ev (s\<lparr>inq := rest\<rparr>)))"
proof -
  note pop = shard_ok_pop [OF router_invD(1) [OF inv i(1)] i(2) q i(1)]
  show ?thesis
    by (rule router_inv_update [OF inv i(1)]) (use pop(1) in \<open>simp_all add: pop(2)\<close>)
qed

text \<open>A step that keeps the queue, the books' symbols and the shard invariant.\<close>

lemma shard_ok_step:
  assumes "shard_ok cfg x D S rt dn n i s" and "shard_id s' = shard_id s" and "bufferCap s' = bufferCap s"
    and "inq_cap s' = inq_cap s" and "inq s' = inq s" and "dom (books s') \<subseteq> dom (books s)"
    and "\<not> quit s' \<longrightarrow> shard_inv x D S s'" and "quit s' \<longrightarrow> inq s' = [] \<and> inq_closed s'"
  shows "shard_ok cfg x D S rt dn n i s'"
  using assms by (auto simp: shard_ok_def dom_def)

lemma router_inv_step:
  assumes "router_inv cfg x D S rt dn r" and "i < length (shards r)"
    and "\<And>s. shard_ok cfg x D S rt dn (length (shards r)) i s \<Longrightarrow> s = shards r ! i \<Longrightarrow>
      shard_ok cfg x D S rt dn (length (shards r)) i (f s)"
  shows "router_inv cfg x D S rt dn (update_shard r i f)"
  using router_inv_update [OF assms(1,2)] assms(3) [OF router_invD(1) [OF assms(1,2)]] by blast

lemma router_inv_close:
  assumes "router_inv cfg x D S rt dn r"
  shows "router_inv cfg x D S rt dn (Router_Close r)"
proof -
  let ?n = "length (shards r)"
  have "shard_ok cfg x D S rt dn ?n i ((shards r ! i)\<lparr>inq_closed := True\<rparr>)" if "i < ?n" for i
  proof (rule shard_ok_step [OF router_invD(1) [OF assms that]])
    show "\<not> quit ((shards r ! i)\<lparr>inq_closed := True\<rparr>) \<longrightarrow> shard_inv x D S ((shards r ! i)\<lparr>inq_closed := True\<rparr>)"
      using router_invD(1) [OF assms that] shard_inv_frame [of x D S "shards r ! i"] by (simp add: shard_ok_def)
    show "quit ((shards r ! i)\<lparr>inq_closed := True\<rparr>) \<longrightarrow>
        inq ((shards r ! i)\<lparr>inq_closed := True\<rparr>) = [] \<and> inq_closed ((shards r ! i)\<lparr>inq_closed := True\<rparr>)"
      using router_invD(1) [OF assms that] by (simp add: shard_ok_def)
  qed simp_all
  with assms show ?thesis by (auto simp: router_inv_def Router_Close_def)
qed

lemma router_inv_ask:
  assumes inv: "router_inv cfg x D S rt dn r"
  shows "router_inv cfg x D S rt dn (fst (ask cx q r))"
proof -
  let ?i = "shardIndex (q_symbol q) (length (shards r))"
  have "router_inv cfg x D S rt dn (update_shard r ?i (\<lambda>s. fst (answer q s)))"
  proof (rule router_inv_step [OF inv router_invD(2) [OF inv]])
    fix s
    assume ok: "shard_ok cfg x D S rt dn (length (shards r)) ?i s"
    show "shard_ok cfg x D S rt dn (length (shards r)) ?i (fst (answer q s))"
      by (rule shard_ok_step [OF ok]) (use ok shard_inv_answer [of x D S s q] in \<open>auto simp: answer_frame shard_ok_def\<close>)
  qed
  with inv show ?thesis by (simp add: ask_def Let_def split: option.split)
qed

lemma router_run_inv:
  assumes "router_run numCPU cfg x D S rt dn r"
  shows "router_inv cfg x D S rt dn r"
  using assms
proof induction
  case (st_new r)
  then show ?case by (rule router_inv_new)
next
  case (st_start rt dn r r')
  then show ?case by (auto simp: Router_Start_def router_inv_def split: if_splits)
next
  case (st_route rt dn r ev cx r')
  then show ?case by (simp add: router_inv_route)
next
  case (st_event rt dn r i ev rest now)
  then show ?case by (simp add: router_inv_event)
next
  case (st_result rt dn r i res now)
  show ?case
  proof (rule router_inv_step [OF st_result.IH st_result.hyps(2)])
    fix s
    assume ok: "shard_ok cfg x D S rt dn (length (shards r)) i s" and s: "s = shards r ! i"
    have "shard_inv x D S (deliver now res s)"
      using ok st_result.hyps s by (intro shard_inv_deliver) (auto simp: shard_ok_def)
    then show "shard_ok cfg x D S rt dn (length (shards r)) i (deliver now res s)"
      using st_result.hyps(3) s by (intro shard_ok_step [OF ok]) simp_all
  qed
next
  case (st_query rt dn r cx q)
  then show ?case by (simp add: router_inv_ask)
next
  case (st_close rt dn r)
  then show ?case by (simp add: router_inv_close)
next
  case (st_exit rt dn r i)
  show ?case
    by (rule router_inv_step [OF st_exit.IH st_exit.hyps(3)]) (erule shard_ok_step, use st_exit.hyps in simp_all)
next
  case (st_abandon rt dn r i k)
  show ?case
    by (rule router_inv_step [OF st_abandon.IH st_abandon.hyps(2)])
       (erule shard_ok_step, use st_abandon.hyps(3) router_invD(1) [OF st_abandon.IH st_abandon.hyps(2)]
          in \<open>simp_all add: shard_ok_def\<close>)
qed

section \<open>What the counters add up to\<close>

lemma sum_list_map_update:
  fixes f :: "'a \<Rightarrow> 'b :: comm_monoid_add"
  shows "i < length xs \<Longrightarrow> sum_list (map f (xs[i := y])) + f (xs ! i) = sum_list (map f xs) + f y"
proof (induction xs arbitrary: i)
  case (Cons x xs)
  then show ?case by (cases i) (simp_all add: ac_simps)
qed simp

lemma rs_Events_sum: "rs_Events (foldl add_stats a ss) = rs_Events a + sum_list (map events ss)"
  by (induction ss arbitrary: a) (simp_all add: add_stats_def algebra_simps)

lemma update_shard_events:
  assumes "i < length (shards r)" and "events (f (shards r ! i)) = events (shards r ! i) + c"
  shows "sum_list (map events (shards (update_shard r i f))) = sum_list (map events (shards r)) + c"
proof -
  have "sum_list (map events ((shards r)[i := f (shards r ! i)])) + events (shards r ! i)
      = sum_list (map events (shards r)) + c + events (shards r ! i)"
    using sum_list_map_update [OF assms(1), of events "f (shards r ! i)"] assms(2) by (simp add: ac_simps)
  then show ?thesis by (simp add: update_shard_def)
qed

lemma router_run_events:
  assumes "router_run numCPU cfg x D S rt dn r"
  shows "sum_list (map events (shards r)) = of_nat (length dn)"
  using assms
proof induction
  case (st_new r)
  then show ?case by (auto simp: NewRouter_def new_shard_def comp_def Let_def split: if_splits)
next
  case (st_start rt dn r r')
  then show ?case by (auto simp: Router_Start_def split: if_splits)
next
  case (st_route rt dn r ev cx r')
  note inv = router_run_inv [OF st_route.hyps(1)]
  obtain k where "r' = update_shard r (shardIndex k (length (shards r))) (\<lambda>s. s\<lparr>inq := inq s @ [ev]\<rparr>)"
    using st_route.hyps(3) by (auto simp: Route_def Let_def split: option.splits if_splits)
  with st_route.IH show ?case
    using update_shard_events [OF router_invD(2) [OF inv], of "\<lambda>s. s\<lparr>inq := inq s @ [ev]\<rparr>" k 0] by simp
next
  case (st_event rt dn r i ev rest now)
  then show ?case
    using update_shard_events [OF st_event.hyps(3), of "\<lambda>s. handle now ev (s\<lparr>inq := rest\<rparr>)" 1] by simp
next
  case (st_result rt dn r i res now)
  then show ?case using update_shard_events [OF st_result.hyps(2), of "deliver now res" 0] by simp
next
  case (st_query rt dn r cx q)
  note inv = router_run_inv [OF st_query.hyps(1)]
  from st_query.IH show ?case
    using update_shard_events [OF router_invD(2) [OF inv], of "\<lambda>s. fst (answer q s)" "q_symbol q" 0]
    by (simp add: ask_def Let_def answer_frame split: option.split)
next
  case (st_close rt dn r)
  then show ?case by (simp add: Router_Close_def comp_def)
next
  case (st_exit rt dn r i)
  then show ?case using update_shard_events [OF st_exit.hyps(3), of "\<lambda>s. s\<lparr>quit := True\<rparr>" 0] by simp
next
  case (st_abandon rt dn r i k)
  then show ?case
    using update_shard_events [OF st_abandon.hyps(2), of "\<lambda>s. s\<lparr>inflight := remove1 k (inflight s)\<rparr>" 0] by simp
qed

section \<open>A concrete run\<close>

text \<open>
  One shard; a delta for a symbol seen for the first time is routed and handled, so it is
  buffered and a snapshot is asked for; then the snapshot arrives and the delta is replayed.
\<close>

definition ex_cfg :: RouterConfig where
  "ex_cfg = \<lparr>Shards = 1, QueueCap = 2, BufferCap = 4, has_Snapshots = True, RetryDelay = 0,
     has_TickToBook = True, has_Resync = True\<rparr>"

definition ex_event :: Event where
  "ex_event = zero_Event\<lparr>Kind := KindBookDelta, ev_BookDelta := zero_BookDelta\<lparr>delta_Symbol := ''A-B'',
     FirstID := 6, delta_LastID := 6, delta_Bids := [\<lparr>Price = 10, Qty = 3\<rparr>]\<rparr>\<rparr>"

definition ex_snap :: Snapshot where
  "ex_snap = zero_Snapshot\<lparr>snap_Symbol := ''A-B'', snap_LastID := 5, snap_Bids := [\<lparr>Price = 10, Qty = 1\<rparr>]\<rparr>"

definition ex_new :: Router where
  "ex_new = \<lparr>shards = [new_shard ex_cfg 0], started = True, closeOnce = False\<rparr>"

definition ex_routed :: Router where
  "ex_routed = update_shard ex_new 0 (\<lambda>s. s\<lparr>inq := inq s @ [ex_event]\<rparr>)"

definition ex_handled :: Router where
  "ex_handled = update_shard ex_routed 0 (\<lambda>s. handle 7 ex_event (s\<lparr>inq := []\<rparr>))"

definition ex_synced :: Router where
  "ex_synced = update_shard ex_handled 0 (deliver 9 \<lparr>res_symbol = ''A-B'', res_snapshot = Inr ex_snap\<rparr>)"

definition ex_bids :: "Symbol \<Rightarrow> venue_side" where
  "ex_bids sy k p = (if p = 10 then if 6 \<le> k then 3 else 1 else 0)"

definition ex_asks :: "Symbol \<Rightarrow> venue_side" where
  "ex_asks sy k p = 0"

lemma shardIndex_1 [simp]: "shardIndex k (Suc 0) = 0"
  using shardIndex_less [of 1 k] by simp

lemma ex_feed:
  "delta_faithful (ex_bids sy) (ex_asks sy) (ev_BookDelta ex_event)" "snap_faithful (ex_bids sy) (ex_asks sy) ex_snap"
  by (auto simp: ex_event_def ex_snap_def delta_faithful_def snap_faithful_def levels_faithful_def delta_i64_def
      in_i64_def MinInt64_def MaxInt64_def zero_BookDelta_def zero_Snapshot_def zero_Event_def ex_bids_def ex_asks_def)

abbreviation ex_run :: "bool \<Rightarrow> Event list \<Rightarrow> Event list \<Rightarrow> Router \<Rightarrow> bool" where
  "ex_run x \<equiv> router_run 4 ex_cfg x (\<lambda>sy. delta_faithful (ex_bids sy) (ex_asks sy))
     (\<lambda>sy. snap_faithful (ex_bids sy) (ex_asks sy))"

lemma ex_routed_run:
  assumes "event_ok x D S ex_event"
  shows "router_run 4 ex_cfg x D S [ex_event] [] ex_routed"
proof -
  have "NewRouter 4 ex_cfg = Inr (ex_new\<lparr>started := False\<rparr>)"
    by (simp add: NewRouter_def ex_cfg_def ex_new_def)
  then have "router_run 4 ex_cfg x D S [] [] (ex_new\<lparr>started := False\<rparr>)"
    by (rule st_new) (simp_all add: ex_cfg_def in_i64_def MinInt64_def MaxInt64_def)
  then have "router_run 4 ex_cfg x D S [] [] ex_new"
    by (rule st_start) (simp add: Router_Start_def ex_new_def)
  then have "router_run 4 ex_cfg x D S ([] @ [ex_event]) [] ex_routed"
    by (rule st_route [where cx = None, OF _ assms])
       (simp_all add: ex_event_def Route_def eventSymbol_def ex_new_def
         new_shard_def ex_cfg_def ex_routed_def update_shard_def zero_Event_def zero_BookDelta_def)
  then show ?thesis by simp
qed

lemma ex_run_routed: "ex_run x [ex_event] [] ex_routed"
  by (rule ex_routed_run) (simp add: event_ok_def ex_feed, simp add: ex_event_def)

lemma ex_run_handled: "ex_run x [ex_event] [ex_event] ex_handled"
proof -
  have "ex_run x [ex_event] ([] @ [ex_event]) ex_handled"
    unfolding ex_handled_def
    by (rule st_event [OF ex_run_routed]) (simp_all add: ex_routed_def update_shard_def ex_new_def new_shard_def)
  then show ?thesis by simp
qed

lemma ex_handled_facts:
  "length (shards ex_handled) = 1" "\<not> quit (shards ex_handled ! 0)" "inflight (shards ex_handled ! 0) = [''A-B'']"
  "(case books (shards ex_handled ! 0) ''A-B'' of None \<Rightarrow> False | Some t \<Rightarrow> \<not> Live t)"
  by code_simp+

lemma ex_run_synced: "ex_run x [ex_event] [ex_event] ex_synced"
  unfolding ex_synced_def by (rule st_result [OF ex_run_handled]) (auto simp: ex_handled_facts ex_feed)

lemma ex_synced_facts:
  "length (shards ex_synced) = 1" "\<not> quit (shards ex_synced ! 0)"
  "(case books (shards ex_synced ! 0) ''A-B'' of None \<Rightarrow> False | Some t \<Rightarrow> Live t \<and> bidFloor t = 0)"
  "(case snd (Query patient ''A-B'' 3 ex_synced) of Inr (View v) \<Rightarrow> view_Live v \<and> view_LastID v = 6 \<and>
      view_Bids v = [\<lparr>Price = 10, Qty = 3\<rparr>] \<and> view_Asks v = [] | _ \<Rightarrow> False)"
  by code_simp+

section \<open>A stage that is open\<close>

text \<open>Started and not closed: what the commands keep until they are done, and what a question needs.\<close>

definition open_router :: "Router \<Rightarrow> bool" where
  "open_router r \<longleftrightarrow> started r \<and> (\<forall>i<length (shards r). \<not> quit (shards r ! i) \<and> \<not> inq_closed (shards r ! i))"

lemma open_router_start: "NewRouter numCPU cfg = Inr r \<Longrightarrow> Router_Start r = Inr r' \<Longrightarrow> open_router r'"
  by (auto simp: NewRouter_def Router_Start_def open_router_def new_shard_def Let_def split: if_splits)

lemma open_router_update:
  assumes "open_router r" and "quit (f (shards r ! i)) = quit (shards r ! i)" and "inq_closed (f (shards r ! i)) = inq_closed (shards r ! i)"
  shows "open_router (update_shard r i f)"
proof -
  have "quit ((shards r)[i := f (shards r ! i)] ! j) = quit (shards r ! j)"
    and "inq_closed ((shards r)[i := f (shards r ! i)] ! j) = inq_closed (shards r ! j)" if "j < length (shards r)" for j
    using that assms(2,3) by (cases "j = i"; simp)+
  with assms(1) show ?thesis by (simp add: open_router_def update_shard_def)
qed

lemma open_router_Route: "open_router r \<Longrightarrow> Route cx ev r = Inr (Some r') \<Longrightarrow> open_router r'"
  by (auto simp: Route_def Let_def intro!: open_router_update split: option.splits if_splits)

lemma fetch_lifecycle [simp]: "quit (fetch now k s) = quit s" "inq_closed (fetch now k s) = inq_closed s"
  by (simp_all add: fetch_def Let_def split: option.split prod.split)

lemma load_lifecycle [simp]: "quit (load now k snap s) = quit s" "inq_closed (load now k snap s) = inq_closed s"
  by (simp_all add: load_def load_outcome_def Let_def split: option.split prod.split tracker_error.split)

lemma tracker_lifecycle [simp]: "quit (tracker now k s) = quit s" "inq_closed (tracker now k s) = inq_closed s"
  by (simp_all add: tracker_def split: option.split)

lemma handle_lifecycle [simp]: "quit (handle now ev s) = quit s" "inq_closed (handle now ev s) = inq_closed s"
  by (simp_all add: handle_def handle_delta_def count_status_def Let_def split: EventKind.split option.split prod.split sum.split Status.split)

lemma deliver_lifecycle [simp]: "quit (deliver now res s) = quit s" "inq_closed (deliver now res s) = inq_closed s"
  by (simp_all add: deliver_def complete_def split: option.split sum.split)

lemma open_router_ask: "open_router r \<Longrightarrow> open_router (fst (ask cx q r))"
  by (auto simp: ask_def Let_def answer_frame intro!: open_router_update split: option.split)

definition book_of :: "Router \<Rightarrow> Symbol \<Rightarrow> Tracker option" where
  "book_of r sy = books (shards r ! shardIndex sy (length (shards r))) sy"

definition serving :: "Router \<Rightarrow> bool" where
  "serving r \<longleftrightarrow> open_router r \<and> 0 < length (shards r) \<and> length (shards r) < 2 ^ 63"

text \<open>Asking counts the question and leaves the books alone.\<close>

lemma book_of_ask:
  assumes "serving r"
  shows "book_of (fst (ask cx q r)) sy = book_of r sy"
proof -
  let ?i = "shardIndex (q_symbol q) (length (shards r))" and ?j = "shardIndex sy (length (shards r))"
  have "?i < length (shards r)" using shardIndex_less assms by (simp add: serving_def)
  then have "books ((shards r)[?i := fst (answer q (shards r ! ?i))] ! ?j) = books (shards r ! ?j)"
    by (simp add: nth_list_update answer_frame)
  then show ?thesis by (simp add: book_of_def ask_def Let_def update_shard_def split: option.split)
qed

lemma serving_ask: "serving r \<Longrightarrow> serving (fst (ask cx q r))"
  by (simp add: serving_def open_router_ask) (simp add: ask_def Let_def update_shard_def split: option.split)

section \<open>The top of a sound side\<close>

lemma side_top_venue:
  assumes "side_inv s" and "side_sound K (qty_at (levels s)) V"
  shows "l \<in> set (side_top s n) \<Longrightarrow> Qty l = V (Price l) \<and> Qty l \<noteq> 0"
    and "ordered (desc s) (side_top s n)"
    and "l \<in> set (side_top s n) \<Longrightarrow> rank (desc s) p \<le> rank (desc s) (Price l) \<Longrightarrow> K p \<Longrightarrow> V p \<noteq> 0 \<Longrightarrow>
      \<exists>m\<in>set (side_top s n). Price m = p"
    and "int (length (side_top s n)) \<le> max 0 n"
proof -
  let ?ls = "levels s" and ?R = "\<lambda>a b. rank (desc s) (Price a) < rank (desc s) (Price b)"
  have ord: "ordered (desc s) ?ls" and sw: "sorted_wrt ?R ?ls" and pos: "\<forall>l\<in>set ?ls. 0 < Qty l"
    using assms(1) by (auto simp: side_inv_def ordered_def)
  have known: "\<And>p. K p \<Longrightarrow> qty_at ?ls p = V p" and held: "\<And>p. qty_at ?ls p \<noteq> 0 \<Longrightarrow> qty_at ?ls p = V p"
    using assms(2) unfolding side_sound_def by blast+
  show "ordered (desc s) (side_top s n)" and "int (length (side_top s n)) \<le> max 0 n"
    using sw by (auto simp: side_top_take ordered_def sorted_wrt_take)
  assume "l \<in> set (side_top s n)"
  then have l: "l \<in> set (take (nat n) ?ls)" by (simp add: side_top_take)
  then have "l \<in> set ?ls" by (rule in_set_takeD)
  then have "qty_at ?ls (Price l) = Qty l" "Qty l \<noteq> 0" using ordered_qty_at [OF ord] pos by auto
  with held [of "Price l"] show "Qty l = V (Price l) \<and> Qty l \<noteq> 0" by simp
  assume p: "rank (desc s) p \<le> rank (desc s) (Price l)" "K p" "V p \<noteq> 0"
  then have "0 \<noteq> qty_at ?ls p" using known by simp
  then have "p \<in> prices ?ls" using qty_at_notin [of p ?ls] by fastforce
  then obtain m where m: "m \<in> set ?ls" "Price m = p" by (auto simp: prices_def)
  have "m \<notin> set (drop (nat n) ?ls)"
  proof
    assume d: "m \<in> set (drop (nat n) ?ls)"
    then have "nat n \<le> length ?ls" by (cases "nat n \<le> length ?ls") simp_all
    from sorted_wrt_take_drop [OF sw this l d] p(1) m(2) show False by simp
  qed
  with m(1) have "m \<in> set (side_top s n)"
    unfolding side_top_take by (metis Un_iff append_take_drop_id set_append)
  with m(2) show "\<exists>m\<in>set (side_top s n). Price m = p" by blast
qed

section \<open>Properties\<close>

lemma running_slot:
  assumes "router_run numCPU cfg x D S rt dn r" and "i < length (shards r)" and "\<not> quit (shards r ! i)"
    and "books (shards r ! i) sy = Some t"
  shows "tracker_run (D sy) (S sy) sy (BufferCap cfg) t" and "\<not> Live t \<Longrightarrow> 0 < in_flight (shards r ! i) sy"
    and "x \<Longrightarrow> in_flight (shards r ! i) sy \<le> 1"
proof -
  have "shard_ok cfg x D S rt dn (length (shards r)) i (shards r ! i)"
    using router_invD(1) [OF router_run_inv [OF assms(1)] assms(2)] .
  then have "slot_inv x D S (shards r ! i) sy" and "bufferCap (shards r ! i) = BufferCap cfg"
    using assms(3) by (simp_all add: shard_ok_def shard_inv_def)
  with assms(4) show "tracker_run (D sy) (S sy) sy (BufferCap cfg) t" and "\<not> Live t \<Longrightarrow> 0 < in_flight (shards r ! i) sy"
    and "x \<Longrightarrow> in_flight (shards r ! i) sy \<le> 1"
    by (auto simp: slot_inv_def)
qed

lemma routed_split:
  assumes "router_run numCPU cfg x D S rt dn r"
  shows "filter (\<lambda>ev. eventSymbol ev = Some sy) rt =
      filter (\<lambda>ev. eventSymbol ev = Some sy) dn
      @ filter (\<lambda>ev. eventSymbol ev = Some sy) (inq (shards r ! shardIndex sy (length (shards r))))"
proof -
  note inv = router_run_inv [OF assms]
  let ?n = "length (shards r)" and ?i = "shardIndex sy (length (shards r))"
  have own: "filter (\<lambda>ev. eventSymbol ev = Some sy) (filter (\<lambda>ev. owner ?n ev = ?i) evs) =
      filter (\<lambda>ev. eventSymbol ev = Some sy) evs" for evs
    by (auto simp: owner_def intro!: filter_cong)
  have "filter (\<lambda>ev. owner ?n ev = ?i) rt = filter (\<lambda>ev. owner ?n ev = ?i) dn @ inq (shards r ! ?i)"
    using router_invD(1) [OF inv router_invD(2) [OF inv]] unfolding shard_ok_def by blast
  from arg_cong [OF this, of "filter (\<lambda>ev. eventSymbol ev = Some sy)"] show ?thesis
    unfolding filter_append own .
qed

text \<open>
  C3. The stage is lossless and keeps each symbol's order. In every interleaving, for each symbol,
  the events \<open>Route\<close> accepted are exactly those already handled, in the same order, followed by
  those still queued in the one shard that owns the symbol, in the same order: no event is
  dropped, duplicated or overtaken. No queue is ever longer than its capacity. And a shard that
  has returned has handled every event accepted for it.
\<close>

theorem router_lossless_in_order:
  assumes "router_run numCPU cfg x D S rt dn r"
  shows "(\<forall>sy. filter (\<lambda>ev. eventSymbol ev = Some sy) rt =
      filter (\<lambda>ev. eventSymbol ev = Some sy) dn
      @ filter (\<lambda>ev. eventSymbol ev = Some sy) (inq (shards r ! shardIndex sy (length (shards r)))))
    \<and> (\<forall>d\<in>set (QueueDepth r). d \<le> QueueCap cfg)
    \<and> (\<forall>s\<in>set (shards r). quit s \<longrightarrow> inq s = [])"
proof (intro conjI allI)
  note inv = router_run_inv [OF assms]
  show "\<forall>s\<in>set (shards r). quit s \<longrightarrow> inq s = []" and "\<forall>d\<in>set (QueueDepth r). d \<le> QueueCap cfg"
    using router_invD(1) [OF inv] by (auto simp: QueueDepth_def in_set_conv_nth shard_ok_def)
qed (rule routed_split [OF assms])

text \<open>C3 on the run that has routed one delta and not handled it yet.\<close>

theorem router_lossless_in_order_witness:
  "ex_run True [ex_event] [] ex_routed
   \<and> filter (\<lambda>ev. eventSymbol ev = Some ''A-B'') (inq (shards ex_routed ! 0)) = [ex_event]"
proof -
  have "eventSymbol ex_event = Some ''A-B''"
    by (simp add: ex_event_def eventSymbol_def zero_Event_def zero_BookDelta_def)
  moreover have "length (shards ex_routed) = 1" by (simp add: ex_routed_def ex_new_def update_shard_def)
  ultimately show ?thesis
    using router_lossless_in_order [OF ex_run_routed [of True], THEN conjunct1, THEN spec, of "''A-B''"]
      ex_run_routed [of True] by simp
qed

section \<open>Closing\<close>

definition all_closed :: "Router \<Rightarrow> bool" where
  "all_closed r \<longleftrightarrow> started r \<and> (\<forall>i<length (shards r). inq_closed (shards r ! i))"

definition queued :: "Router \<Rightarrow> nat" where
  "queued r = sum_list (map (\<lambda>s. length (inq s)) (shards r))"

lemma all_closed_update: "all_closed r \<Longrightarrow> inq_closed (f (shards r ! i)) = inq_closed (shards r ! i) \<Longrightarrow> all_closed (update_shard r i f)"
  by (simp add: all_closed_def update_shard_def) (metis nth_list_update_eq nth_list_update_neq)

definition requested :: "Router \<Rightarrow> nat" where
  "requested r = sum_list (map (\<lambda>s. length (inflight s)) (shards r))"

text \<open>
  What closing needs of the goroutines of the stage: whatever states are reachable, a running shard may
  take an event from its queue, a shard whose queue is closed and empty may return, the goroutine of a
  request may give up once the shard has returned, and a shard that has returned left nothing queued.
\<close>

locale closing_stage =
  fixes reach :: "Event list \<Rightarrow> Router \<Rightarrow> bool"
  assumes reach_event: "reach dn r \<Longrightarrow> started r \<Longrightarrow> i < length (shards r) \<Longrightarrow> \<not> quit (shards r ! i) \<Longrightarrow>
      inq (shards r ! i) = ev # rest \<Longrightarrow> reach (dn @ [ev]) (update_shard r i (\<lambda>s. handle now ev (s\<lparr>inq := rest\<rparr>)))"
    and reach_exit: "reach dn r \<Longrightarrow> started r \<Longrightarrow> i < length (shards r) \<Longrightarrow> \<not> quit (shards r ! i) \<Longrightarrow> inq (shards r ! i) = [] \<Longrightarrow>
      inq_closed (shards r ! i) \<Longrightarrow> reach dn (update_shard r i (\<lambda>s. s\<lparr>quit := True\<rparr>))"
    and reach_abandon: "reach dn r \<Longrightarrow> i < length (shards r) \<Longrightarrow> quit (shards r ! i) \<Longrightarrow> k \<in> set (inflight (shards r ! i)) \<Longrightarrow>
      reach dn (update_shard r i (\<lambda>s. s\<lparr>inflight := remove1 k (inflight s)\<rparr>))"
    and reach_quit: "reach dn r \<Longrightarrow> i < length (shards r) \<Longrightarrow> quit (shards r ! i) \<Longrightarrow> inq (shards r ! i) = []"
begin

text \<open>The loops take what is queued; every turn leaves one event less.\<close>

lemma drain_queues:
  assumes "reach dn r" and "all_closed r"
  shows "\<exists>dn' r'. reach dn' r' \<and> all_closed r' \<and> queued r' = 0 \<and> length (shards r') = length (shards r)"
  using assms
proof (induction "queued r" arbitrary: dn r rule: less_induct)
  case less
  show ?case
  proof (cases "queued r = 0")
    case False
    then obtain i where i: "i < length (shards r)" "inq (shards r ! i) \<noteq> []"
      by (auto simp: queued_def in_set_conv_nth)
    then obtain ev rest where q: "inq (shards r ! i) = ev # rest" by (cases "inq (shards r ! i)") auto
    have "\<not> quit (shards r ! i)" using reach_quit [OF less.prems(1) i(1)] i(2) by blast
    moreover have "started r" using less.prems(2) by (simp add: all_closed_def)
    ultimately have run: "reach (dn @ [ev]) (update_shard r i (\<lambda>s. handle 0 ev (s\<lparr>inq := rest\<rparr>)))"
      using reach_event [OF less.prems(1) _ i(1) _ q] by blast
    have "queued (update_shard r i (\<lambda>s. handle 0 ev (s\<lparr>inq := rest\<rparr>))) + length (inq (shards r ! i)) = queued r + length rest"
      using sum_list_map_update [OF i(1), of "\<lambda>s. length (inq s)" "handle 0 ev ((shards r ! i)\<lparr>inq := rest\<rparr>)"]
      by (simp add: queued_def update_shard_def)
    then have "queued (update_shard r i (\<lambda>s. handle 0 ev (s\<lparr>inq := rest\<rparr>))) < queued r" using q by simp
    from less.hyps [OF this run] less.prems(2) show ?thesis by (simp add: all_closed_update) (simp add: update_shard_def)
  qed (use less.prems in blast)
qed

lemma exit_shards:
  assumes "reach dn r" and "all_closed r" and "queued r = 0" and "n \<le> length (shards r)"
  shows "\<exists>r'. reach dn r' \<and> all_closed r' \<and> queued r' = 0 \<and> length (shards r') = length (shards r)
    \<and> (\<forall>i<n. quit (shards r' ! i))"
  using assms(4)
proof (induction n)
  case 0
  then show ?case using assms(1-3) by blast
next
  case (Suc n)
  then obtain r' where r': "reach dn r'" "all_closed r'" "queued r' = 0"
    "length (shards r') = length (shards r)" "\<forall>i<n. quit (shards r' ! i)" by auto
  let ?r = "update_shard r' n (\<lambda>s. s\<lparr>quit := True\<rparr>)"
  have n: "n < length (shards r')" using Suc.prems r'(4) by simp
  have idle: "?r = r'" if "quit (shards r' ! n)" using that by (simp add: update_shard_def list_update_same_conv n)
  have "inq (shards r' ! n) = []" using r'(3) n by (simp add: queued_def)
  then have "reach dn ?r" using r'(1,2) n idle reach_exit [OF r'(1) _ n] by (cases "quit (shards r' ! n)") (simp_all add: all_closed_def)
  moreover have "queued ?r = 0"
    using r'(3) n sum_list_map_update [OF n, of "\<lambda>s. length (inq s)" "(shards r' ! n)\<lparr>quit := True\<rparr>"]
    by (simp add: queued_def update_shard_def)
  moreover have "\<forall>i<Suc n. quit (shards ?r ! i)" using r'(5) n by (auto simp: update_shard_def nth_list_update less_Suc_eq)
  moreover have "all_closed ?r" by (rule all_closed_update [OF r'(2)]) simp
  ultimately show ?case using r'(4) by (intro exI [of _ ?r]) (simp add: update_shard_def)
qed

text \<open>Once the shards have returned, the requests in flight give up one by one.\<close>

lemma abandon_requests:
  assumes "reach dn r" and "\<forall>i<length (shards r). quit (shards r ! i)"
  shows "\<exists>r'. reach dn r' \<and> requested r' = 0 \<and> length (shards r') = length (shards r) \<and> (\<forall>i<length (shards r'). quit (shards r' ! i))"
  using assms
proof (induction "requested r" arbitrary: r rule: less_induct)
  case less
  show ?case
  proof (cases "requested r = 0")
    case False
    then obtain s where s: "s \<in> set (shards r)" "inflight s \<noteq> []" by (auto simp: requested_def)
    define k where "k = hd (inflight s)"
    from s obtain i where i: "i < length (shards r)" "k \<in> set (inflight (shards r ! i))"
      unfolding k_def by (metis in_set_conv_nth list.set_sel(1))
    let ?f = "\<lambda>s. s\<lparr>inflight := remove1 k (inflight s)\<rparr>"
    have run: "reach dn (update_shard r i ?f)" using i less.prems by (intro reach_abandon) simp_all
    have "requested (update_shard r i ?f) + length (inflight (shards r ! i)) = requested r + length (remove1 k (inflight (shards r ! i)))"
      using sum_list_map_update [OF i(1), of "\<lambda>s. length (inflight s)" "?f (shards r ! i)"] by (simp add: requested_def update_shard_def)
    moreover have "length (remove1 k (inflight (shards r ! i))) < length (inflight (shards r ! i))"
      using i(2) length_pos_if_in_set [OF i(2)] by (simp add: length_remove1)
    ultimately have "requested (update_shard r i ?f) < requested r" by linarith
    moreover have "\<forall>j<length (shards (update_shard r i ?f)). quit (shards (update_shard r i ?f) ! j)"
      using less.prems(2) i(1) by (auto simp: update_shard_def nth_list_update)
    ultimately show ?thesis using less.hyps [OF _ run] by (auto simp: update_shard_def)
  qed (use less.prems in blast)
qed

lemma close_completes:
  assumes "reach dn r" and "all_closed r"
  shows "\<exists>dn' r'. reach dn' r' \<and> length (shards r') = length (shards r)
    \<and> (\<forall>s\<in>set (shards r'). quit s \<and> inq s = [] \<and> inflight s = [])"
proof -
  obtain dn' r1 where r1: "reach dn' r1" "all_closed r1" "queued r1 = 0" "length (shards r1) = length (shards r)"
    using drain_queues [OF assms] by blast
  then obtain r2 where r2: "reach dn' r2" "length (shards r2) = length (shards r)" "\<forall>i<length (shards r2). quit (shards r2 ! i)"
    using exit_shards [OF r1(1-3) order_refl] by auto
  then obtain r' where r': "reach dn' r'" "requested r' = 0" "length (shards r') = length (shards r)" "\<forall>i<length (shards r'). quit (shards r' ! i)"
    using abandon_requests [OF r2(1,3)] by auto
  have "quit s \<and> inq s = [] \<and> inflight s = []" if "s \<in> set (shards r')" for s
    using that r'(2,4) reach_quit [OF r'(1)] by (auto simp: requested_def in_set_conv_nth)
  with r' show ?thesis by blast
qed

end

lemma inflight_fetch: "length (inflight (fetch now k s)) =
    length (inflight s) + of_bool (\<exists>t. books s k = Some t \<and> \<not> fetching t \<and> \<not> Live t)"
  by (auto simp: fetch_def BeginFetch_def Live_def Let_def split: option.split)

lemma inflight_load: "length (inflight (load now k snap s)) =
    length (inflight s) + of_bool (\<exists>t. books s k = Some t \<and> \<not> Live (fst (Load t snap)))"
proof (cases "books s k")
  case (Some t)
  obtain t' err where l: "Load t snap = (t', err)" by (cases "Load t snap")
  then have "\<not> fetching t'" using fetching_Load [of t snap] by simp
  with Some l show ?thesis by (simp add: load_def inflight_fetch)
qed (simp add: load_def)

lemma inflight_tracker: "length (inflight (tracker now k s)) \<le> length (inflight s) + 1"
  by (simp add: tracker_def inflight_fetch split: option.split)

lemma inflight_handle: "length (inflight (handle now ev s)) \<le> length (inflight s) + 2"
proof -
  let ?s = "s\<lparr>events := events s + 1\<rparr>"
  have d: "length (inflight (handle_delta now ev d ?s)) \<le> length (inflight s) + 2" for d
    using inflight_tracker [of now "delta_Symbol d" ?s]
    by (auto simp: handle_delta_def Let_def inflight_fetch split: option.split prod.split)
  have "length (inflight (load now k snap (tracker now k ?s))) \<le> length (inflight s) + 2" for k snap
    using inflight_tracker [of now k ?s] by (simp add: inflight_load)
  with d show ?thesis by (simp add: handle_def Let_def split: EventKind.split)
qed

lemma queued_update:
  "i < length (shards r) \<Longrightarrow> queued (update_shard r i f) + length (inq (shards r ! i)) = queued r + length (inq (f (shards r ! i)))"
  using sum_list_map_update [of i "shards r" "\<lambda>s. length (inq s)" "f (shards r ! i)"] by (simp add: queued_def update_shard_def)

lemma requested_update:
  "i < length (shards r) \<Longrightarrow> requested (update_shard r i f) + length (inflight (shards r ! i)) = requested r + length (inflight (f (shards r ! i)))"
  using sum_list_map_update [of i "shards r" "\<lambda>s. length (inflight s)" "f (shards r ! i)"] by (simp add: requested_def update_shard_def)

text \<open>
  One step of a stage that is closing, with the events handled so far. The steps of the goroutines \<open>Close\<close>
  waits for are those with the argument true; results that come back and queries are the others.
\<close>

inductive loop_step :: "(Symbol \<Rightarrow> Snapshot \<Rightarrow> bool) \<Rightarrow> bool \<Rightarrow> Event list \<times> Router \<Rightarrow> Event list \<times> Router \<Rightarrow> bool" for S where
  ls_event: "started r \<Longrightarrow> i < length (shards r) \<Longrightarrow> \<not> quit (shards r ! i) \<Longrightarrow> inq (shards r ! i) = ev # rest \<Longrightarrow>
    loop_step S True (dn, r) (dn @ [ev], update_shard r i (\<lambda>s. handle now ev (s\<lparr>inq := rest\<rparr>)))"
| ls_exit: "started r \<Longrightarrow> i < length (shards r) \<Longrightarrow> \<not> quit (shards r ! i) \<Longrightarrow> inq (shards r ! i) = [] \<Longrightarrow> inq_closed (shards r ! i) \<Longrightarrow>
    loop_step S True (dn, r) (dn, update_shard r i (\<lambda>s. s\<lparr>quit := True\<rparr>))"
| ls_abandon: "i < length (shards r) \<Longrightarrow> quit (shards r ! i) \<Longrightarrow> k \<in> set (inflight (shards r ! i)) \<Longrightarrow>
    loop_step S True (dn, r) (dn, update_shard r i (\<lambda>s. s\<lparr>inflight := remove1 k (inflight s)\<rparr>))"
| ls_result: "i < length (shards r) \<Longrightarrow> \<not> quit (shards r ! i) \<Longrightarrow> res_symbol res \<in> set (inflight (shards r ! i)) \<Longrightarrow>
    (\<And>snap. res_snapshot res = Inr snap \<Longrightarrow> S (res_symbol res) snap) \<Longrightarrow>
    loop_step S False (dn, r) (dn, update_shard r i (deliver now res))"
| ls_query: "started r \<Longrightarrow> loop_step S False (dn, r) (dn, fst (ask cx q r))"

inductive_cases loop_stepE: "loop_step S own c c'"

text \<open>A run, with the number of steps of those goroutines.\<close>

inductive loop_run :: "(Symbol \<Rightarrow> Snapshot \<Rightarrow> bool) \<Rightarrow> nat \<Rightarrow> Event list \<times> Router \<Rightarrow> Event list \<times> Router \<Rightarrow> bool" for S where
  lr_none: "loop_run S 0 c c"
| lr_own: "loop_run S n c c' \<Longrightarrow> loop_step S True c' c'' \<Longrightarrow> loop_run S (Suc n) c c''"
| lr_other: "loop_run S n c c' \<Longrightarrow> loop_step S False c' c'' \<Longrightarrow> loop_run S n c c''"

lemma loop_step_run:
  assumes "loop_step S own c c'" and "router_run numCPU cfg x D S rt (fst c) (snd c)"
  shows "router_run numCPU cfg x D S rt (fst c') (snd c')"
  using assms by (cases rule: loop_step.cases) (auto intro: st_event st_exit st_abandon st_result st_query)

text \<open>What is left to do on a shard: events, requests in flight, the return.\<close>

definition shard_rank :: "shard \<Rightarrow> nat" where
  "shard_rank s = 3 * length (inq s) + length (inflight s) + of_bool (\<not> quit s)"

definition close_rank :: "Router \<Rightarrow> nat" where
  "close_rank r = sum_list (map shard_rank (shards r))"

lemma close_rank_eq: "close_rank r \<le> 3 * queued r + requested r + length (shards r)"
proof -
  have "sum_list (map shard_rank ss) \<le> 3 * sum_list (map (\<lambda>s. length (inq s)) ss) + sum_list (map (\<lambda>s. length (inflight s)) ss) + length ss" for ss
    by (induction ss) (simp_all add: shard_rank_def)
  then show ?thesis by (simp add: close_rank_def queued_def requested_def)
qed

lemma close_rank_update:
  "i < length (shards r) \<Longrightarrow> close_rank (update_shard r i f) + shard_rank (shards r ! i) = close_rank r + shard_rank (f (shards r ! i))"
  using sum_list_map_update [of i "shards r" shard_rank "f (shards r ! i)"] by (simp add: close_rank_def update_shard_def)

lemma shard_rank_handle: "inq s = ev # rest \<Longrightarrow> shard_rank (handle now ev (s\<lparr>inq := rest\<rparr>)) < shard_rank s"
  using inflight_handle [of now ev "s\<lparr>inq := rest\<rparr>"] by (simp add: shard_rank_def)

lemma shard_rank_deliver:
  assumes "res_symbol res \<in> set (inflight s)"
  shows "shard_rank (deliver now res s) \<le> shard_rank s"
proof -
  let ?s = "s\<lparr>inflight := remove1 (res_symbol res) (inflight s)\<rparr>"
  have "length (inflight ?s) + 1 = length (inflight s)"
    using assms length_pos_if_in_set [OF assms] by (simp add: length_remove1)
  then have "length (inflight (deliver now res s)) \<le> length (inflight s)"
    by (auto simp: deliver_def complete_def inflight_fetch inflight_load split: option.split sum.split)
  then show ?thesis by (simp add: shard_rank_def)
qed

lemma loop_step_rank:
  assumes "loop_step S own c c'"
  shows "close_rank (snd c') + of_bool own \<le> close_rank (snd c)"
  using assms
proof cases
  case (ls_event r i ev rest dn now)
  then show ?thesis using close_rank_update [of i r "\<lambda>s. handle now ev (s\<lparr>inq := rest\<rparr>)"] shard_rank_handle [of "shards r ! i" ev rest now] by simp
next
  case (ls_exit r i dn)
  then show ?thesis using close_rank_update [of i r "\<lambda>s. s\<lparr>quit := True\<rparr>"] by (simp add: shard_rank_def)
next
  case (ls_abandon i r k dn)
  then have "length (remove1 k (inflight (shards r ! i))) + 1 = length (inflight (shards r ! i))"
    using length_pos_if_in_set [of k "inflight (shards r ! i)"] by (simp add: length_remove1)
  with ls_abandon show ?thesis
    using close_rank_update [of i r "\<lambda>s. s\<lparr>inflight := remove1 k (inflight s)\<rparr>"] by (simp add: shard_rank_def)
next
  case (ls_result i r res dn now)
  then show ?thesis using close_rank_update [of i r "deliver now res"] shard_rank_deliver [of res "shards r ! i" now] by simp
next
  case (ls_query r dn cx q)
  have "close_rank (update_shard r i (\<lambda>s. fst (answer q s))) = close_rank r" for i
    using close_rank_update [of i r "\<lambda>s. fst (answer q s)"]
    by (cases "i < length (shards r)") (simp_all add: shard_rank_def answer_frame update_shard_def list_update_beyond)
  with ls_query show ?thesis by (simp add: ask_def Let_def split: option.split)
qed

lemma loop_step_closed: "loop_step S own c c' \<Longrightarrow> all_closed (snd c) \<Longrightarrow> all_closed (snd c')"
  by (cases rule: loop_step.cases, assumption)
     (auto simp: ask_def Let_def answer_frame intro!: all_closed_update split: option.split)

lemma loop_run_props:
  assumes "loop_run S n c c'" and "router_run numCPU cfg x D S rt (fst c) (snd c)" and "all_closed (snd c)"
  shows "router_run numCPU cfg x D S rt (fst c') (snd c') \<and> all_closed (snd c') \<and> n + close_rank (snd c') \<le> close_rank (snd c)"
  using assms
proof induction
  case (lr_own n c c' c'')
  then show ?case using loop_step_run [OF lr_own.hyps(2)] loop_step_closed [OF lr_own.hyps(2)] loop_step_rank [OF lr_own.hyps(2)] by fastforce
next
  case (lr_other n c c' c'')
  then show ?case using loop_step_run [OF lr_other.hyps(2)] loop_step_closed [OF lr_other.hyps(2)] loop_step_rank [OF lr_other.hyps(2)] by fastforce
qed simp

lemma loop_step_enabled:
  assumes "all_closed r" and "s \<in> set (shards r)" and "\<not> (quit s \<and> inflight s = [])"
  shows "\<exists>c. loop_step S True (dn, r) c"
proof -
  obtain i where i: "i < length (shards r)" "shards r ! i = s" using assms(2) by (auto simp: in_set_conv_nth)
  have st: "started r" "inq_closed s" using assms(1) i by (auto simp: all_closed_def)
  show ?thesis
  proof (cases "quit s")
    case True
    then show ?thesis using ls_abandon [of i r "hd (inflight s)" S dn] i assms(3) by auto
  next
    case False
    then show ?thesis using ls_event [of r i _ _ S dn 0] ls_exit [of r i S dn] i st by (cases "inq s") blast+
  qed
qed

interpretation stage: closing_stage "\<lambda>dn r. router_run numCPU cfg x D S rt dn r \<and> (\<exists>n. loop_run S n c (dn, r))" for numCPU cfg x D S rt c
proof (unfold_locales, goal_cases)
  case (1 dn r i ev rest now)
  then obtain n where "loop_run S n c (dn, r)" and run: "router_run numCPU cfg x D S rt dn r" by blast
  from lr_own [OF this(1) ls_event [OF 1(2-5)]] show ?case using st_event [OF run 1(2-5)] by blast
next
  case (2 dn r i)
  then obtain n where "loop_run S n c (dn, r)" and run: "router_run numCPU cfg x D S rt dn r" by blast
  from lr_own [OF this(1) ls_exit [OF 2(2-6)]] show ?case using st_exit [OF run 2(2,3,5,6)] by blast
next
  case (3 dn r i k)
  then obtain n where "loop_run S n c (dn, r)" and run: "router_run numCPU cfg x D S rt dn r" by blast
  from lr_own [OF this(1) ls_abandon [OF 3(2-4)]] show ?case using st_abandon [OF run 3(2-4)] by blast
next
  case (4 dn r i)
  then show ?case using router_invD(1) [OF router_run_inv [of numCPU cfg x D S rt dn r]] by (auto simp: shard_ok_def)
qed

text \<open>
  C19. Closing the stage ends, and drains it. Close a started stage in any reachable state, whatever is queued,
  in flight or being asked. In every interleaving of the shards' loops and the requests in flight
  with results that still come back and with queries: the goroutines \<open>Close\<close> waits for take at most three
  steps per queued event, one per request in flight and one per shard, while results and queries cost
  none. As long as one of them has not returned, one has a step to take; and when none has,
  every shard has returned with its queue empty, no request is in flight, and every event \<open>Route\<close> ever
  accepted has been handled, each symbol's in order. Such a run exists.
\<close>

theorem Router_Close_drains:
  assumes "router_run numCPU cfg x D S rt dn r" and "started r" and "\<not> closeOnce r"
  shows "(\<forall>n dn' r'. loop_run S n (dn, Router_Close r) (dn', r') \<longrightarrow>
        n \<le> 3 * queued r + requested r + length (shards r)
      \<and> ((\<nexists>c. loop_step S True (dn', r') c) \<longleftrightarrow> (\<forall>s\<in>set (shards r'). quit s \<and> inq s = [] \<and> inflight s = []))
      \<and> ((\<nexists>c. loop_step S True (dn', r') c) \<longrightarrow>
          (\<forall>sy. filter (\<lambda>ev. eventSymbol ev = Some sy) dn' = filter (\<lambda>ev. eventSymbol ev = Some sy) rt)))
    \<and> (\<exists>n dn' r'. loop_run S n (dn, Router_Close r) (dn', r') \<and> (\<nexists>c. loop_step S True (dn', r') c))"
proof -
  let ?c = "Router_Close r"
  have run: "router_run numCPU cfg x D S rt dn ?c" and cl: "all_closed ?c"
    using st_close [OF assms(1)] assms(2,3) by (auto simp: all_closed_def Router_Close_def)
  have rank: "close_rank ?c = close_rank r" using assms(2,3) by (simp add: close_rank_def Router_Close_def shard_rank_def [abs_def] comp_def)
  have stuck: "(\<nexists>c. loop_step S True (dn', r') c) \<longleftrightarrow> (\<forall>s\<in>set (shards r'). quit s \<and> inq s = [] \<and> inflight s = [])"
    if r': "router_run numCPU cfg x D S rt dn' r'" "all_closed r'" for dn' r'
  proof
    assume none: "\<nexists>c. loop_step S True (dn', r') c"
    have "inq s = []" if "s \<in> set (shards r')" "quit s" for s
      using that router_invD(1) [OF router_run_inv [OF r'(1)]] by (auto simp: shard_ok_def in_set_conv_nth)
    then show "\<forall>s\<in>set (shards r'). quit s \<and> inq s = [] \<and> inflight s = []" using none loop_step_enabled [OF r'(2)] by blast
  next
    assume "\<forall>s\<in>set (shards r'). quit s \<and> inq s = [] \<and> inflight s = []"
    then show "\<nexists>c. loop_step S True (dn', r') c" by (auto elim!: loop_stepE dest!: nth_mem)
  qed
  have handled: "filter (\<lambda>ev. eventSymbol ev = Some sy) dn' = filter (\<lambda>ev. eventSymbol ev = Some sy) rt"
    if "router_run numCPU cfg x D S rt dn' r'" "\<forall>s\<in>set (shards r'). quit s \<and> inq s = [] \<and> inflight s = []" for dn' r' sy
    using that(2) router_invD(2) [OF router_run_inv [OF that(1)]] routed_split [OF that(1), of sy] nth_mem by fastforce
  obtain n0 dn0 r0 where r0: "loop_run S n0 (dn, ?c) (dn0, r0)" "\<forall>s\<in>set (shards r0). quit s \<and> inq s = [] \<and> inflight s = []"
    using stage.close_completes [where c = "(dn, ?c)"] run cl lr_none by blast
  have props: "n \<le> 3 * queued r + requested r + length (shards r) \<and> router_run numCPU cfg x D S rt dn' r' \<and> all_closed r'"
    if "loop_run S n (dn, ?c) (dn', r')" for n dn' r'
    using loop_run_props [OF that, of numCPU cfg x D rt] run cl rank close_rank_eq [of r] by auto
  show ?thesis
  proof (intro conjI allI impI)
    show "\<exists>n dn' r'. loop_run S n (dn, ?c) (dn', r') \<and> (\<nexists>c. loop_step S True (dn', r') c)"
      using r0 props [OF r0(1)] stuck by blast
  qed (use props stuck handled in blast)+
qed

text \<open>C19 from the state with one delta queued.\<close>

theorem Router_Close_drains_witness:
  "\<exists>n dn' r'. loop_run (\<lambda>sy. snap_faithful (ex_bids sy) (ex_asks sy)) n ([], Router_Close ex_routed) (dn', r') \<and> list_all (\<lambda>s. quit s \<and> inq s = [] \<and> inflight s = []) (shards r')
    \<and> n \<le> 3 * queued ex_routed + requested ex_routed + length (shards ex_routed)
    \<and> filter (\<lambda>ev. eventSymbol ev = Some ''A-B'') dn' = [ex_event]"
proof -
  let ?S = "\<lambda>sy. snap_faithful (ex_bids sy) (ex_asks sy)"
  have "started ex_routed" "\<not> closeOnce ex_routed" by (simp_all add: ex_routed_def ex_new_def update_shard_def)
  moreover have "eventSymbol ex_event = Some ''A-B''"
    by (simp add: ex_event_def eventSymbol_def zero_Event_def zero_BookDelta_def)
  moreover obtain n dn' r' where run: "loop_run ?S n ([], Router_Close ex_routed) (dn', r')" and stuck: "\<nexists>c. loop_step ?S True (dn', r') c"
    using Router_Close_drains [OF ex_run_routed [of True] calculation(1,2)] by blast
  ultimately show ?thesis
    using Router_Close_drains [OF ex_run_routed [of True], THEN conjunct1, rule_format, OF _ _ run] stuck
    by (intro exI [of _ n] exI [of _ dn'] exI [of _ r']) (simp add: run list_all_iff)
qed

text \<open>
  C13. A stale book never waits for nothing. While a shard runs, whatever the interleaving of events,
  results and queries, a tracked book that is not live has a snapshot request in flight, so the
  loop will be given the snapshot (or the failure) that moves it on; and as long as snapshots only
  arrive as answers to requests, a symbol never has two requests in flight. A tracked book lives on
  the one shard its symbol hashes to.
\<close>

theorem stale_book_has_request:
  assumes "router_run numCPU cfg x D S rt dn r" and "i < length (shards r)" and "\<not> quit (shards r ! i)"
    and "books (shards r ! i) sy = Some t"
  shows "(\<not> Live t \<longrightarrow> sy \<in> set (inflight (shards r ! i)))
    \<and> (x \<longrightarrow> count_list (inflight (shards r ! i)) sy \<le> 1)
    \<and> i = shardIndex sy (length (shards r)) \<and> symbol (book t) = sy"
proof -
  note slot = running_slot [OF assms]
  have "i = shardIndex sy (length (shards r))"
    using router_invD(1) [OF router_run_inv [OF assms(1)] assms(2)] assms(4) unfolding shard_ok_def by blast
  moreover have "sy \<in> set (inflight (shards r ! i))" if "\<not> Live t"
  proof (rule ccontr)
    assume "sy \<notin> set (inflight (shards r ! i))"
    then have "in_flight (shards r ! i) sy = 0" by (simp add: in_flight_def count_list_0_iff)
    with slot(2) [OF that] show False by simp
  qed
  moreover have "x \<longrightarrow> count_list (inflight (shards r ! i)) sy \<le> 1"
    using slot(3) by (simp add: in_flight_def)
  ultimately show ?thesis using tracker_run_symbol [OF slot(1)] by blast
qed

text \<open>C13 on the run that has handled its first delta: the book is stale and its request is in flight.\<close>

theorem stale_book_has_request_witness:
  "\<exists>t. ex_run True [ex_event] [ex_event] ex_handled \<and> books (shards ex_handled ! 0) ''A-B'' = Some t \<and> \<not> Live t
    \<and> ''A-B'' \<in> set (inflight (shards ex_handled ! 0)) \<and> count_list (inflight (shards ex_handled ! 0)) ''A-B'' \<le> 1"
proof -
  obtain t where t: "books (shards ex_handled ! 0) ''A-B'' = Some t" "\<not> Live t"
    using ex_handled_facts(4) by (auto split: option.splits)
  have "0 < length (shards ex_handled)" by (simp add: ex_handled_facts)
  from stale_book_has_request [OF ex_run_handled [of True] this ex_handled_facts(2) t(1)] t ex_run_handled [of True]
  show ?thesis by blast
qed

text \<open>
  C2. What a query returns is what the exchange has. Feed the stage, in any interleaving and over any
  number of symbols and shards, with faithful deltas and faithful snapshots of each symbol. Then a
  view that says it is live lists, on each side, only levels the venue had at the update id the
  view reports, with the venue's quantity, best price first and without repetition, at most the
  requested depth; and it lists every venue level at least as good as one it lists, inside the
  range the book knows. Asking changes no book.
\<close>

theorem Query_live_view_is_venue:
  assumes "router_run numCPU cfg x (\<lambda>sy. delta_faithful (vb sy) (va sy)) (\<lambda>sy. snap_faithful (vb sy) (va sy)) rt dn r"
    and "books (shards r ! shardIndex sy (length (shards r))) sy = Some t"
    and "Query cx sy depth r = (r', Inr (View v))" and "view_Live v"
  shows "(\<forall>l\<in>set (view_Bids v). Qty l = vb sy (view_LastID v) (Price l) \<and> Qty l \<noteq> 0)
    \<and> (\<forall>l\<in>set (view_Asks v). Qty l = va sy (view_LastID v) (Price l) \<and> Qty l \<noteq> 0)
    \<and> sorted_wrt (\<lambda>a b. Price a > Price b) (view_Bids v) \<and> sorted_wrt (\<lambda>a b. Price a < Price b) (view_Asks v)
    \<and> (\<forall>l\<in>set (view_Bids v). \<forall>p\<ge>Price l. known_bid (bidFloor t) p \<and> vb sy (view_LastID v) p \<noteq> 0 \<longrightarrow>
        (\<exists>m\<in>set (view_Bids v). Price m = p))
    \<and> (\<forall>l\<in>set (view_Asks v). \<forall>p\<le>Price l. known_ask (askCeil t) p \<and> va sy (view_LastID v) p \<noteq> 0 \<longrightarrow>
        (\<exists>m\<in>set (view_Asks v). Price m = p))
    \<and> int (length (view_Bids v)) \<le> max 0 depth \<and> int (length (view_Asks v)) \<le> max 0 depth
    \<and> map books (shards r') = map books (shards r)"
proof -
  let ?i = "shardIndex sy (length (shards r))"
  note inv = router_run_inv [OF assms(1)]
  have run: "\<not> quit (shards r ! ?i)" and r': "r' = update_shard r ?i (\<lambda>s. fst (answer \<lparr>q_symbol = sy, q_depth = depth, q_check = None\<rparr> s))"
    using assms(3) by (auto simp: Query_def ask_def Let_def split: if_splits option.splits)
  have v: "v = \<lparr>view_Symbol = sy, view_Live = Live t, view_LastID = Tracker_LastID t,
      view_Crossed = Crossed (book t), view_Bids = Bids (book t) depth, view_Asks = Asks (book t) depth,
      view_BidDepth = BidDepth (book t), view_AskDepth = AskDepth (book t), view_Buffered = Buffered t,
      view_Stats = stats t\<rparr>"
    using assms(2,3) run by (simp add: Query_def ask_def answer_def Let_def split: option.splits)
  have "fed (vb sy) (va sy) sy (BufferCap cfg) t"
    by (rule running_slot(1) [OF assms(1) router_invD(2) [OF inv] run assms(2)])
  then have s: "tracker_inv t" "tracker_sound (vb sy) (va sy) t" using fed_sound by blast+
  then have bi: "side_inv (bids (book t))" "side_inv (asks (book t))" "desc (bids (book t))" "\<not> desc (asks (book t))"
    by (simp_all add: tracker_inv_def book_inv_def)
  have "book_sound (vb sy) (va sy) (bidFloor t) (askCeil t) (book t) (Tracker_LastID t)"
    using s(2) assms(4) v by (simp add: tracker_sound_def Live_iff Tracker_LastID_def LastID_def)
  then have so: "side_sound (known_bid (bidFloor t)) (bid_qty (book t)) (vb sy (Tracker_LastID t))"
    "side_sound (known_ask (askCeil t)) (ask_qty (book t)) (va sy (Tracker_LastID t))"
    by (simp_all add: book_sound_def)
  note b = side_top_venue [OF bi(1) so(1), where n = depth] and a = side_top_venue [OF bi(2) so(2), where n = depth]
  have "map books (shards r') = map books (shards r)"
    by (rule nth_equalityI) (auto simp: r' update_shard_def nth_list_update [OF router_invD(2) [OF inv]] answer_frame)
  moreover have "vb sy (Tracker_LastID t) (Price l) \<noteq> 0" if "l \<in> set (side_top (bids (book t)) depth)" for l
    using b(1) [OF that] by simp
  moreover have "va sy (Tracker_LastID t) (Price l) \<noteq> 0" if "l \<in> set (side_top (asks (book t)) depth)" for l
    using a(1) [OF that] by simp
  ultimately show ?thesis
    using a b bi(3,4) unfolding v by (simp add: Bids_def Asks_def ordered_def rank_def)
qed

text \<open>C2 on the run above: the view of the anchored book lists the quantity of update 6.\<close>

theorem Query_live_view_is_venue_witness:
  "\<exists>r' v. ex_run True [ex_event] [ex_event] ex_synced \<and> Query patient ''A-B'' 3 ex_synced = (r', Inr (View v)) \<and> view_Live v
    \<and> set (view_Bids v) \<noteq> {} \<and> (\<forall>l\<in>set (view_Bids v). Qty l = ex_bids ''A-B'' (view_LastID v) (Price l) \<and> Qty l \<noteq> 0)"
proof -
  obtain v where v: "snd (Query patient ''A-B'' 3 ex_synced) = Inr (View v)" "view_Live v" "view_Bids v = [\<lparr>Price = 10, Qty = 3\<rparr>]"
    using ex_synced_facts(4) by (auto split: sum.splits reply.splits)
  obtain t where "books (shards ex_synced ! 0) ''A-B'' = Some t"
    using ex_synced_facts(3) by (auto split: option.splits)
  then have t: "books (shards ex_synced ! shardIndex ''A-B'' (length (shards ex_synced))) ''A-B'' = Some t"
    by (simp add: ex_synced_facts(1))
  have q: "Query patient ''A-B'' 3 ex_synced = (fst (Query patient ''A-B'' 3 ex_synced), Inr (View v))"
    by (simp add: v(1) [symmetric])
  from Query_live_view_is_venue [OF ex_run_synced [of True] t q v(2), THEN conjunct1] ex_run_synced [of True] q v(2,3)
  show ?thesis by (intro exI [of _ "fst (Query patient ''A-B'' 3 ex_synced)"] exI [of _ v]) simp
qed

text \<open>The event counter summed over the shards is the number of events handled, modulo 64 bits.\<close>

lemma Router_Stats_events:
  assumes "router_run numCPU cfg x D S rt dn r"
  shows "rs_Events (Router_Stats r) = of_nat (length dn)"
  using router_run_events [OF assms] by (simp add: Router_Stats_def rs_Events_sum)

end
