(* ===== verification/History.thy ===== *)
theory History
  imports Router
begin

text \<open>
  What the stage holds as a function of what it was given. A trace invariant over the deltas each
  tracker was offered fixes the position of a live book: it is the last id of the last delta, unless a
  snapshot was later than that. So a stage that has worked off its queues and whose books are live
  has no choice left, whatever its schedule was. Nothing here models further code; the theory is
  about \<^verbatim>\<open>internal/book/tracker.go\<close> and \<^verbatim>\<open>internal/pipeline/shard.go\<close>.
\<close>

section \<open>The trace of a tracker\<close>

text \<open>
  \<open>ds\<close> are the deltas offered so far. A live tracker is at or past the last of them; one that is not
  live still holds it, as the newest delta of its buffer, for the next snapshot to replay.
\<close>

definition hist_ok :: "BookDelta list \<Rightarrow> Tracker \<Rightarrow> bool" where
  "hist_ok ds t \<longleftrightarrow> (synced (seq t) \<longrightarrow> buf t = []) \<and>
    (ds \<noteq> [] \<longrightarrow> (if synced (seq t) then delta_LastID (last ds) \<le> last_id (seq t) else buf t \<noteq> [] \<and> last (buf t) = last ds))"

lemma hist_ok_cong: "seq t' = seq t \<Longrightarrow> buf t' = buf t \<Longrightarrow> hist_ok ds t' = hist_ok ds t"
  by (simp add: hist_ok_def)

lemma hist_ok_New: "hist_ok [] (NewTracker sy c)"
  by (simp add: hist_ok_def NewTracker_def zero_Sequencer_def)

lemma buffer_last: "buf (buffer t d) \<noteq> [] \<and> last (buf (buffer t d)) = d"
  by (simp add: buffer_def Let_def)

lemma hist_ok_Apply:
  assumes "hist_ok ds t" and "delta_Symbol d = symbol (book t)"
  shows "hist_ok (ds @ [d]) (fst (Tracker_Apply t d))"
proof (cases "synced (seq t)")
  case False
  then show ?thesis using Tracker_Apply_cases(1) [OF assms(2)] by (simp add: hist_ok_def buffer_last)
next
  case True
  obtain s' c where n: "Next (seq t) d = (s', c)" by (cases "Next (seq t) d")
  note step = Tracker_Apply_cases(2-5) [OF assms(2) True] and nx = Next_cases [OF n]
  show ?thesis
  proof (cases c)
    case Stale
    then show ?thesis using step(1) n nx(1) assms(1) True by (simp add: hist_ok_def)
  next
    case Contiguous
    then show ?thesis using step(2,3) n nx(2) assms(1) True
      by (cases "Book_Apply (book t) (delta_Bids d) (delta_Asks d)") (simp_all add: hist_ok_def buffer_last Invalidate_def)
  next
    case Gapped
    then show ?thesis using step(4) n nx(3) by (simp add: hist_ok_def buffer_last)
  qed
qed

text \<open>A replay of the buffer that ends live has passed every delta in it.\<close>

lemma replay_passes:
  assumes "replay t i ds = (t', r)" and "synced (seq t')" and "synced (seq t)"
  shows "last_id (seq t) \<le> last_id (seq t') \<and> (\<forall>d\<in>set ds. delta_LastID d \<le> last_id (seq t'))"
  using assms
proof (induction ds arbitrary: t i)
  case Nil
  then show ?case by (auto simp: clearBuffer_def)
next
  case (Cons d ds)
  obtain s' c where n: "Next (seq t) d = (s', c)" by (cases "Next (seq t) d")
  note nx = Next_cases [OF n]
  show ?case
  proof (cases c)
    case Stale
    then show ?thesis using Cons.prems Cons.IH [of t "i + 1"] n nx(1) by auto
  next
    case Contiguous
    then obtain b where b: "Book_Apply (book t) (delta_Bids d) (delta_Asks d) = Inr b"
      using Cons.prems n by (cases "Book_Apply (book t) (delta_Bids d) (delta_Asks d)") (auto simp: keepBufferFrom_def Invalidate_def)
    then show ?thesis using Contiguous Cons.prems Cons.IH [of "t\<lparr>seq := s', book := b\<rparr>" "i + 1"] n nx(2) by auto
  next
    case Gapped
    then show ?thesis using Cons.prems n by (auto simp: keepBufferFrom_def Invalidate_def)
  qed
qed

text \<open>One that does not keeps the newest delta.\<close>

lemma replay_keeps_last:
  assumes "replay t i ds = (t', r)" and "\<not> synced (seq t')" and "synced (seq t)" and "buf t = pre @ ds" and "length pre = i"
  shows "buf t' \<noteq> [] \<and> last (buf t') = last ds"
  using assms
proof (induction ds arbitrary: t i pre)
  case (Cons d ds)
  obtain s' c where n: "Next (seq t) d = (s', c)" by (cases "Next (seq t) d")
  note nx = Next_cases [OF n]
  have kept: "slice_delete (buf t) 0 i = d # ds" using Cons.prems by (simp add: slice_delete_def)
  have more: "ds \<noteq> [] \<and> last (d # ds) = last ds" if "replay t1 (i + 1) ds = (t', r)" "synced (seq t1)" for t1
    using that Cons.prems(2) by (cases ds) (auto simp: clearBuffer_def)
  show ?case
  proof (cases c)
    case Stale
    then have "seq t = s'" using nx(1) by simp
    then have "replay t (i + 1) ds = (t', r)" using Cons.prems(1) n Stale by auto
    with Cons.IH [of t "i + 1" "pre @ [d]"] Cons.prems more show ?thesis by simp
  next
    case Contiguous
    show ?thesis
    proof (cases "Book_Apply (book t) (delta_Bids d) (delta_Asks d)")
      case (Inl e)
      then show ?thesis using Cons.prems(1) n Contiguous kept by (auto simp: keepBufferFrom_def)
    next
      case (Inr b)
      let ?t = "t\<lparr>seq := s', book := b\<rparr>"
      have "replay ?t (i + 1) ds = (t', r)" "synced (seq ?t)" using Cons.prems(1) n Contiguous Inr nx(2) by auto
      with Cons.IH [of ?t "i + 1" "pre @ [d]"] Cons.prems more show ?thesis by simp
    qed
  next
    case Gapped
    then show ?thesis using Cons.prems(1) n kept by (auto simp: keepBufferFrom_def)
  qed
qed (auto simp: clearBuffer_def)

lemma replay_empties: "replay t i ds = (t', r) \<Longrightarrow> synced (seq t') \<Longrightarrow> buf t' = []"
  by (induction t i ds rule: replay.induct)
     (auto simp: Let_def clearBuffer_def keepBufferFrom_def Invalidate_def split: prod.splits Class.splits sum.splits)

lemma hist_ok_Load:
  assumes "hist_ok ds t"
  shows "hist_ok ds (fst (Load t s))"
proof (cases rule: Load_cases [of t s])
  case (refused e)
  with assms show ?thesis by (simp add: hist_ok_def)
next
  case (accepted b)
  obtain t' r where l: "replay (anchored t b s) 0 (buf t) = (t', r)" by (cases "replay (anchored t b s) 0 (buf t)")
  show ?thesis
  proof (cases "synced (seq t')")
    case True
    have "delta_LastID (last ds) \<le> last_id (seq t')" if "ds \<noteq> []"
    proof (cases "synced (seq t)")
      case True
      with assms accepted(2) that have "delta_LastID (last ds) \<le> snap_LastID s" by (auto simp: hist_ok_def)
      with replay_passes [OF l \<open>synced (seq t')\<close>] show ?thesis by simp
    next
      case False
      with assms that have "last ds \<in> set (buf t)" unfolding hist_ok_def by (metis last_in_set)
      with replay_passes [OF l True] show ?thesis by simp
    qed
    with True replay_empties [OF l] show ?thesis by (simp add: accepted(4) l hist_ok_def)
  next
    case False
    then have "buf t' \<noteq> [] \<and> last (buf t') = last (buf t)" using replay_keeps_last [OF l, of "[]"] by simp
    moreover from this have "\<not> synced (seq t)"
      using assms replay_keeps_last [OF l False, of "[]"] l by (auto simp: hist_ok_def clearBuffer_def)
    ultimately show ?thesis using False assms by (auto simp: accepted(4) l hist_ok_def)
  qed
qed

section \<open>Bounds on the position\<close>

text \<open>No tracker gets past the latest of what it was given.\<close>

definition top_ok :: "int \<Rightarrow> Tracker \<Rightarrow> bool" where
  "top_ok m t \<longleftrightarrow> (synced (seq t) \<longrightarrow> last_id (seq t) \<le> m) \<and> (\<forall>d\<in>set (buf t). delta_LastID d \<le> m)"

lemma top_ok_buffer: "\<forall>d\<in>set (buf t). delta_LastID d \<le> m \<Longrightarrow> delta_LastID d \<le> m \<Longrightarrow> \<forall>d\<in>set (buf (buffer t d)). delta_LastID d \<le> m"
  by (auto simp: buffer_def Let_def slice_delete_def dest: in_set_dropD)

lemma top_ok_Apply:
  assumes "top_ok m t" and "delta_LastID d \<le> m"
  shows "top_ok m (fst (Tracker_Apply t d))"
proof (cases "delta_Symbol d = symbol (book t)")
  case False
  then show ?thesis using assms(1) Tracker_Apply_wrong_symbol by simp
next
  case sy: True
  show ?thesis
  proof (cases "synced (seq t)")
    case False
    then show ?thesis using Tracker_Apply_cases(1) [OF sy] assms top_ok_buffer [of t m d] by (simp add: top_ok_def)
  next
    case True
    obtain s' c where n: "Next (seq t) d = (s', c)" by (cases "Next (seq t) d")
    note step = Tracker_Apply_cases(2-5) [OF sy True] and nx = Next_cases [OF n]
    show ?thesis
    proof (cases c)
      case Stale
      with step(1) n nx(1) assms show ?thesis by (simp add: top_ok_def)
    next
      case Contiguous
      have kept: "\<forall>e\<in>set (buf (buffer (t\<lparr>seq := Invalidate s'\<rparr>) d)). delta_LastID e \<le> m"
        by (rule top_ok_buffer) (use assms in \<open>simp_all add: top_ok_def\<close>)
      show ?thesis
      proof (cases "Book_Apply (book t) (delta_Bids d) (delta_Asks d)")
        case (Inl e)
        with step(3) n Contiguous kept show ?thesis by (simp add: top_ok_def Invalidate_def)
      next
        case (Inr b)
        with step(2) n Contiguous nx(2) assms show ?thesis by (simp add: top_ok_def)
      qed
    next
      case Gapped
      with step(4) n nx(3) assms
        top_ok_buffer [of "t\<lparr>seq := s', stats := (stats t)\<lparr>st_Gaps := st_Gaps (stats t) + 1\<rparr>\<rparr>" m d]
      show ?thesis by (simp add: top_ok_def)
    qed
  qed
qed

lemma top_ok_Load:
  assumes "top_ok m t" and "snap_LastID s \<le> m"
  shows "top_ok m (fst (Load t s))"
proof (cases rule: Load_cases [of t s])
  case (refused e)
  with assms(1) show ?thesis by (simp add: top_ok_def)
next
  case (accepted b)
  obtain t' r where l: "replay (anchored t b s) 0 (buf t) = (t', r)" by (cases "replay (anchored t b s) 0 (buf t)")
  have "replayed (\<lambda>_ q. last_id q \<le> m) (anchored t b s) (buf t) t' r"
    using assms by (intro replay_rule [OF _ _ _ _ _ l, where pre = "[]"]) (auto simp: top_ok_def)
  then show ?thesis
    using assms(1) by (auto simp: accepted(4) l replayed_def top_ok_def dest: set_mono_suffix)
qed

lemma tracker_run_top:
  assumes "tracker_run D S sy c t" and "\<And>d. D d \<Longrightarrow> delta_LastID d \<le> m" and "\<And>s. S s \<Longrightarrow> snap_LastID s \<le> m"
  shows "top_ok m t"
  using assms(1)
  by induction (simp_all add: top_ok_Apply top_ok_Load assms(2,3), simp_all add: top_ok_def NewTracker_def zero_Sequencer_def BeginFetch_def FetchFailed_def)

text \<open>A tracker that was only given complete snapshots knows its whole book.\<close>

lemma bounds_Apply: "bidFloor (fst (Tracker_Apply t d)) = bidFloor t" "askCeil (fst (Tracker_Apply t d)) = askCeil t"
  by (auto simp: Tracker_Apply_def Let_def split: prod.splits Class.splits sum.splits)

lemma bounds_replay: "bidFloor (fst (replay t i ds)) = bidFloor t" "askCeil (fst (replay t i ds)) = askCeil t"
  by (induction t i ds rule: replay.induct)
     (auto simp: Let_def clearBuffer_def keepBufferFrom_def split: prod.splits Class.splits sum.splits)

lemma bounds_Load:
  assumes "\<not> Truncated s" and "bidFloor t = 0" and "askCeil t = 0"
  shows "bidFloor (fst (Load t s)) = 0" "askCeil (fst (Load t s)) = 0"
  using assms by (cases rule: Load_cases [of t s]; simp add: bounds_replay anchored_def setBounds_def)+

lemma tracker_run_complete:
  assumes "tracker_run D S sy c t" and "\<And>s. S s \<Longrightarrow> \<not> Truncated s"
  shows "bidFloor t = 0 \<and> askCeil t = 0"
  using assms(1)
  by induction (simp_all add: bounds_Apply bounds_Load assms(2), simp_all add: NewTracker_def BeginFetch_def FetchFailed_def)

section \<open>The trace of a stage\<close>

definition deltas_of :: "Symbol \<Rightarrow> Event list \<Rightarrow> BookDelta list" where
  "deltas_of k evs = map ev_BookDelta (filter (\<lambda>ev. Kind ev = KindBookDelta \<and> delta_Symbol (ev_BookDelta ev) = k) evs)"

lemma deltas_of_append: "deltas_of k (xs @ ys) = deltas_of k xs @ deltas_of k ys"
  by (simp add: deltas_of_def)

lemma deltas_of_events: "deltas_of k evs = deltas_of k (filter (\<lambda>ev. eventSymbol ev = Some k) evs)"
  unfolding deltas_of_def filter_filter by (rule arg_cong [where f = "map ev_BookDelta"]) (auto simp: eventSymbol_def intro!: filter_cong)

definition tracked :: "BookDelta list \<Rightarrow> shard \<Rightarrow> Symbol \<Rightarrow> bool" where
  "tracked ds s k \<longleftrightarrow> (case books s k of None \<Rightarrow> ds = [] | Some t \<Rightarrow> hist_ok ds t \<and> symbol (book t) = k)"

lemma tracked_cong: "books s' k = books s k \<Longrightarrow> tracked ds s' k = tracked ds s k"
  by (simp add: tracked_def)

lemma tracked_fetch: "tracked ds s k \<Longrightarrow> tracked ds (fetch now j s) k"
  by (auto simp: tracked_def fetch_def BeginFetch_def Let_def hist_ok_def split: option.splits prod.splits if_splits)

lemma tracked_tracker: "tracked ds s k \<Longrightarrow> tracked ds (tracker now j s) k"
proof (cases "books s j")
  case None
  assume "tracked ds s k"
  with None have "tracked ds (s\<lparr>books := (books s)(j \<mapsto> NewTracker j (bufferCap s))\<rparr>) k"
    by (cases "k = j") (simp_all add: tracked_def hist_ok_New)
  then show ?thesis by (simp add: tracker_def None tracked_fetch)
qed (simp add: tracker_def)

lemma tracked_load: "tracked ds s k \<Longrightarrow> tracked ds (load now j snap s) k"
proof (cases "books s j")
  case (Some t)
  assume tr: "tracked ds s k"
  obtain t' e where l: "Load t snap = (t', e)" by (cases "Load t snap")
  have "tracked ds (load_outcome now snap (Live t') e (s\<lparr>books := (books s)(j \<mapsto> t')\<rparr>)) k"
    using tr Some hist_ok_Load [of ds t snap] Load_symbol [of t snap] by (cases "k = j") (auto simp: tracked_def l)
  then show ?thesis by (simp add: load_def Some l tracked_fetch)
qed (simp add: load_def)

lemma tracked_handle:
  assumes "tracked ds s k"
  shows "tracked (ds @ deltas_of k [ev]) (handle now ev s) k"
proof (cases "Kind ev")
  case KindBookDelta
  let ?d = "ev_BookDelta ev" and ?s = "s\<lparr>events := events s + 1\<rparr>"
  have tr: "tracked ds (tracker now (delta_Symbol ?d) ?s) k"
    by (rule tracked_tracker) (use assms in \<open>simp add: tracked_def\<close>)
  obtain t where t: "books (tracker now (delta_Symbol ?d) ?s) (delta_Symbol ?d) = Some t"
    using tracker_dom [of now "delta_Symbol ?d" ?s] by blast
  obtain t' r where a: "Tracker_Apply t ?d = (t', r)" by (cases "Tracker_Apply t ?d")
  let ?s' = "count_status now ev r ((tracker now (delta_Symbol ?d) ?s)\<lparr>books := (books (tracker now (delta_Symbol ?d) ?s))(delta_Symbol ?d \<mapsto> t')\<rparr>)"
  have "tracked (ds @ deltas_of k [ev]) ?s' k"
  proof (cases "k = delta_Symbol ?d")
    case True
    then have "hist_ok ds t" "symbol (book t) = k" using tr t by (simp_all add: tracked_def)
    with hist_ok_Apply [of ds t ?d] Tracker_Apply_symbol [of t ?d] a True KindBookDelta
    show ?thesis by (simp add: tracked_def deltas_of_def)
  next
    case False
    with tr KindBookDelta show ?thesis by (simp add: tracked_def deltas_of_def)
  qed
  then show ?thesis by (simp add: handle_def KindBookDelta handle_delta_def Let_def t a tracked_fetch)
next
  case KindSnapshot
  with assms show ?thesis
    by (simp add: handle_def deltas_of_def tracked_load tracked_tracker tracked_cong [of "s\<lparr>events := events s + 1\<rparr>" k s])
qed (use assms in \<open>simp_all add: handle_def deltas_of_def tracked_def\<close>)

lemma tracked_deliver:
  assumes "tracked ds s k"
  shows "tracked ds (deliver now res s) k"
proof -
  let ?k = "res_symbol res" and ?s = "s\<lparr>inflight := remove1 (res_symbol res) (inflight s)\<rparr>"
  have tr: "tracked ds ?s k" using assms by (simp add: tracked_def)
  show ?thesis
  proof (cases "books ?s ?k")
    case None
    with tr show ?thesis by (simp add: deliver_def complete_def)
  next
    case (Some t)
    have "tracked ds (?s\<lparr>fetchFails := fetchFails s + 1, books := (books s)(?k \<mapsto> FetchFailed t)\<rparr>) k"
      using tr Some by (auto simp: tracked_def FetchFailed_def hist_ok_def)
    then show ?thesis
      using Some tr by (simp add: deliver_def complete_def tracked_load tracked_fetch split: sum.split)
  qed
qed

text \<open>When no snapshot event is routed, only a delta opens a book.\<close>

definition opened :: "BookDelta list \<Rightarrow> shard \<Rightarrow> Symbol \<Rightarrow> bool" where
  "opened ds s k \<longleftrightarrow> (books s k \<noteq> None \<longrightarrow> ds \<noteq> [])"

lemma opened_handle:
  assumes "opened ds s k" and "event_ok True D S ev"
  shows "opened (ds @ deltas_of k [ev]) (handle now ev s) k"
proof (cases "Kind ev = KindBookDelta \<and> delta_Symbol (ev_BookDelta ev) = k")
  case False
  then have "books (handle now ev s) k \<noteq> None \<longrightarrow> books s k \<noteq> None"
    using assms(2) by (cases "Kind ev")
      (auto simp: handle_def event_ok_def handle_delta_def Let_def fetch_def tracker_def split: option.splits prod.splits if_splits)
  with assms(1) show ?thesis by (simp add: opened_def)
qed (simp add: opened_def deltas_of_def)

lemma opened_deliver: "opened ds s k \<Longrightarrow> opened ds (deliver now res s) k"
  using deliver_dom [of now res s] unfolding opened_def by (metis domIff)

definition stage_tracked :: "bool \<Rightarrow> Event list \<Rightarrow> Router \<Rightarrow> bool" where
  "stage_tracked x dn r \<longleftrightarrow>
    (\<forall>k. tracked (deltas_of k dn) (shards r ! shardIndex k (length (shards r))) k
      \<and> (x \<longrightarrow> opened (deltas_of k dn) (shards r ! shardIndex k (length (shards r))) k))"

lemma stage_tracked_update:
  assumes "stage_tracked x dn r" and "i < length (shards r)"
    and "\<And>k. tracked (deltas_of k dn) (shards r ! i) k \<Longrightarrow> tracked (deltas_of k dn') (f (shards r ! i)) k"
    and "\<And>k. x \<Longrightarrow> opened (deltas_of k dn) (shards r ! i) k \<Longrightarrow> opened (deltas_of k dn') (f (shards r ! i)) k"
    and "\<And>k. shardIndex k (length (shards r)) \<noteq> i \<Longrightarrow> deltas_of k dn' = deltas_of k dn"
  shows "stage_tracked x dn' (update_shard r i f)"
  using assms by (auto simp: stage_tracked_def update_shard_def nth_list_update)

lemma stage_tracked_books:
  assumes "stage_tracked x dn r" and "map books (shards r') = map books (shards r)"
    and "\<And>k. shardIndex k (length (shards r)) < length (shards r)"
  shows "stage_tracked x dn r'"
proof -
  have len: "length (shards r') = length (shards r)" using arg_cong [OF assms(2), of length] by simp
  have "books (shards r' ! i) = books (shards r ! i)" if "i < length (shards r)" for i
    using that len assms(2) by (metis nth_map)
  with assms(1,3) show ?thesis by (simp add: stage_tracked_def len tracked_def opened_def)
qed

lemma router_run_tracked:
  assumes "router_run numCPU cfg x D S rt dn r"
  shows "stage_tracked x dn r"
  using assms
proof induction
  case (st_new r)
  have "0 < length (shards r)" "length (shards r) < 2 ^ 63" using router_inv_new [OF st_new] by (simp_all add: router_inv_def)
  then have "books (shards r ! shardIndex k (length (shards r))) k = None" for k
    using st_new(1) shardIndex_less [of "length (shards r)" k] by (auto simp: NewRouter_def new_shard_def split: if_splits)
  then show ?case by (simp add: stage_tracked_def tracked_def opened_def deltas_of_def)
next
  case (st_start rt dn r r')
  then show ?case by (auto simp: Router_Start_def stage_tracked_def split: if_splits)
next
  case (st_route rt dn r ev cx r')
  note i = router_invD(2) [OF router_run_inv [OF st_route.hyps(1)]]
  obtain k where "r' = update_shard r (shardIndex k (length (shards r))) (\<lambda>s. s\<lparr>inq := inq s @ [ev]\<rparr>)"
    using st_route.hyps(3) by (auto simp: Route_def Let_def split: option.splits if_splits)
  then have "map books (shards r') = map books (shards r)" using i by (simp add: update_shard_def map_update list_update_same_conv)
  then show ?case by (rule stage_tracked_books [OF st_route.IH _ i])
next
  case (st_event rt dn r i ev rest now)
  note inv = router_run_inv [OF st_event.hyps(1)]
  have "ev \<in> set (filter (\<lambda>ev. owner (length (shards r)) ev = i) rt)"
    using router_invD(1) [OF inv st_event.hyps(3)] st_event.hyps(5) unfolding shard_ok_def by simp
  then have "owner (length (shards r)) ev = i" by simp
  moreover have ok: "event_ok x D S ev"
    using router_invD(1) [OF inv st_event.hyps(3)] st_event.hyps(5) by (simp add: shard_ok_def)
  ultimately have "deltas_of k [ev] = []" if "shardIndex k (length (shards r)) \<noteq> i" for k
    using that by (auto simp: deltas_of_def owner_def eventSymbol_def)
  then show ?case
  proof (intro stage_tracked_update [OF st_event.IH st_event.hyps(3)])
    fix k
    let ?s = "(shards r ! i)\<lparr>inq := rest\<rparr>"
    show "tracked (deltas_of k (dn @ [ev])) (handle now ev ?s) k" if "tracked (deltas_of k dn) (shards r ! i) k"
      unfolding deltas_of_append using that by (intro tracked_handle) (simp add: tracked_def)
    show "opened (deltas_of k (dn @ [ev])) (handle now ev ?s) k" if "x" "opened (deltas_of k dn) (shards r ! i) k"
      unfolding deltas_of_append using that ok by (intro opened_handle [of _ _ _ D S]) (simp_all add: opened_def)
  qed (simp add: deltas_of_append)
next
  case (st_result rt dn r i res now)
  then show ?case by (intro stage_tracked_update [OF st_result.IH]) (simp_all add: tracked_deliver opened_deliver)
next
  case (st_query rt dn r cx q)
  note i = router_invD(2) [OF router_run_inv [OF st_query.hyps(1)]]
  have "map books (shards (fst (ask cx q r))) = map books (shards r)"
    using i by (simp add: ask_def Let_def update_shard_def map_update answer_frame list_update_same_conv split: option.split)
  then show ?case by (rule stage_tracked_books [OF st_query.IH _ i])
next
  case (st_close rt dn r)
  note i = router_invD(2) [OF router_run_inv [OF st_close.hyps(1)]]
  have "map books (shards (Router_Close r)) = map books (shards r)" by (simp add: Router_Close_def comp_def)
  then show ?case by (rule stage_tracked_books [OF st_close.IH _ i])
next
  case (st_exit rt dn r i)
  then show ?case by (intro stage_tracked_update [OF st_exit.IH]) (simp_all add: tracked_def opened_def)
next
  case (st_abandon rt dn r i k)
  then show ?case by (intro stage_tracked_update [OF st_abandon.IH]) (simp_all add: tracked_def opened_def)
qed

section \<open>A stage that has settled\<close>

text \<open>
  Every queue is empty and every tracked book is live: what \<open>waitSettled\<close> of \<^verbatim>\<open>cmd/replay\<close> waits for.
\<close>

definition stage_settled :: "Router \<Rightarrow> bool" where
  "stage_settled r \<longleftrightarrow> (\<forall>s\<in>set (shards r). inq s = []) \<and> (\<forall>sy t. book_of r sy = Some t \<longrightarrow> Live t)"

lemma book_has_delta:
  assumes "router_run numCPU cfg True D S rt dn r" and "book_of r sy = Some t"
  shows "deltas_of sy rt \<noteq> []"
proof -
  have "deltas_of sy dn \<noteq> []"
    using router_run_tracked [OF assms(1)] assms(2) by (auto simp: stage_tracked_def opened_def book_of_def)
  then have "deltas_of sy (filter (\<lambda>ev. eventSymbol ev = Some sy) rt) \<noteq> []"
    unfolding deltas_of_events [of sy dn] routed_split [OF assms(1)] by (simp add: deltas_of_def)
  then show ?thesis by (simp add: deltas_of_events [of sy rt])
qed

lemma settled_no_request:
  assumes run: "router_run numCPU cfg True D S rt dn r" and opn: "open_router r" and set: "stage_settled r"
    and D: "\<And>sy d. D sy d \<Longrightarrow> delta_i64 d" and S: "\<And>sy s. S sy s \<Longrightarrow> in_i64 (snap_LastID s)" and i: "i < length (shards r)"
  shows "inflight (shards r ! i) = []"
proof -
  let ?s = "shards r ! i"
  have ok: "shard_ok cfg True D S rt dn (length (shards r)) i ?s" by (rule router_invD(1) [OF router_run_inv [OF run] i])
  then have slot: "slot_inv True D S ?s k" and own: "books ?s k \<noteq> None \<Longrightarrow> shardIndex k (length (shards r)) = i" for k
    using opn i by (simp_all add: shard_ok_def open_router_def shard_inv_def)
  have "in_flight ?s k = 0" for k
  proof (cases "books ?s k")
    case None
    with slot [of k] show ?thesis by (simp add: slot_inv_def)
  next
    case (Some t)
    then have "Live t" using set own [of k] by (auto simp: stage_settled_def book_of_def)
    moreover have "tracker_inv t" using slot [of k] Some tracker_run_inv D S by (fastforce simp: slot_inv_def)
    ultimately show ?thesis using slot [of k] Some by (simp add: slot_inv_def tracker_inv_def Live_iff)
  qed
  then have "k \<notin> set (inflight ?s)" for k by (simp add: in_flight_def count_list_0_iff)
  then show ?thesis by (metis list.set_intros(1) neq_Nil_conv)
qed

lemma settled_handled:
  assumes "router_run numCPU cfg x D S rt dn r" and "stage_settled r"
  shows "filter (\<lambda>ev. eventSymbol ev = Some sy) dn = filter (\<lambda>ev. eventSymbol ev = Some sy) rt"
    and "deltas_of sy dn = deltas_of sy rt"
proof -
  have "shardIndex sy (length (shards r)) < length (shards r)" by (rule router_invD(2) [OF router_run_inv [OF assms(1)]])
  then show e: "filter (\<lambda>ev. eventSymbol ev = Some sy) dn = filter (\<lambda>ev. eventSymbol ev = Some sy) rt"
    using routed_split [OF assms(1), of sy] assms(2) by (simp add: stage_settled_def)
  show "deltas_of sy dn = deltas_of sy rt" using deltas_of_events [of sy dn] deltas_of_events [of sy rt] e by simp
qed

lemma delta_has_book:
  assumes "router_run numCPU cfg x D S rt dn r" and "stage_settled r" and "deltas_of sy rt \<noteq> []"
  shows "\<exists>t. book_of r sy = Some t"
  using router_run_tracked [OF assms(1)] assms(3) settled_handled(2) [OF assms(1,2), of sy]
  by (auto simp: stage_tracked_def tracked_def book_of_def dest!: spec [of _ sy] split: option.splits)

text \<open>The position of a settled book is the last update of what was routed.\<close>

definition last_update :: "Symbol \<Rightarrow> Event list \<Rightarrow> int" where
  "last_update sy evs = (if deltas_of sy evs = [] then 0 else delta_LastID (last (deltas_of sy evs)))"

lemma settled_position:
  assumes run: "router_run numCPU cfg x D S rt dn r" and opn: "open_router r" and set: "stage_settled r"
    and t: "book_of r sy = Some t" and ds: "deltas_of sy rt \<noteq> []"
    and D: "\<And>d. D sy d \<Longrightarrow> delta_LastID d \<le> last_update sy rt" and S: "\<And>s. S sy s \<Longrightarrow> snap_LastID s \<le> last_update sy rt"
  shows "Tracker_LastID t = last_update sy rt"
proof -
  have i: "shardIndex sy (length (shards r)) < length (shards r)" by (rule router_invD(2) [OF router_run_inv [OF run]])
  have live: "synced (seq t)" using set t by (simp add: stage_settled_def Live_iff)
  have "hist_ok (deltas_of sy dn) t"
    using router_run_tracked [OF run] t by (auto simp: stage_tracked_def tracked_def book_of_def dest: spec [of _ sy])
  with ds live have "last_update sy rt \<le> last_id (seq t)"
    by (simp add: settled_handled(2) [OF run set] hist_ok_def last_update_def)
  moreover have "tracker_run (D sy) (S sy) sy (BufferCap cfg) t"
    by (rule running_slot(1) [OF run i]) (use opn i t in \<open>simp_all add: open_router_def book_of_def\<close>)
  from tracker_run_top [OF this D S] live have "last_id (seq t) \<le> last_update sy rt" by (simp add: top_ok_def)
  ultimately show ?thesis by (simp add: Tracker_LastID_def LastID_def)
qed

text \<open>
  What a finished recording of a venue holds, up to update \<open>m\<close>: its deltas, and complete snapshots
  taken no later than its last delta.
\<close>

definition update_ok :: "venue_side \<Rightarrow> venue_side \<Rightarrow> int \<Rightarrow> BookDelta \<Rightarrow> bool" where
  "update_ok vb va m d \<longleftrightarrow> delta_faithful vb va d \<and> delta_LastID d \<le> m"

definition anchor_ok :: "venue_side \<Rightarrow> venue_side \<Rightarrow> int \<Rightarrow> Snapshot \<Rightarrow> bool" where
  "anchor_ok vb va m s \<longleftrightarrow> snap_faithful vb va s \<and> \<not> Truncated s \<and> snap_LastID s \<le> m"

abbreviation venue_run where
  "venue_run numCPU cfg vb va hi \<equiv> router_run numCPU cfg True (\<lambda>sy. update_ok (vb sy) (va sy) (hi sy)) (\<lambda>sy. anchor_ok (vb sy) (va sy) (hi sy))"

lemma tracker_run_mono:
  assumes "tracker_run D S sy c t" and "\<And>d. D d \<Longrightarrow> D' d" and "\<And>s. S s \<Longrightarrow> S' s"
  shows "tracker_run D' S' sy c t"
  using assms by induction (auto intro: tracker_run.intros)

lemma settled_book:
  assumes run: "venue_run numCPU cfg vb va hi rt dn r" and opn: "open_router r" and set: "stage_settled r"
    and t: "book_of r sy = Some t" and ds: "deltas_of sy rt \<noteq> []" and hi: "hi sy = last_update sy rt"
  shows "fed (vb sy) (va sy) sy (BufferCap cfg) t" and "Live t" and "Tracker_LastID t = hi sy" and "bidFloor t = 0" and "askCeil t = 0"
proof -
  have i: "shardIndex sy (length (shards r)) < length (shards r)" by (rule router_invD(2) [OF router_run_inv [OF run]])
  have tr: "tracker_run (update_ok (vb sy) (va sy) (hi sy)) (anchor_ok (vb sy) (va sy) (hi sy)) sy (BufferCap cfg) t"
    by (rule running_slot(1) [OF run i]) (use opn i t in \<open>simp_all add: open_router_def book_of_def\<close>)
  then show "fed (vb sy) (va sy) sy (BufferCap cfg) t"
    by (rule tracker_run_mono) (simp_all add: update_ok_def anchor_ok_def)
  show "bidFloor t = 0" "askCeil t = 0" using tracker_run_complete [OF tr] by (simp_all add: anchor_ok_def)
  show "Live t" using set t by (simp add: stage_settled_def)
  show "Tracker_LastID t = hi sy"
    unfolding hi by (rule settled_position [OF run opn set t ds]) (simp_all add: update_ok_def anchor_ok_def hi)
qed

text \<open>Two stages that were given the same deltas, on any schedules, settle on the same books.\<close>

lemma settled_same_book:
  assumes "venue_run n1 c1 vb va hi rt1 dn1 r1" and "open_router r1" and "stage_settled r1" and "book_of r1 sy = Some t1"
    and "venue_run n2 c2 vb va hi rt2 dn2 r2" and "open_router r2" and "stage_settled r2" and "book_of r2 sy = Some t2"
    and "deltas_of sy rt1 \<noteq> []" and "deltas_of sy rt2 = deltas_of sy rt1" and "hi sy = last_update sy rt1"
  shows "book t1 = book t2 \<and> Tracker_LastID t1 = hi sy \<and> Tracker_LastID t2 = hi sy"
proof -
  have "hi sy = last_update sy rt2" "deltas_of sy rt2 \<noteq> []" using assms(9-11) by (simp_all add: last_update_def)
  note b1 = settled_book [OF assms(1-4,9,11)] and b2 = settled_book [OF assms(5-8) this(2,1)]
  show ?thesis using fed_same_book [OF b1(1) b2(1) b1(2) b2(2) _ b1(4,5) b2(4,5)] b1(3) b2(3) by simp
qed

end
