(* ===== verification/Publisher.thy ===== *)
theory Publisher
  imports Model Queues "HOL-Library.Sublist"
begin

text \<open>
  The lossy side of the pipeline: \<^verbatim>\<open>internal/pipeline/publisher.go\<close> and \<^verbatim>\<open>logsub.go\<close>. A
  subscription is a bounded channel, a counter and the events its subscriber was given so far. \<open>publish_one\<close> is one turn of the loop of
  \<open>Publish\<close>, three non-blocking channel operations; the step relation \<open>delivery_run\<close> lets the
  subscriber's goroutine receive between any two of them. \<open>Consume\<close> is the log line of the one
  subscriber the program has.
\<close>

record subscription =
  sub_name :: string
  ch :: "Event list"
  ch_cap :: nat
  ch_closed :: bool
  dropped :: u64
  consumed :: "Event list"

record Publisher =
  subs :: "subscription list"
  pub_started :: bool
  pub_closeOnce :: bool

datatype publisher_error = CapacityNotPositive string int | SubscribeStarted string | NameRegistered string | StartTwice

definition NewPublisher :: Publisher where
  "NewPublisher = \<lparr>subs = [], pub_started = False, pub_closeOnce = False\<rparr>"

definition Subscribe :: "string \<Rightarrow> int \<Rightarrow> Publisher \<Rightarrow> publisher_error + Publisher" where
  "Subscribe nm capacity p =
    (if capacity \<le> 0 then Inl (CapacityNotPositive nm capacity)
     else if pub_started p then Inl (SubscribeStarted nm)
     else if list_ex (\<lambda>s. sub_name s = nm) (subs p) then Inl (NameRegistered nm)
     else Inr (p\<lparr>subs := subs p @ [\<lparr>sub_name = nm, ch = [], ch_cap = nat capacity, ch_closed = False, dropped = 0, consumed = []\<rparr>]\<rparr>))"

definition Publisher_Start :: "Publisher \<Rightarrow> publisher_error + Publisher" where
  "Publisher_Start p = (if pub_started p then Inl StartTwice else Inr (p\<lparr>pub_started := True\<rparr>))"

text \<open>The three \<open>select\<close> statements with a \<open>default\<close>: send, discard the oldest, send again.\<close>

definition try_send :: "subscription \<Rightarrow> Event \<Rightarrow> subscription option" where
  "try_send s ev = (if length (ch s) < ch_cap s then Some (s\<lparr>ch := ch s @ [ev]\<rparr>) else None)"

definition discard_oldest :: "subscription \<Rightarrow> subscription" where
  "discard_oldest s = (case ch s of [] \<Rightarrow> s | _ # rest \<Rightarrow> s\<lparr>ch := rest, dropped := dropped s + 1\<rparr>)"

definition resend :: "subscription \<Rightarrow> Event \<Rightarrow> subscription" where
  "resend s ev = (case try_send s ev of Some s' \<Rightarrow> s' | None \<Rightarrow> s\<lparr>dropped := dropped s + 1\<rparr>)"

definition publish_one :: "subscription \<Rightarrow> Event \<Rightarrow> subscription" where
  "publish_one s ev = (case try_send s ev of Some s' \<Rightarrow> s' | None \<Rightarrow> resend (discard_oldest s) ev)"

definition Publish :: "Event \<Rightarrow> Publisher \<Rightarrow> Publisher" where
  "Publish ev p = p\<lparr>subs := map (\<lambda>s. publish_one s ev) (subs p)\<rparr>"

text \<open>One turn of a delivery goroutine: an event received from the channel goes to \<open>Consume\<close>.\<close>

definition delivery_turn :: "subscription \<Rightarrow> subscription" where
  "delivery_turn s = (case ch s of [] \<Rightarrow> s | ev # rest \<Rightarrow> s\<lparr>ch := rest, consumed := consumed s @ [ev]\<rparr>)"

definition Publisher_Close :: "Publisher \<Rightarrow> Publisher" where
  "Publisher_Close p =
    (if pub_closeOnce p then p
     else if \<not> pub_started p then p\<lparr>pub_closeOnce := True\<rparr>
     else p\<lparr>pub_closeOnce := True, subs := map (\<lambda>s. s\<lparr>ch_closed := True\<rparr>) (subs p)\<rparr>)"

definition Dropped :: "Publisher \<Rightarrow> (string \<rightharpoonup> u64)" where
  "Dropped p = foldl (\<lambda>out s. out(sub_name s \<mapsto> dropped s)) Map.empty (subs p)"

section \<open>The channel as a bounded queue\<close>

definition sub_ok :: "subscription \<Rightarrow> bool" where
  "sub_ok s \<longleftrightarrow> 0 < ch_cap s \<and> length (ch s) \<le> ch_cap s"

lemma publish_one_full:
  assumes "sub_ok s" and "length (ch s) = ch_cap s"
  shows "publish_one s ev = s\<lparr>ch := tl (ch s) @ [ev], dropped := dropped s + 1\<rparr>"
  using assms
  by (cases "ch s") (auto simp: publish_one_def try_send_def discard_oldest_def resend_def sub_ok_def)

lemma publish_one_room:
  "length (ch s) < ch_cap s \<Longrightarrow> publish_one s ev = s\<lparr>ch := ch s @ [ev]\<rparr>"
  by (simp add: publish_one_def try_send_def)

interpretation channel: drop_oldest sub_ok ch ch_cap dropped publish_one
proof unfold_locales
  fix s ev
  assume ok: "sub_ok s"
  then show "length (ch s) \<le> ch_cap s" and "0 < ch_cap s" by (auto simp: sub_ok_def)
  have full: "length (ch s) = ch_cap s" if "\<not> length (ch s) < ch_cap s"
    using ok that by (simp add: sub_ok_def)
  show "ch_cap (publish_one s ev) = ch_cap s"
    using publish_one_full [OF ok full] publish_one_room by (cases "length (ch s) < ch_cap s") auto
  show "sub_ok (publish_one s ev)"
    using publish_one_full [OF ok full] publish_one_room ok
    by (cases "length (ch s) < ch_cap s") (auto simp: sub_ok_def)
  show "length (ch s) < ch_cap s \<Longrightarrow> ch (publish_one s ev) = ch s @ [ev] \<and> dropped (publish_one s ev) = dropped s"
    by (simp add: publish_one_room)
  show "length (ch s) = ch_cap s \<Longrightarrow> dropped (publish_one s ev) = dropped s + 1"
    and "length (ch s) = ch_cap s \<Longrightarrow> ch (publish_one s ev) = tl (ch s) @ [ev]"
    by (simp_all add: publish_one_full [OF ok])
qed

section \<open>The publisher's invariant\<close>

definition publisher_inv :: "Publisher \<Rightarrow> bool" where
  "publisher_inv p \<longleftrightarrow> distinct (map sub_name (subs p)) \<and> (\<forall>s\<in>set (subs p). sub_ok s)"

lemma sub_name_publish_one [simp]: "sub_name (publish_one s ev) = sub_name s"
  by (simp add: publish_one_def try_send_def discard_oldest_def resend_def split: option.split list.split)

lemma publisher_inv_new: "publisher_inv NewPublisher"
  by (simp add: publisher_inv_def NewPublisher_def)

lemma publisher_inv_Subscribe [inv_pres]: "publisher_inv p \<Longrightarrow> Subscribe nm c p = Inr p' \<Longrightarrow> publisher_inv p'"
  by (auto simp: Subscribe_def publisher_inv_def sub_ok_def list_ex_iff split: if_splits)

lemma publisher_inv_Publish [inv_pres]: "publisher_inv p \<Longrightarrow> publisher_inv (Publish ev p)"
  by (auto simp: Publish_def publisher_inv_def comp_def channel.invar_push)

lemma Dropped_foldl:
  "distinct (map sub_name ss) \<Longrightarrow> s \<in> set ss \<Longrightarrow>
   foldl (\<lambda>out s. out(sub_name s \<mapsto> dropped s)) m ss (sub_name s) = Some (dropped s)"
proof (induction ss rule: rev_induct)
  case (snoc x xs)
  show ?case
  proof (cases "s = x")
    case False
    then have "sub_name s \<noteq> sub_name x" using snoc.prems by (auto simp: image_iff)
    with False snoc show ?thesis by simp
  qed simp
qed simp

lemma Publish_all_subs:
  "subs (foldl (\<lambda>p ev. Publish ev p) p evs) = map (\<lambda>s. foldl publish_one s evs) (subs p)"
proof (induction evs arbitrary: p)
  case (Cons ev evs)
  show ?case by (simp add: Cons.IH) (simp add: Publish_def)
qed simp

section \<open>Delivery, interleaved\<close>

text \<open>
  Where \<open>Publish\<close> stands with one subscriber: between events, about to discard, about to retry.
  The history is the events published so far and the events the subscriber has consumed.
\<close>

datatype sender = Ready | Discarding Event | Retrying Event

inductive delivery_run :: "nat \<Rightarrow> Event list \<Rightarrow> Event list \<Rightarrow> sender \<Rightarrow> subscription \<Rightarrow> bool" for cap where
  dl_new: "ch s = [] \<Longrightarrow> ch_cap s = cap \<Longrightarrow> dropped s = 0 \<Longrightarrow> delivery_run cap [] [] Ready s"
| dl_send: "delivery_run cap pub con Ready s \<Longrightarrow> try_send s ev = Some s' \<Longrightarrow> delivery_run cap (pub @ [ev]) con Ready s'"
| dl_full: "delivery_run cap pub con Ready s \<Longrightarrow> try_send s ev = None \<Longrightarrow> delivery_run cap (pub @ [ev]) con (Discarding ev) s"
| dl_discard: "delivery_run cap pub con (Discarding ev) s \<Longrightarrow> delivery_run cap pub con (Retrying ev) (discard_oldest s)"
| dl_resend: "delivery_run cap pub con (Retrying ev) s \<Longrightarrow> delivery_run cap pub con Ready (resend s ev)"
| dl_consume: "delivery_run cap pub con pc s \<Longrightarrow> ch s = ev # rest \<Longrightarrow> delivery_run cap pub (con @ [ev]) pc (s\<lparr>ch := rest\<rparr>)"

text \<open>What is kept, in order: an event whose first send failed is still to come.\<close>

fun settled :: "sender \<Rightarrow> Event list \<Rightarrow> Event list" where
  "settled Ready pub = pub"
| "settled (Discarding ev) pub = butlast pub"
| "settled (Retrying ev) pub = butlast pub"

fun sending :: "sender \<Rightarrow> Event option" where
  "sending Ready = None"
| "sending (Discarding ev) = Some ev"
| "sending (Retrying ev) = Some ev"

definition delivery_inv :: "nat \<Rightarrow> Event list \<Rightarrow> Event list \<Rightarrow> sender \<Rightarrow> subscription \<Rightarrow> bool" where
  "delivery_inv cap pub con pc s \<longleftrightarrow>
    ch_cap s = cap \<and> length (ch s) \<le> cap
    \<and> (\<forall>ev. pc = Retrying ev \<longrightarrow> length (ch s) < cap)
    \<and> (\<forall>ev. sending pc = Some ev \<longrightarrow> pub \<noteq> [] \<and> last pub = ev)
    \<and> subseq (con @ ch s) (settled pc pub)
    \<and> dropped s + of_nat (length (con @ ch s)) = of_nat (length (settled pc pub))
    \<and> (pc = Ready \<and> pub \<noteq> [] \<longrightarrow> con @ ch s \<noteq> [] \<and> last (con @ ch s) = last pub)"

lemma delivery_run_inv:
  assumes "delivery_run cap pub con pc s" and "0 < cap"
  shows "delivery_inv cap pub con pc s"
  using assms(1)
proof induction
  case (dl_new s)
  then show ?case by (simp add: delivery_inv_def)
next
  case (dl_send pub con s ev s')
  then have s': "s' = s\<lparr>ch := ch s @ [ev]\<rparr>" "length (ch s) < ch_cap s"
    by (auto simp: try_send_def split: if_splits)
  moreover have "subseq ((con @ ch s) @ [ev]) (pub @ [ev])"
    using dl_send.IH by (intro list_emb_append_mono) (simp_all add: delivery_inv_def)
  ultimately show ?case using dl_send.IH by (simp add: delivery_inv_def algebra_simps)
next
  case (dl_full pub con s ev)
  then show ?case by (simp add: delivery_inv_def try_send_def split: if_splits)
next
  case (dl_discard pub con ev s)
  have "subseq (con @ rest) (butlast pub)" if "ch s = e # rest" for e rest
  proof -
    have "subseq (con @ e # rest) (butlast pub)" using dl_discard.IH that by (simp add: delivery_inv_def)
    then show ?thesis
      by (rule subseq_order.trans [rotated]) (intro list_emb_append_mono, simp_all add: list_emb_Cons)
  qed
  with dl_discard.IH assms(2) show ?case
    by (cases "ch s") (simp_all add: delivery_inv_def discard_oldest_def algebra_simps)
next
  case (dl_resend pub con ev s)
  then have room: "length (ch s) < ch_cap s" and last: "pub \<noteq> []" "last pub = ev"
    by (simp_all add: delivery_inv_def)
  then have r: "resend s ev = s\<lparr>ch := ch s @ [ev]\<rparr>" by (simp add: resend_def try_send_def)
  have pub: "butlast pub @ [ev] = pub" using append_butlast_last_id [OF last(1)] last(2) by simp
  have "subseq ((con @ ch s) @ [ev]) (butlast pub @ [ev])"
    using dl_resend.IH by (intro list_emb_append_mono) (simp_all add: delivery_inv_def)
  moreover have "dropped s + of_nat (length (con @ ch s) + 1) = of_nat (length (butlast pub @ [ev]))"
    using dl_resend.IH by (simp add: delivery_inv_def algebra_simps del: length_butlast)
  ultimately show ?case
    using dl_resend.IH room last unfolding pub by (simp add: delivery_inv_def r algebra_simps)
next
  case (dl_consume pub con pc s ev rest)
  then have eq: "con @ ch s = (con @ [ev]) @ rest" and len: "length rest \<le> length (ch s)" by simp_all
  from dl_consume.IH len show ?case
    unfolding delivery_inv_def eq by (cases pc) (simp_all del: append_assoc)
qed

section \<open>Delivery, seen from a subscriber\<close>

text \<open>
  What a subscriber was given and still has queued, against the events published: in order, ending
  with the newest, and short of exactly the number of events counted as dropped.
\<close>

definition delivered :: "Event list \<Rightarrow> subscription \<Rightarrow> bool" where
  "delivered pb s \<longleftrightarrow> sub_ok s \<and> subseq (consumed s @ ch s) pb
    \<and> dropped s + of_nat (length (consumed s @ ch s)) = of_nat (length pb)
    \<and> (pb \<noteq> [] \<longrightarrow> consumed s @ ch s \<noteq> [] \<and> last (consumed s @ ch s) = last pb)"

lemma delivered_turn: "delivered pb s \<Longrightarrow> delivered pb (delivery_turn s)"
  by (cases "ch s") (auto simp: delivered_def delivery_turn_def sub_ok_def)

lemma consumed_publish_one [simp]: "consumed (publish_one s ev) = consumed s"
  by (simp add: publish_one_def try_send_def discard_oldest_def resend_def split: option.split list.split)

lemma delivered_publish:
  assumes "delivered pb s"
  shows "delivered (pb @ [ev]) (publish_one s ev)"
proof (cases "length (ch s) < ch_cap s")
  case True
  have "subseq ((consumed s @ ch s) @ [ev]) (pb @ [ev])"
    using assms by (intro list_emb_append_mono) (simp_all add: delivered_def)
  with assms True show ?thesis
    unfolding publish_one_room [OF True] by (auto simp: delivered_def sub_ok_def algebra_simps)
next
  case False
  then have full: "length (ch s) = ch_cap s" and ok: "sub_ok s" using assms by (auto simp: delivered_def sub_ok_def)
  then obtain e rest where c: "ch s = e # rest" by (cases "ch s") (auto simp: sub_ok_def)
  have "subseq (consumed s @ rest) pb"
    using assms unfolding delivered_def c
    by (intro subseq_order.trans [of "consumed s @ rest" "consumed s @ e # rest" pb]) (auto intro: list_emb_append_mono)
  then have "subseq ((consumed s @ rest) @ [ev]) (pb @ [ev])" by (intro list_emb_append_mono) simp_all
  moreover have "dropped s + 1 + of_nat (length (consumed s @ rest @ [ev])) = of_nat (length (pb @ [ev]))"
    using assms by (simp add: delivered_def c algebra_simps)
  ultimately show ?thesis
    unfolding publish_one_full [OF ok full] using ok c full [symmetric] by (simp add: delivered_def sub_ok_def algebra_simps)
qed

section \<open>The log subscriber\<close>

datatype log_level = LevelInfo | LevelWarn | LevelError

datatype log_value = LogString bytes | LogInt int

record log_line =
  line_level :: log_level
  line_msg :: string
  line_attrs :: "(string \<times> log_value) list"

definition log_decimals :: "(Symbol \<Rightarrow> Instrument option) \<Rightarrow> Symbol \<Rightarrow> int \<times> int" where
  "log_decimals insts sy = (case insts sy of None \<Rightarrow> (0, 0) | Some inst \<Rightarrow> (PriceDecimals inst, QtyDecimals inst))"

definition kind_number :: "EventKind \<Rightarrow> int" where
  "kind_number k = (case k of KindTrade \<Rightarrow> 1 | KindBookDelta \<Rightarrow> 2 | KindSnapshot \<Rightarrow> 3 | KindOther n \<Rightarrow> int n)"

definition Consume :: "(Symbol \<Rightarrow> Instrument option) \<Rightarrow> Event \<Rightarrow> log_line" where
  "Consume insts ev =
    (case Kind ev of
       KindTrade \<Rightarrow>
        (let t = ev_Trade ev; (priceDec, qtyDec) = log_decimals insts (trade_Symbol t);
             side = (if IsBuy t then ''buy'' else ''sell'')
         in \<lparr>line_level = LevelInfo, line_msg = ''trade'', line_attrs =
              [(''symbol'', LogString (trade_Symbol t)),
               (''price'', LogString (FormatFixed (trade_Price t) priceDec)),
               (''qty'', LogString (FormatFixed (trade_Qty t) qtyDec)),
               (''side'', LogString side)]\<rparr>)
     | KindBookDelta \<Rightarrow>
        (let d = ev_BookDelta ev
         in \<lparr>line_level = LevelInfo, line_msg = ''book_delta'', line_attrs =
              [(''symbol'', LogString (delta_Symbol d)), (''first_id'', LogInt (FirstID d)),
               (''last_id'', LogInt (delta_LastID d)), (''bids'', LogInt (int (length (delta_Bids d)))),
               (''asks'', LogInt (int (length (delta_Asks d))))]\<rparr>)
     | KindSnapshot \<Rightarrow>
        (let s = ev_Snapshot ev
         in \<lparr>line_level = LevelInfo, line_msg = ''snapshot'', line_attrs =
              [(''symbol'', LogString (snap_Symbol s)), (''last_id'', LogInt (snap_LastID s)),
               (''bids'', LogInt (int (length (snap_Bids s)))), (''asks'', LogInt (int (length (snap_Asks s))))]\<rparr>)
     | KindOther n \<Rightarrow>
         \<lparr>line_level = LevelWarn, line_msg = ''unknown event kind'',
          line_attrs = [(''kind'', LogInt (kind_number (Kind ev)))]\<rparr>)"

text \<open>
  What a subscriber relies on of the instrument lookup: a symbol resolves to its own instrument,
  whose exponents are not negative. The exchange package provides it.
\<close>

locale instruments =
  fixes cache_ok :: "'c \<Rightarrow> bool"
    and lookup :: "'c \<Rightarrow> Symbol \<Rightarrow> Instrument option"
  assumes lookup_symbol: "cache_ok c \<Longrightarrow> lookup c sy = Some inst \<Longrightarrow> inst_Symbol inst = sy"
    and lookup_decimals: "cache_ok c \<Longrightarrow> lookup c sy = Some inst \<Longrightarrow> 0 \<le> PriceDecimals inst \<and> 0 \<le> QtyDecimals inst"
begin

lemma log_decimals_nonneg:
  "cache_ok c \<Longrightarrow> log_decimals (lookup c) sy = (p, q) \<Longrightarrow> 0 \<le> p \<and> 0 \<le> q"
  using lookup_decimals by (auto simp: log_decimals_def split: option.splits)

text \<open>The logged price and quantity read back exactly at the logged symbol's exponents.\<close>

lemma trade_line_round_trip:
  assumes "cache_ok c" and "Kind ev = KindTrade" and "in_i64 (trade_Price (ev_Trade ev))" and "in_i64 (trade_Qty (ev_Trade ev))"
    and dec: "log_decimals (lookup c) (trade_Symbol (ev_Trade ev)) = (p, q)"
  shows "\<exists>ps qs. map_of (line_attrs (Consume (lookup c) ev)) ''price'' = Some (LogString ps)
    \<and> map_of (line_attrs (Consume (lookup c) ev)) ''qty'' = Some (LogString qs)
    \<and> ParseFixed ps p = Inr (trade_Price (ev_Trade ev)) \<and> ParseFixed qs q = Inr (trade_Qty (ev_Trade ev))"
  using assms log_decimals_nonneg [OF assms(1) dec] by (simp add: Consume_def Let_def fixed_round_trip)

end

section \<open>Properties\<close>

text \<open>
  The fan-out never blocks and loses only the oldest. Publish any burst of events to any set of
  subscribers, none of them reading: \<open>Publish\<close> returns after each (it is a total function), every
  channel ends with the newest events up to its capacity, in publication order, whatever the other
  subscribers do, and \<open>Dropped\<close> reports under the subscriber's own name exactly the number of
  events it lost.
\<close>

lemma Publish_keeps_newest:
  assumes "publisher_inv p" and "s \<in> set (subs p)"
  shows "\<exists>s'\<in>set (subs (foldl (\<lambda>p ev. Publish ev p) p evs)).
      sub_name s' = sub_name s
    \<and> ch s' = drop (length (ch s @ evs) - ch_cap s) (ch s @ evs)
    \<and> Dropped (foldl (\<lambda>p ev. Publish ev p) p evs) (sub_name s)
        = Some (dropped s + of_nat (length (ch s @ evs) - ch_cap s))"
proof -
  let ?s = "foldl publish_one s evs" and ?p = "foldl (\<lambda>p ev. Publish ev p) p evs"
  have ok: "sub_ok s" using assms by (simp add: publisher_inv_def)
  have name: "sub_name (foldl publish_one t evs) = sub_name t" for t
    by (induction evs rule: rev_induct) simp_all
  have s: "?s \<in> set (subs ?p)" using assms(2) by (simp add: Publish_all_subs)
  have "distinct (map sub_name (subs ?p))"
    using assms(1) by (simp add: Publish_all_subs publisher_inv_def comp_def name)
  from Dropped_foldl [OF this s, of Map.empty] have "Dropped ?p (sub_name s) = Some (dropped ?s)"
    by (simp add: Dropped_def name)
  with channel.push_all [OF ok, of evs] s show ?thesis by (intro bexI [OF _ s]) (simp add: name)
qed

text \<open>
  C27. Delivery under any interleaving of \<open>Publish\<close> with the subscriber's goroutine, which may take an
  event between any two of the channel operations of \<open>Publish\<close>. Between two calls: what the
  subscriber has consumed followed by what is queued for it is a subsequence of what was
  published, in order and without repetition; it ends with the event published last, so the
  newest event is never the one lost; the counter is exactly the number of events missing; and the
  channel never exceeds its capacity. While the retry is pending there is room for it, so the last
  branch of \<open>Publish\<close>, which would drop the newest event, is never taken.
\<close>

theorem delivery_interleaved:
  assumes "delivery_run cap pub con pc s" and "0 < cap"
  shows "length (ch s) \<le> cap
    \<and> (pc = Ready \<longrightarrow> subseq (con @ ch s) pub
        \<and> dropped s + of_nat (length con + length (ch s)) = of_nat (length pub)
        \<and> (pub \<noteq> [] \<longrightarrow> con @ ch s \<noteq> [] \<and> last (con @ ch s) = last pub))
    \<and> (\<forall>ev. pc = Retrying ev \<longrightarrow> try_send s ev \<noteq> None)"
  using delivery_run_inv [OF assms] by (auto simp: delivery_inv_def try_send_def)

text \<open>C27 where the subscriber takes the event that was about to be discarded.\<close>

theorem delivery_interleaved_witness:
  "let s = \<lparr>sub_name = ''log'', ch = [], ch_cap = 1, ch_closed = False, dropped = 0, consumed = []\<rparr>; e = (\<lambda>n. zero_Event\<lparr>ExchangeTime := n\<rparr>)
   in delivery_run 1 [e 1, e 2] [e 1] Ready (s\<lparr>ch := [e 2]\<rparr>) \<and> last ([e 1] @ [e 2]) = e 2"
proof -
  let ?s = "\<lparr>sub_name = ''log'', ch = [], ch_cap = 1, ch_closed = False, dropped = 0, consumed = []\<rparr>" and ?e = "\<lambda>n. zero_Event\<lparr>ExchangeTime := n\<rparr>"
  have "delivery_run 1 [] [] Ready ?s" by (rule dl_new) simp_all
  from dl_send [OF this, of "?e 1"] have "delivery_run 1 [?e 1] [] Ready (?s\<lparr>ch := [?e 1]\<rparr>)"
    by (simp add: try_send_def)
  from dl_full [OF this, of "?e 2"] have "delivery_run 1 [?e 1, ?e 2] [] (Discarding (?e 2)) (?s\<lparr>ch := [?e 1]\<rparr>)"
    by (simp add: try_send_def)
  from dl_consume [OF this, of "?e 1" "[]"] have "delivery_run 1 [?e 1, ?e 2] [?e 1] (Discarding (?e 2)) ?s" by simp
  from dl_resend [OF dl_discard [OF this]] have run: "delivery_run 1 [?e 1, ?e 2] [?e 1] Ready (?s\<lparr>ch := [?e 2]\<rparr>)"
    by (simp add: discard_oldest_def resend_def try_send_def)
  from delivery_interleaved [OF run] run show ?thesis by (simp add: Let_def)
qed

end
