(* ===== verification/Instruments.thy ===== *)
theory Instruments
  imports Publisher
begin

text \<open>
  \<^verbatim>\<open>internal/exchange/binance/exchangeinfo.go\<close> and \<^verbatim>\<open>stream.go\<close>: the instrument cache, built
  from the exchangeInfo response, and the names and URLs derived from it. \<open>json.Unmarshal\<close> into the
  response struct is the parameter \<open>unmarshal\<close>: it gives the list of symbols of the body, a missing
  field being the empty string, or an error.
\<close>

record symbol_filter =
  FilterType :: bytes
  TickSize :: bytes
  StepSize :: bytes

record symbol_info =
  si_Symbol :: bytes
  Status :: bytes
  BaseAsset :: bytes
  QuoteAsset :: bytes
  Filters :: "symbol_filter list"

record entry =
  raw :: bytes
  inst :: Instrument

record InstrumentCache =
  cache_m :: "bytes \<rightharpoonup> Instrument"
  norm :: "Symbol \<rightharpoonup> entry"

definition Lookup :: "InstrumentCache \<Rightarrow> bytes \<Rightarrow> Instrument option" where
  "Lookup c rawSymbol = cache_m c rawSymbol"

definition LookupByNormalized :: "InstrumentCache \<Rightarrow> Symbol \<Rightarrow> Instrument option" where
  "LookupByNormalized c sy = map_option inst (norm c sy)"

definition RawSymbol :: "InstrumentCache \<Rightarrow> Symbol \<Rightarrow> (bytes \<times> Instrument) option" where
  "RawSymbol c sy = map_option (\<lambda>e. (raw e, inst e)) (norm c sy)"

datatype info_error =
    ExchangeInfoJSON bytes
  | MissingTickSize bytes
  | MissingStepSize bytes
  | EmptySize bytes

definition TrimRight0 :: "bytes \<Rightarrow> bytes" where
  "TrimRight0 s = rev (dropWhile (\<lambda>c. c = CHR ''0'') (rev s))"

definition sizeDecimals :: "bytes \<Rightarrow> int option" where
  "sizeDecimals s =
    (if s = [] then None
     else case Cut s CHR ''.'' of (_, frac, hasDot) \<Rightarrow> if \<not> hasDot then Some 0 else Some (int (length (TrimRight0 frac))))"

text \<open>The filters are scanned in order, the last of each kind wins.\<close>

definition filter_sizes :: "symbol_filter list \<Rightarrow> bytes \<times> bytes" where
  "filter_sizes fs =
    foldl (\<lambda>(tick, step) f.
      if FilterType f = ''PRICE_FILTER'' then (TickSize f, step)
      else if FilterType f = ''LOT_SIZE'' then (tick, StepSize f)
      else (tick, step)) ([], []) fs"

definition symbol_instrument :: "symbol_info \<Rightarrow> info_error + Instrument" where
  "symbol_instrument si =
    (case filter_sizes (Filters si) of (tickSize, stepSize) \<Rightarrow>
       if tickSize = [] then Inl (MissingTickSize (si_Symbol si))
       else if stepSize = [] then Inl (MissingStepSize (si_Symbol si))
       else case sizeDecimals tickSize of None \<Rightarrow> Inl (EmptySize (si_Symbol si))
         | Some priceDec \<Rightarrow>
            (case sizeDecimals stepSize of None \<Rightarrow> Inl (EmptySize (si_Symbol si))
             | Some qtyDec \<Rightarrow> Inr \<lparr>inst_Symbol = BaseAsset si @ ''-'' @ QuoteAsset si,
                                 PriceDecimals = priceDec, QtyDecimals = qtyDec\<rparr>))"

fun parse_symbols :: "InstrumentCache \<Rightarrow> symbol_info list \<Rightarrow> info_error + InstrumentCache" where
  "parse_symbols c [] = Inr c"
| "parse_symbols c (si # sis) =
    (if Status si \<noteq> ''TRADING'' then parse_symbols c sis
     else case symbol_instrument si of
       Inl e \<Rightarrow> Inl e
     | Inr i \<Rightarrow> parse_symbols (c\<lparr>cache_m := (cache_m c)(si_Symbol si \<mapsto> i),
                               norm := (norm c)(inst_Symbol i \<mapsto> \<lparr>raw = si_Symbol si, inst = i\<rparr>)\<rparr>) sis)"

definition empty_cache :: InstrumentCache where
  "empty_cache = \<lparr>cache_m = Map.empty, norm = Map.empty\<rparr>"

definition ParseExchangeInfo ::
  "(bytes \<Rightarrow> bytes + symbol_info list) \<Rightarrow> bytes \<Rightarrow> info_error + InstrumentCache" where
  "ParseExchangeInfo unmarshal data =
    (case unmarshal data of
       Inl e \<Rightarrow> Inl (ExchangeInfoJSON e)
     | Inr sis \<Rightarrow> parse_symbols empty_cache sis)"

definition rawSymbolName :: "Symbol \<Rightarrow> bytes" where
  "rawSymbolName sy = filter (\<lambda>c. c \<noteq> CHR ''-'') sy"

section \<open>The combined stream\<close>

definition streamSuffixes :: "bytes list" where
  "streamSuffixes = [''@aggTrade'', ''@depth@100ms'']"

text \<open>\<open>strings.ToLower\<close> on ASCII text, which exchange symbols are.\<close>

definition to_lower :: "char \<Rightarrow> char" where
  "to_lower c = (let n = (of_char c :: nat) in if 65 \<le> n \<and> n \<le> 90 then char_of (n + 32) else c)"

datatype stream_error = NoSymbols | UnknownStreamSymbol Symbol

fun stream_names :: "InstrumentCache \<Rightarrow> Symbol list \<Rightarrow> stream_error + bytes list" where
  "stream_names c [] = Inr []"
| "stream_names c (sy # sys) =
    (case RawSymbol c sy of
       None \<Rightarrow> Inl (UnknownStreamSymbol sy)
     | Some (rw, _) \<Rightarrow>
        (case stream_names c sys of
           Inl e \<Rightarrow> Inl e
         | Inr names \<Rightarrow> Inr (map (\<lambda>suffix. map to_lower rw @ suffix) streamSuffixes @ names)))"

fun slash_join :: "bytes list \<Rightarrow> bytes" where
  "slash_join [] = []"
| "slash_join [x] = x"
| "slash_join (x # y # ys) = x @ CHR ''/'' # slash_join (y # ys)"

definition trim_slash :: "bytes \<Rightarrow> bytes" where
  "trim_slash s = (if s \<noteq> [] \<and> last s = CHR ''/'' then butlast s else s)"

definition CombinedStreamURL :: "bytes \<Rightarrow> InstrumentCache \<Rightarrow> Symbol list \<Rightarrow> stream_error + bytes" where
  "CombinedStreamURL base c symbols =
    (if symbols = [] then Inl NoSymbols
     else case stream_names c symbols of
       Inl e \<Rightarrow> Inl e
     | Inr names \<Rightarrow> Inr (trim_slash base @ ''/stream?streams='' @ slash_join names))"

section \<open>What a parsed cache guarantees\<close>

definition cache_ok :: "InstrumentCache \<Rightarrow> bool" where
  "cache_ok c \<longleftrightarrow> (\<forall>sy e. norm c sy = Some e \<longrightarrow>
      inst_Symbol (inst e) = sy \<and> 0 \<le> PriceDecimals (inst e) \<and> 0 \<le> QtyDecimals (inst e))
    \<and> (\<forall>rw i. cache_m c rw = Some i \<longrightarrow>
      0 \<le> PriceDecimals i \<and> 0 \<le> QtyDecimals i \<and> norm c (inst_Symbol i) \<noteq> None)"

lemma sizeDecimals_nonneg: "sizeDecimals s = Some d \<Longrightarrow> 0 \<le> d"
  by (auto simp: sizeDecimals_def split: if_splits prod.splits)

lemma symbol_instrument_ok:
  "symbol_instrument si = Inr i \<Longrightarrow>
   inst_Symbol i = BaseAsset si @ ''-'' @ QuoteAsset si \<and> 0 \<le> PriceDecimals i \<and> 0 \<le> QtyDecimals i"
  by (auto simp: symbol_instrument_def sizeDecimals_nonneg split: prod.splits if_splits option.splits)

lemma parse_symbols_ok: "cache_ok c \<Longrightarrow> parse_symbols c sis = Inr c' \<Longrightarrow> cache_ok c'"
proof (induction c sis rule: parse_symbols.induct)
  case (2 c si sis)
  show ?case
  proof (cases "Status si = ''TRADING''")
    case True
    then obtain i where i: "symbol_instrument si = Inr i"
      using 2(4) by (auto split: sum.splits)
    have "cache_ok (c\<lparr>cache_m := (cache_m c)(si_Symbol si \<mapsto> i),
        norm := (norm c)(inst_Symbol i \<mapsto> \<lparr>raw = si_Symbol si, inst = i\<rparr>)\<rparr>)"
      using 2(3) symbol_instrument_ok [OF i] by (auto simp: cache_ok_def)
    with 2 True i show ?thesis by simp
  qed (use 2 in simp)
qed simp

lemma ParseExchangeInfo_cache_ok: "ParseExchangeInfo un data = Inr c \<Longrightarrow> cache_ok c"
proof -
  assume "ParseExchangeInfo un data = Inr c"
  moreover have "cache_ok empty_cache" by (simp add: cache_ok_def empty_cache_def)
  ultimately show "cache_ok c" using parse_symbols_ok by (auto simp: ParseExchangeInfo_def split: sum.splits)
qed

interpretation binance_cache: instruments cache_ok LookupByNormalized
  by unfold_locales (auto simp: cache_ok_def LookupByNormalized_def)

definition nsym :: "symbol_info \<Rightarrow> Symbol" where
  "nsym si = BaseAsset si @ ''-'' @ QuoteAsset si"

definition trading :: "symbol_info list \<Rightarrow> symbol_info list" where
  "trading sis = filter (\<lambda>si. Status si = ''TRADING'') sis"

lemma parse_symbols_step:
  "Status si = ''TRADING'' \<Longrightarrow> parse_symbols c (si # sis) = Inr c' \<Longrightarrow>
   \<exists>i. symbol_instrument si = Inr i \<and> inst_Symbol i = nsym si
     \<and> parse_symbols (c\<lparr>cache_m := (cache_m c)(si_Symbol si \<mapsto> i),
          norm := (norm c)(nsym si \<mapsto> \<lparr>raw = si_Symbol si, inst = i\<rparr>)\<rparr>) sis = Inr c'"
  using symbol_instrument_ok [of si] by (auto simp: nsym_def split: sum.splits)

text \<open>A symbol that is not listed keeps its entry; a listed one has the entry of its line.\<close>

lemma parse_symbols_frame:
  assumes "parse_symbols c sis = Inr c'"
  shows "(rw \<notin> si_Symbol ` set (trading sis) \<longrightarrow> cache_m c' rw = cache_m c rw)
    \<and> (sy \<notin> nsym ` set (trading sis) \<longrightarrow> norm c' sy = norm c sy)"
  using assms
proof (induction sis arbitrary: c)
  case (Cons si sis)
  show ?case
  proof (cases "Status si = ''TRADING''")
    case True
    from parse_symbols_step [OF True Cons.prems] obtain i where
      "parse_symbols (c\<lparr>cache_m := (cache_m c)(si_Symbol si \<mapsto> i),
          norm := (norm c)(nsym si \<mapsto> \<lparr>raw = si_Symbol si, inst = i\<rparr>)\<rparr>) sis = Inr c'" by blast
    from Cons.IH [OF this] True show ?thesis by (auto simp: trading_def)
  qed (use Cons in \<open>simp add: trading_def\<close>)
qed simp

lemma parse_symbols_entry:
  assumes "parse_symbols c sis = Inr c'" and "distinct (map si_Symbol (trading sis))" and "distinct (map nsym (trading sis))"
    and "si \<in> set (trading sis)"
  shows "\<exists>i. symbol_instrument si = Inr i \<and> cache_m c' (si_Symbol si) = Some i
    \<and> norm c' (nsym si) = Some \<lparr>raw = si_Symbol si, inst = i\<rparr>"
  using assms
proof (induction sis arbitrary: c)
  case (Cons s sis)
  show ?case
  proof (cases "Status s = ''TRADING''")
    case True
    from parse_symbols_step [OF True Cons.prems(1)] obtain i where i: "symbol_instrument s = Inr i"
      and p: "parse_symbols (c\<lparr>cache_m := (cache_m c)(si_Symbol s \<mapsto> i),
          norm := (norm c)(nsym s \<mapsto> \<lparr>raw = si_Symbol s, inst = i\<rparr>)\<rparr>) sis = Inr c'" by blast
    show ?thesis
    proof (cases "si = s")
      case eq: True
      have "si_Symbol s \<notin> si_Symbol ` set (trading sis)" "nsym s \<notin> nsym ` set (trading sis)"
        using Cons.prems(2,3) True by (simp_all add: trading_def)
      with parse_symbols_frame [OF p, of "si_Symbol s" "nsym s"] i eq show ?thesis by simp
    next
      case False
      with Cons.prems True show ?thesis by (intro Cons.IH [OF p]) (simp_all add: trading_def)
    qed
  qed (use Cons in \<open>simp add: trading_def\<close>)
qed (simp add: trading_def)

section \<open>Properties\<close>

text \<open>
  C30. The instrument cache is the exchange's list. When the body parses and lists each trading
  instrument once, every trading symbol is found under its raw name and under BASE-QUOTE with
  exponents from its own filters, and the two directions agree: the raw name of the normalised
  symbol of a raw name is that raw name. A raw name or a normalised symbol that is not on the list
  of trading symbols is unknown.
\<close>

theorem ParseExchangeInfo_exact:
  assumes "unmarshal data = Inr sis" and "ParseExchangeInfo unmarshal data = Inr c"
    and "distinct (map si_Symbol (trading sis))" and "distinct (map nsym (trading sis))"
  shows "(\<forall>si\<in>set (trading sis). \<exists>i. symbol_instrument si = Inr i
        \<and> Lookup c (si_Symbol si) = Some i \<and> LookupByNormalized c (inst_Symbol i) = Some i
        \<and> RawSymbol c (inst_Symbol i) = Some (si_Symbol si, i))
    \<and> (\<forall>rw. Lookup c rw \<noteq> None \<longrightarrow> rw \<in> si_Symbol ` set (trading sis))
    \<and> (\<forall>sy. RawSymbol c sy \<noteq> None \<longrightarrow> sy \<in> nsym ` set (trading sis))"
proof -
  have p: "parse_symbols empty_cache sis = Inr c"
    using assms(1,2) by (simp add: ParseExchangeInfo_def)
  have "\<exists>i. symbol_instrument si = Inr i
        \<and> Lookup c (si_Symbol si) = Some i \<and> LookupByNormalized c (inst_Symbol i) = Some i
        \<and> RawSymbol c (inst_Symbol i) = Some (si_Symbol si, i)" if "si \<in> set (trading sis)" for si
    using parse_symbols_entry [OF p assms(3,4) that] symbol_instrument_ok [of si]
    by (auto simp: Lookup_def LookupByNormalized_def RawSymbol_def nsym_def)
  moreover have "rw \<in> si_Symbol ` set (trading sis)" if "Lookup c rw \<noteq> None" for rw
    using parse_symbols_frame [OF p, of rw] that by (auto simp: Lookup_def empty_cache_def)
  moreover have "sy \<in> nsym ` set (trading sis)" if "RawSymbol c sy \<noteq> None" for sy
    using parse_symbols_frame [OF p, of _ sy] that by (auto simp: RawSymbol_def empty_cache_def)
  ultimately show ?thesis by blast
qed

text \<open>C30 on a list of one trading symbol and one that is halted.\<close>

definition ex_info :: "symbol_info list" where
  "ex_info = [\<lparr>si_Symbol = ''BTCUSDT'', Status = ''TRADING'', BaseAsset = ''BTC'', QuoteAsset = ''USDT'',
      Filters = [\<lparr>FilterType = ''PRICE_FILTER'', TickSize = ''0.01000000'', StepSize = []\<rparr>,
        \<lparr>FilterType = ''LOT_SIZE'', TickSize = [], StepSize = ''0.00001000''\<rparr>]\<rparr>,
    \<lparr>si_Symbol = ''OLDUSDT'', Status = ''BREAK'', BaseAsset = ''OLD'', QuoteAsset = ''USDT'', Filters = []\<rparr>]"

definition ex_cache :: InstrumentCache where
  "ex_cache =
    (let i = \<lparr>inst_Symbol = ''BTC-USDT'', PriceDecimals = 2, QtyDecimals = 5\<rparr>
     in \<lparr>cache_m = [''BTCUSDT'' \<mapsto> i], norm = [''BTC-USDT'' \<mapsto> \<lparr>raw = ''BTCUSDT'', inst = i\<rparr>]\<rparr>)"

lemma ex_cache_parsed: "ParseExchangeInfo (\<lambda>_. Inr ex_info) [] = Inr ex_cache"
  by (simp add: ParseExchangeInfo_def ex_info_def symbol_instrument_def filter_sizes_def sizeDecimals_def
      TrimRight0_def empty_cache_def ex_cache_def Let_def)

lemma ex_cache_facts:
  "Lookup ex_cache ''BTCUSDT'' = Some \<lparr>inst_Symbol = ''BTC-USDT'', PriceDecimals = 2, QtyDecimals = 5\<rparr>"
  "RawSymbol ex_cache ''BTC-USDT'' = Some (''BTCUSDT'', \<lparr>inst_Symbol = ''BTC-USDT'', PriceDecimals = 2, QtyDecimals = 5\<rparr>)"
  "distinct (map si_Symbol (trading ex_info)) \<and> distinct (map nsym (trading ex_info))"
  by (simp_all add: ex_cache_def Let_def Lookup_def RawSymbol_def trading_def ex_info_def nsym_def)

theorem ParseExchangeInfo_exact_witness:
  "ParseExchangeInfo (\<lambda>_. Inr ex_info) [] = Inr ex_cache \<and> ''OLDUSDT'' \<notin> si_Symbol ` set (trading ex_info)
   \<and> Lookup ex_cache ''OLDUSDT'' = None"
proof -
  have not: "''OLDUSDT'' \<notin> si_Symbol ` set (trading ex_info)" by (simp add: trading_def ex_info_def)
  have "(\<lambda>_. Inr ex_info) [] = Inr ex_info" by simp
  from ParseExchangeInfo_exact [of "\<lambda>_. Inr ex_info" "[]", OF _ ex_cache_parsed] ex_cache_facts(3) not
    ex_cache_parsed show ?thesis by blast
qed

lemma TrimRight0_drop:
  "(\<exists>c\<in>set (drop d f). c \<noteq> CHR ''0'') \<longleftrightarrow> d < length (TrimRight0 f)"
proof (induction f rule: rev_induct)
  case (snoc c f)
  show ?case
  proof (cases "c = CHR ''0''")
    case True
    then have "TrimRight0 (f @ [c]) = TrimRight0 f" by (simp add: TrimRight0_def)
    with snoc True show ?thesis by (cases "d \<le> length f") auto
  next
    case False
    then have "TrimRight0 (f @ [c]) = f @ [c]" by (simp add: TrimRight0_def)
    with False show ?thesis by (cases "d \<le> length f") auto
  qed
qed (simp add: TrimRight0_def)

text \<open>
  \<open>sizeDecimals\<close> is the right exponent: for a size written as a decimal it is the smallest
  exponent at which \<open>ParseFixed\<close> can represent the size, so a price on the tick grid never fails
  with \<open>ErrTooManyDecimals\<close> and no precision is carried for nothing.
\<close>

lemma sizeDecimals_least:
  assumes "is_digits I" and "is_digits (fraction_of F)" and "decimal False I F \<noteq> []"
  shows "\<exists>d\<ge>0. sizeDecimals (decimal False I F) = Some d
    \<and> (\<forall>e\<ge>0. ParseFixed (decimal False I F) e = Inl ErrTooManyDecimals \<longleftrightarrow> e < d)"
proof -
  let ?d = "int (length (TrimRight0 (fraction_of F)))"
  have "sizeDecimals (decimal False I F) = Some ?d"
    using assms(3) by (cases F) (simp_all add: sizeDecimals_def Cut_decimal [OF assms(1)] fraction_of_def TrimRight0_def)
  moreover have "ParseFixed (decimal False I F) e = Inl ErrTooManyDecimals \<longleftrightarrow> e < ?d" if "0 \<le> e" for e
  proof -
    obtain n where e: "e = int n" using \<open>0 \<le> e\<close> by (metis nonneg_int_cases)
    show ?thesis
      unfolding e ParseFixed_decimal_eq [OF assms] TrimRight0_drop by (simp add: Let_def)
  qed
  ultimately show ?thesis by (intro exI [of _ ?d]) simp
qed

lemma stream_names_eq:
  "stream_names c symbols = Inr names \<longleftrightarrow> list_all (\<lambda>sy. RawSymbol c sy \<noteq> None) symbols
    \<and> names = concat (map (\<lambda>sy. map (\<lambda>suffix. map to_lower (fst (the (RawSymbol c sy))) @ suffix) streamSuffixes) symbols)"
proof (induction symbols arbitrary: names)
  case (Cons sy symbols)
  show ?case
  proof (cases "RawSymbol c sy")
    case (Some p)
    obtain rw i where p: "p = (rw, i)" by fastforce
    show ?thesis
    proof (cases "stream_names c symbols")
      case (Inl e)
      then have "\<not> list_all (\<lambda>sy. RawSymbol c sy \<noteq> None) symbols"
        using Cons.IH [THEN iffD2, OF conjI, OF _ refl] by fastforce
      with Inl Some p show ?thesis by simp
    next
      case (Inr ns)
      with Cons.IH [of ns] Some p show ?thesis by auto
    qed
  qed simp
qed auto

lemma filter_absent: "x \<notin> set xs \<Longrightarrow> filter (\<lambda>c. c \<noteq> x) xs = xs"
  by (induction xs) auto

text \<open>
  The combined stream URL subscribes, in order, to both streams of every symbol under its lower-case
  raw name, and is refused exactly when there is no symbol or one of them is unknown to the cache. The
  name used to ask for a symbol before there is a cache is the concatenation of its two assets.
\<close>

lemma CombinedStreamURL_exact:
  "(CombinedStreamURL base c symbols = Inr url \<longleftrightarrow> symbols \<noteq> [] \<and> list_all (\<lambda>sy. RawSymbol c sy \<noteq> None) symbols
     \<and> url = trim_slash base @ ''/stream?streams='' @ slash_join
         (concat (map (\<lambda>sy. map (\<lambda>suffix. map to_lower (fst (the (RawSymbol c sy))) @ suffix) streamSuffixes) symbols)))
   \<and> (CHR ''-'' \<notin> set b \<and> CHR ''-'' \<notin> set q \<longrightarrow> rawSymbolName (b @ ''-'' @ q) = b @ q)"
proof
  show "CombinedStreamURL base c symbols = Inr url \<longleftrightarrow> symbols \<noteq> [] \<and> list_all (\<lambda>sy. RawSymbol c sy \<noteq> None) symbols
     \<and> url = trim_slash base @ ''/stream?streams='' @ slash_join
         (concat (map (\<lambda>sy. map (\<lambda>suffix. map to_lower (fst (the (RawSymbol c sy))) @ suffix) streamSuffixes) symbols))"
  proof (cases "stream_names c symbols")
    case (Inl e)
    then have "\<not> list_all (\<lambda>sy. RawSymbol c sy \<noteq> None) symbols"
      using stream_names_eq [of c symbols] by auto
    with Inl show ?thesis by (simp add: CombinedStreamURL_def)
  next
    case (Inr names)
    then show ?thesis using stream_names_eq [of c symbols names] by (auto simp: CombinedStreamURL_def)
  qed
  show "CHR ''-'' \<notin> set b \<and> CHR ''-'' \<notin> set q \<longrightarrow> rawSymbolName (b @ ''-'' @ q) = b @ q"
    by (simp add: rawSymbolName_def filter_absent)
qed

end
