(* ===== verification/JsonScan.thy ===== *)
theory JsonScan
  imports Prelude "HOL-Library.Sublist"
begin

text \<open>
  \<^verbatim>\<open>internal/exchange/binance/jsonscan.go\<close>: the scanner that locates one key of the top level
  of a JSON object. A position \<open>i\<close> in \<open>data\<close> is the rest of the data from \<open>i\<close> on, so a function
  that returns the next index returns the rest after it, and the span \<open>data[start:end]\<close> is what
  the rest at \<open>start\<close> has before the rest at \<open>end\<close>. The contract the source states is then proved
  against a grammar of JSON texts, with any white space.
\<close>

abbreviation quote :: char where
  "quote \<equiv> CHR 0x22"

abbreviation bslash :: char where
  "bslash \<equiv> CHR 0x5C"

definition is_space :: "char \<Rightarrow> bool" where
  "is_space c \<longleftrightarrow> c = CHR '' '' \<or> c = CHR 0x09 \<or> c = CHR 0x0A \<or> c = CHR 0x0D"

fun skipSpace :: "bytes \<Rightarrow> bytes" where
  "skipSpace [] = []"
| "skipSpace (c # cs) = (if is_space c then skipSpace cs else c # cs)"

fun scan_body :: "bytes \<Rightarrow> bytes \<Rightarrow> (bytes \<times> bytes) option" where
  "scan_body content [] = None"
| "scan_body content (c # cs) =
    (if c = bslash then (case cs of [] \<Rightarrow> None | d # ds \<Rightarrow> scan_body (content @ [c, d]) ds)
     else if c = quote then Some (content, cs)
     else scan_body (content @ [c]) cs)"

definition scanString :: "bytes \<Rightarrow> (bytes \<times> bytes) option" where
  "scanString data = scan_body [] (tl data)"

lemma scan_body_length: "scan_body acc data = Some (content, rest) \<Longrightarrow> length rest < length data"
  by (induction acc data rule: scan_body.induct) (auto split: if_splits list.splits)

lemma scanString_length: "scanString (c # cs) = Some (content, rest) \<Longrightarrow> length rest < length cs"
  using scan_body_length by (fastforce simp: scanString_def)

function skip_nested :: "int \<Rightarrow> bytes \<Rightarrow> bytes option" where
  "skip_nested depth [] = None"
| "skip_nested depth (c # cs) =
    (if c = CHR ''{'' \<or> c = CHR ''['' then skip_nested (depth + 1) cs
     else if c = CHR ''}'' \<or> c = CHR '']'' then if depth - 1 = 0 then Some cs else skip_nested (depth - 1) cs
     else if c = quote then (case scanString (c # cs) of None \<Rightarrow> None | Some (_, rest) \<Rightarrow> skip_nested depth rest)
     else skip_nested depth cs)"
  by pat_completeness auto
termination
  by (relation "measure (\<lambda>(depth, data). length data)") (auto dest: scanString_length)

definition ends_scalar :: "char \<Rightarrow> bool" where
  "ends_scalar c \<longleftrightarrow> c = CHR '','' \<or> c = CHR ''}'' \<or> c = CHR '']'' \<or> is_space c"

fun skip_scalar :: "bool \<Rightarrow> bytes \<Rightarrow> bytes option" where
  "skip_scalar at_start [] = None"
| "skip_scalar at_start (c # cs) =
    (if ends_scalar c then if at_start then None else Some (c # cs) else skip_scalar False cs)"

definition skipValue :: "bytes \<Rightarrow> bytes option" where
  "skipValue data =
    (case data of
       [] \<Rightarrow> None
     | c # _ \<Rightarrow>
        if c = quote then map_option snd (scanString data)
        else if c = CHR ''{'' \<or> c = CHR ''['' then skip_nested 0 data
        else skip_scalar True data)"

definition span :: "bytes \<Rightarrow> bytes \<Rightarrow> bytes" where
  "span start end = take (length start - length end) start"

lemma skipSpace_length: "length (skipSpace cs) \<le> length cs"
  by (induction cs) auto

lemma skip_nested_length: "skip_nested depth data = Some rest \<Longrightarrow> length rest < length data"
proof (induction depth data rule: skip_nested.induct)
  case (2 depth c cs)
  consider (opens) "c = CHR ''{'' \<or> c = CHR ''[''" | (closes) "c = CHR ''}'' \<or> c = CHR '']''" | (str) "c = quote"
    | (other) "c \<noteq> CHR ''{''" "c \<noteq> CHR ''[''" "c \<noteq> CHR ''}''" "c \<noteq> CHR '']''" "c \<noteq> quote"
    by blast
  then show ?case
  proof cases
    case opens
    with 2 show ?thesis by auto
  next
    case closes
    with 2 show ?thesis by (auto split: if_splits)
  next
    case str
    with 2(5) obtain content r where r: "scanString (c # cs) = Some (content, r)" "skip_nested depth r = Some rest"
      by (auto split: option.splits)
    with 2(3) [of "(content, r)" content r] str scanString_length [OF r(1)] show ?thesis by simp
  next
    case other
    with 2 show ?thesis by auto
  qed
qed simp

lemma skip_scalar_length: "skip_scalar b data = Some rest \<Longrightarrow> length rest \<le> length data"
  by (induction b data rule: skip_scalar.induct) (auto split: if_splits)

lemma skipValue_length: "skipValue data = Some rest \<Longrightarrow> length rest \<le> length data"
  using scanString_length [of "hd data" "tl data"] skip_nested_length skip_scalar_length
  by (fastforce simp: skipValue_def split: list.splits if_splits)

text \<open>The loop of \<open>fieldValue\<close>, entered after the opening brace and after each comma.\<close>

function field_loop :: "bytes \<Rightarrow> bytes \<Rightarrow> bytes option" where
  "field_loop key data =
    (case skipSpace data of
       [] \<Rightarrow> None
     | c # cs \<Rightarrow>
        if c \<noteq> quote then None
        else case scanString (c # cs) of
          None \<Rightarrow> None
        | Some (nm, next) \<Rightarrow>
           (case skipSpace next of
              [] \<Rightarrow> None
            | c' # cs' \<Rightarrow>
               if c' \<noteq> CHR '':'' then None
               else let start = skipSpace cs'
                 in case skipValue start of
                      None \<Rightarrow> None
                    | Some end \<Rightarrow>
                       if nm = key then Some (span start end)
                       else (case skipSpace end of
                               [] \<Rightarrow> None
                             | c'' # cs'' \<Rightarrow> if c'' = CHR '','' then field_loop key cs'' else None)))"
  by pat_completeness auto
termination
proof (relation "measure (\<lambda>(key, data). length data)")
  fix key data c cs p nm nx c' cs' start e c'' cs''
  assume "skipSpace data = c # cs" and "scanString (c # cs) = Some p" and "(nm, nx) = p"
    and "skipSpace nx = c' # cs'" and "start = skipSpace cs'" and "skipValue start = Some e" and "skipSpace e = c'' # cs''"
  then have "length cs'' < length e" "length e \<le> length start" "length start \<le> length cs'" "length cs' < length nx"
    "length nx < length cs" "length cs < length data"
    using skipSpace_length [of data] skipSpace_length [of nx] skipSpace_length [of cs'] skipSpace_length [of e]
      scanString_length [of c cs nm nx] skipValue_length [of start e] by auto
  then show "((key, cs''), (key, data)) \<in> measure (\<lambda>(key, data). length data)" by simp
qed simp

declare field_loop.simps [simp del]

definition fieldValue :: "bytes \<Rightarrow> bytes \<Rightarrow> bytes option" where
  "fieldValue data key =
    (case skipSpace data of [] \<Rightarrow> None | c # cs \<Rightarrow> if c \<noteq> CHR ''{'' then None else field_loop key cs)"

definition stringField :: "bytes \<Rightarrow> bytes \<Rightarrow> bytes option" where
  "stringField data key =
    (case fieldValue data key of
       None \<Rightarrow> None
     | Some raw \<Rightarrow>
        if length raw < 2 \<or> raw ! 0 \<noteq> quote \<or> raw ! (length raw - 1) \<noteq> quote then None
        else let inner = take (length raw - 2) (drop 1 raw)
          in if list_ex (\<lambda>c. c = bslash) inner then None else Some inner)"

section \<open>A grammar of JSON texts\<close>

fun string_body :: "bytes \<Rightarrow> bool" where
  "string_body [] = True"
| "string_body (c # cs) =
    (if c = bslash then (case cs of [] \<Rightarrow> False | d # ds \<Rightarrow> string_body ds) else c \<noteq> quote \<and> string_body cs)"

definition spaces :: "bytes \<Rightarrow> bool" where
  "spaces w \<longleftrightarrow> (\<forall>c\<in>set w. is_space c)"

definition scalar_char :: "char \<Rightarrow> bool" where
  "scalar_char c \<longleftrightarrow> \<not> ends_scalar c \<and> c \<noteq> quote \<and> c \<noteq> CHR ''{'' \<and> c \<noteq> CHR ''[''"

fun comma_join :: "bytes list \<Rightarrow> bytes" where
  "comma_join [] = []"
| "comma_join [x] = x"
| "comma_join (x # y # ys) = x @ CHR '','' # comma_join (y # ys)"

text \<open>
  A member of an object: the name, the text of the value, and the white space before the name,
  before and after the colon, and after the value.
\<close>

record member =
  m_pre :: bytes
  m_name :: bytes
  m_mid :: bytes
  m_post :: bytes
  m_value :: bytes
  m_end :: bytes

definition member_text :: "member \<Rightarrow> bytes" where
  "member_text m = m_pre m @ quote # m_name m @ quote # m_mid m @ CHR '':'' # m_post m @ m_value m @ m_end m"

definition member_spaces :: "member \<Rightarrow> bool" where
  "member_spaces m \<longleftrightarrow> spaces (m_pre m) \<and> spaces (m_mid m) \<and> spaces (m_post m) \<and> spaces (m_end m)"

text \<open>
  \<open>json s\<close>: the text of one value without surrounding space. A scalar is any run of characters
  that are not structural, which includes every number, \<open>true\<close>, \<open>false\<close> and \<open>null\<close>.
\<close>

inductive json :: "bytes \<Rightarrow> bool" where
  j_scalar: "s \<noteq> [] \<Longrightarrow> \<forall>c\<in>set s. scalar_char c \<Longrightarrow> json s"
| j_string: "string_body b \<Longrightarrow> json (quote # b @ [quote])"
| j_empty: "spaces w \<Longrightarrow> (l, r) = (CHR ''['', CHR '']'') \<or> (l, r) = (CHR ''{'', CHR ''}'') \<Longrightarrow> json (l # w @ [r])"
| j_array: "xs \<noteq> [] \<Longrightarrow> \<forall>x\<in>set xs. spaces (fst x) \<and> json (fst (snd x)) \<and> spaces (snd (snd x)) \<Longrightarrow>
    json (CHR ''['' # comma_join (map (\<lambda>x. fst x @ fst (snd x) @ snd (snd x)) xs) @ [CHR '']''])"
| j_object: "ms \<noteq> [] \<Longrightarrow> \<forall>m\<in>set ms. member_spaces m \<and> string_body (m_name m) \<and> json (m_value m) \<Longrightarrow>
    json (CHR ''{'' # comma_join (map member_text ms) @ [CHR ''}''])"

section \<open>The scanner on well-formed text\<close>

lemma skipSpace_append: "spaces w \<Longrightarrow> skipSpace (w @ s) = skipSpace s"
  by (induction w) (auto simp: spaces_def)

lemma scan_body_string: "string_body b \<Longrightarrow> scan_body acc (b @ quote # rest) = Some (acc @ b, rest)"
proof (induction b arbitrary: acc rule: string_body.induct)
  case (2 c cs)
  show ?case
  proof (cases "c = bslash")
    case True
    with 2(3) obtain d ds where "cs = d # ds" "string_body ds" by (auto split: list.splits)
    with True 2(1) [OF True, of d ds "acc @ [c, d]"] show ?thesis by simp
  next
    case False
    with 2(3) have "c \<noteq> quote" "string_body cs" by simp_all
    with False 2(2) [OF False, of "acc @ [c]"] show ?thesis by simp
  qed
qed simp

lemma scanString_string: "string_body b \<Longrightarrow> scanString (quote # b @ quote # rest) = Some (b, rest)"
  by (simp add: scanString_def scan_body_string)

text \<open>A text the nesting loop passes over without changing its depth.\<close>

definition skips :: "bytes \<Rightarrow> bool" where
  "skips s \<longleftrightarrow> (\<forall>d rest. 0 < d \<longrightarrow> skip_nested d (s @ rest) = skip_nested d rest)"

lemma skips_append: "skips a \<Longrightarrow> skips b \<Longrightarrow> skips (a @ b)"
  by (simp add: skips_def)

lemma skips_plain:
  "\<forall>c\<in>set s. c \<noteq> CHR ''{'' \<and> c \<noteq> CHR ''['' \<and> c \<noteq> CHR ''}'' \<and> c \<noteq> CHR '']'' \<and> c \<noteq> quote \<Longrightarrow> skips s"
  unfolding skips_def by (induction s) auto

lemma is_space_plain:
  "is_space c \<Longrightarrow> c \<noteq> CHR ''{'' \<and> c \<noteq> CHR ''['' \<and> c \<noteq> CHR ''}'' \<and> c \<noteq> CHR '']'' \<and> c \<noteq> quote"
  by (auto simp: is_space_def)

lemma skips_spaces: "spaces w \<Longrightarrow> skips w"
  by (rule skips_plain) (simp add: spaces_def is_space_plain)

lemma skips_string: "string_body b \<Longrightarrow> skips (quote # b @ [quote])"
  by (simp add: skips_def scanString_string)

lemma skips_comma_join: "\<forall>x\<in>set xs. skips x \<Longrightarrow> skips (comma_join xs)"
proof (induction xs rule: comma_join.induct)
  case (3 x y ys)
  have "skips [CHR '','']" by (rule skips_plain) simp
  with 3 have "skips (x @ [CHR '',''] @ comma_join (y # ys))" by (intro skips_append) simp_all
  then show ?case by simp
qed (simp_all add: skips_def)

lemma skips_bracket:
  assumes "skips body" and "(l, r) = (CHR ''['', CHR '']'') \<or> (l, r) = (CHR ''{'', CHR ''}'')"
  shows "skips (l # body @ [r])" and "skip_nested 0 (l # body @ r # rest) = Some rest"
  using assms by (auto simp: skips_def)

lemma skips_member:
  assumes "member_spaces m" and "string_body (m_name m)" and "skips (m_value m)"
  shows "skips (member_text m)"
proof -
  have "skips [CHR '':'']" by (rule skips_plain) simp
  then have "skips (m_pre m @ (quote # m_name m @ [quote]) @ m_mid m @ [CHR '':''] @ m_post m @ m_value m @ m_end m)"
    using assms skips_string [OF assms(2)]
    by (intro skips_append) (simp_all add: member_spaces_def skips_spaces)
  then show ?thesis by (simp add: member_text_def)
qed

lemma json_skips: "json s \<Longrightarrow> skips s"
proof (induction rule: json.induct)
  case (j_scalar s)
  then show ?case by (intro skips_plain) (auto simp: scalar_char_def ends_scalar_def)
next
  case (j_string b)
  then show ?case by (rule skips_string)
next
  case (j_empty w l r)
  then show ?case by (intro skips_bracket(1) skips_spaces)
next
  case (j_array xs)
  then show ?case by (intro skips_bracket(1) skips_comma_join) (auto intro!: skips_append simp: skips_spaces)
next
  case (j_object ms)
  then show ?case by (intro skips_bracket(1) skips_comma_join) (auto intro!: skips_member)
qed

lemma skip_scalar_ok:
  "\<forall>c\<in>set s. \<not> ends_scalar c \<Longrightarrow> ends_scalar t \<Longrightarrow> skip_scalar False (s @ t # rest) = Some (t # rest)"
  by (induction s) auto

text \<open>A value followed by space, a comma or a closing bracket is skipped exactly.\<close>

lemma skipValue_json:
  assumes "json v" and "ends_scalar t"
  shows "skipValue (v @ t # rest) = Some (t # rest)"
  using assms(1)
proof cases
  case j_scalar
  then obtain c cs where v: "v = c # cs" by (cases v) auto
  have "skip_scalar False (cs @ t # rest) = Some (t # rest)"
    using j_scalar v by (intro skip_scalar_ok assms(2)) (auto simp: scalar_char_def)
  then show ?thesis using j_scalar v by (auto simp: skipValue_def scalar_char_def)
next
  case (j_string b)
  then show ?thesis using scanString_string [of b "t # rest"] by (simp add: skipValue_def)
next
  case (j_empty w l r)
  from skips_bracket(2) [OF skips_spaces [OF j_empty(2)] j_empty(3), of "t # rest"] j_empty show ?thesis
    by (auto simp: skipValue_def)
next
  case (j_array xs)
  have "skips (comma_join (map (\<lambda>x. fst x @ fst (snd x) @ snd (snd x)) xs))"
    using j_array by (intro skips_comma_join) (auto intro!: skips_append simp: skips_spaces json_skips)
  from skips_bracket(2) [OF this, of "CHR ''[''" "CHR '']''" "t # rest"] show ?thesis
    by (simp add: j_array skipValue_def)
next
  case (j_object ms)
  have "skips (comma_join (map member_text ms))"
    using j_object by (intro skips_comma_join) (auto intro!: skips_member simp: json_skips)
  from skips_bracket(2) [OF this, of "CHR ''{''" "CHR ''}''" "t # rest"] show ?thesis
    by (simp add: j_object skipValue_def)
qed

lemma json_starts:
  assumes "json v"
  shows "skipSpace (v @ s) = v @ s"
  using assms
proof cases
  case j_scalar
  then show ?thesis by (cases v) (auto simp: scalar_char_def ends_scalar_def)
qed (auto simp: is_space_def)

lemma span_append [simp]: "span (v @ s) s = v"
  by (simp add: span_def)

text \<open>One turn of the loop on a member that ends in a comma or in the closing brace.\<close>

lemma field_loop_member:
  assumes "member_spaces m" and "string_body (m_name m)" and "json (m_value m)" and t: "t = CHR '','' \<or> t = CHR ''}''"
  shows "field_loop key (member_text m @ t # rest) =
    (if m_name m = key then Some (m_value m) else if t = CHR '','' then field_loop key rest else None)"
proof -
  let ?after = "m_end m @ t # rest"
  have sp: "spaces (m_pre m)" "spaces (m_mid m)" "spaces (m_post m)" "spaces (m_end m)"
    using assms(1) by (simp_all add: member_spaces_def)
  have 1: "skipSpace (member_text m @ t # rest) =
      quote # m_name m @ quote # m_mid m @ CHR '':'' # m_post m @ m_value m @ ?after"
    by (simp add: member_text_def skipSpace_append [OF sp(1)] is_space_def)
  have 2: "skipSpace (m_mid m @ CHR '':'' # m_post m @ m_value m @ ?after) = CHR '':'' # m_post m @ m_value m @ ?after"
    by (simp add: skipSpace_append [OF sp(2)] is_space_def)
  have 3: "skipSpace (m_post m @ m_value m @ ?after) = m_value m @ ?after"
    by (simp add: skipSpace_append [OF sp(3)] json_starts [OF assms(3)])
  obtain u us where u: "?after = u # us" "ends_scalar u"
    using sp(4) t by (cases "m_end m") (auto simp: ends_scalar_def spaces_def)
  have 4: "skipValue (m_value m @ ?after) = Some ?after"
    using skipValue_json [OF assms(3) u(2), of us] u(1) by simp
  have 5: "skipSpace ?after = t # rest"
    using t by (auto simp: skipSpace_append [OF sp(4)] is_space_def)
  show ?thesis
    using t by (subst field_loop.simps) (auto simp: 1 2 3 4 5 scanString_string [OF assms(2)])
qed

definition object_text :: "member list \<Rightarrow> bytes \<Rightarrow> bytes" where
  "object_text ms w = CHR ''{'' # (if ms = [] then w else comma_join (map member_text ms)) @ [CHR ''}'']"

definition object_ok :: "member list \<Rightarrow> bytes \<Rightarrow> bool" where
  "object_ok ms w \<longleftrightarrow> spaces w \<and> (\<forall>m\<in>set ms. member_spaces m \<and> string_body (m_name m) \<and> json (m_value m))"

lemma field_loop_object:
  assumes "object_ok ms w"
  shows "field_loop key ((if ms = [] then w else comma_join (map member_text ms)) @ CHR ''}'' # rest) =
    map_of (map (\<lambda>m. (m_name m, m_value m)) ms) key"
  using assms
proof (induction ms rule: induct_list012)
  case 1
  then show ?case
    by (subst field_loop.simps) (simp add: object_ok_def skipSpace_append is_space_def)
next
  case (2 m)
  then show ?case
    using field_loop_member [of m "CHR ''}''" key rest] by (simp add: object_ok_def)
next
  case (3 m m' ms)
  have "field_loop key (member_text m @ CHR '','' # comma_join (map member_text (m' # ms)) @ CHR ''}'' # rest) =
      (if m_name m = key then Some (m_value m)
       else field_loop key (comma_join (map member_text (m' # ms)) @ CHR ''}'' # rest))"
    using 3(3) field_loop_member [of m "CHR '',''" key] by (simp add: object_ok_def)
  with 3 show ?case by (simp add: object_ok_def)
qed

lemma fieldValue_object_eq:
  assumes "spaces lead" and "object_ok ms w"
  shows "fieldValue (lead @ object_text ms w @ rest) key = map_of (map (\<lambda>m. (m_name m, m_value m)) ms) key"
proof -
  have "skipSpace (lead @ object_text ms w @ rest) = object_text ms w @ rest"
    by (simp add: skipSpace_append [OF assms(1)] object_text_def is_space_def)
  then show ?thesis
    using field_loop_object [OF assms(2), of key rest] by (simp add: fieldValue_def object_text_def)
qed

section \<open>Properties\<close>

text \<open>
  C28. The scanner's contract. On the text of a JSON object, whatever its members, nesting, strings,
  escapes and white space, and whatever follows it, \<open>fieldValue\<close> returns exactly the text of the
  value of the first member with that name, and nothing when no member has it; in particular a
  key that is present is found, and a name inside a nested value or inside a string is not taken
  for one. The names are compared as written. (When a name is repeated the first one wins, while
  \<^verbatim>\<open>encoding/json\<close> keeps the last.)
\<close>

theorem fieldValue_object:
  assumes "spaces lead" and "object_ok ms w"
  shows "fieldValue (lead @ object_text ms w @ rest) key = map_of (map (\<lambda>m. (m_name m, m_value m)) ms) key"
  by (rule fieldValue_object_eq [OF assms])

text \<open>C28 where the name looked for also occurs nested in an earlier value.\<close>

theorem fieldValue_object_witness:
  "let mem = (\<lambda>k v. \<lparr>m_pre = '' '', m_name = k, m_mid = [], m_post = '' '', m_value = v, m_end = []\<rparr>);
       inner = CHR ''{'' # comma_join (map member_text [mem ''e'' ''1'']) @ ''}'';
       ms = [mem ''stream'' inner, mem ''e'' ''7'']
   in object_ok ms [] \<and> fieldValue ('' '' @ object_text ms [] @ '' '') ''e'' = Some ''7''"
proof -
  let ?mem = "\<lambda>k v. \<lparr>m_pre = '' '', m_name = k, m_mid = [], m_post = '' '', m_value = v, m_end = []\<rparr>"
  let ?inner = "CHR ''{'' # comma_join (map member_text [?mem ''e'' ''1'']) @ ''}''"
  let ?ms = "[?mem ''stream'' ?inner, ?mem ''e'' ''7'']"
  have sc: "json ''1''" "json ''7''"
    by (rule j_scalar, simp, simp add: scalar_char_def ends_scalar_def is_space_def)+
  have "json ?inner"
    by (rule j_object) (simp_all add: sc member_spaces_def spaces_def is_space_def)
  then have ok: "object_ok ?ms []"
    by (simp add: object_ok_def sc member_spaces_def spaces_def is_space_def)
  have "spaces '' ''" by (simp add: spaces_def is_space_def)
  from fieldValue_object [OF this ok, of "'' ''" "''e''"] ok show ?thesis by simp
qed

text \<open>
  \<open>stringField\<close> on an object: it returns the content of the first member with the name when that
  member is a string without an escape, exactly as written, and refuses every other value (a
  string with an escape, a number, an object, an absent key).
\<close>

lemma stringField_object:
  assumes "spaces lead" and "object_ok ms w"
  shows "stringField (lead @ object_text ms w @ rest) key = Some b \<longleftrightarrow>
    map_of (map (\<lambda>m. (m_name m, m_value m)) ms) key = Some (quote # b @ [quote]) \<and> bslash \<notin> set b"
proof -
  have dq: "(2 \<le> length raw \<and> raw ! 0 = quote \<and> raw ! (length raw - 1) = quote \<and> take (length raw - 2) (drop 1 raw) = b)
      \<longleftrightarrow> raw = quote # b @ [quote]" for raw
  proof
    assume l: "2 \<le> length raw \<and> raw ! 0 = quote \<and> raw ! (length raw - 1) = quote \<and> take (length raw - 2) (drop 1 raw) = b"
    then obtain c cs where raw: "raw = c # cs" "cs \<noteq> []" by (cases raw; cases "tl raw") auto
    then have "take (length cs - 1) cs = butlast cs" "last cs = quote"
      using l by (simp_all add: butlast_conv_take last_conv_nth)
    with l raw append_butlast_last_id [OF raw(2)] show "raw = quote # b @ [quote]" by simp
  qed (simp add: nth_append)
  have one: "(if length raw < 2 \<or> raw ! 0 \<noteq> quote \<or> raw ! (length raw - 1) \<noteq> quote then None
      else let inner = take (length raw - 2) (drop 1 raw)
        in if list_ex (\<lambda>c. c = bslash) inner then None else Some inner) = Some b
      \<longleftrightarrow> raw = quote # b @ [quote] \<and> bslash \<notin> set b" for raw
  proof (cases "length raw < 2 \<or> raw ! 0 \<noteq> quote \<or> raw ! (length raw - 1) \<noteq> quote")
    case True
    then have "raw \<noteq> quote # b @ [quote]" using dq [of raw] by linarith
    with True show ?thesis by simp
  next
    case False
    then have "raw = quote # b @ [quote] \<longleftrightarrow> take (length raw - 2) (drop 1 raw) = b" using dq [of raw] by linarith
    with False show ?thesis by (auto simp: list_ex_iff Let_def)
  qed
  show ?thesis
    unfolding stringField_def fieldValue_object_eq [OF assms]
    by (cases "map_of (map (\<lambda>m. (m_name m, m_value m)) ms) key") (simp_all only: option.case one option.inject, simp)
qed

end
