(* ===== verification/Decode.thy ===== *)
theory Decode
  imports Instruments JsonScan Shard
begin

text \<open>
  \<^verbatim>\<open>internal/exchange/binance/decode.go\<close> and \<^verbatim>\<open>depth.go\<close>: frames into events, depth responses into
  snapshots, and the REST client that fetches them. \<open>json.Unmarshal\<close> into each raw struct is a
  parameter (\<open>un_trade\<close>, \<open>un_depth\<close>, \<open>un_body\<close>), and so is the HTTP exchange; the text of an error is
  not modelled, its kind and its subject are.
\<close>

record agg_raw =
  ar_Symbol :: bytes
  ar_Time :: int
  ar_Price :: bytes
  ar_Qty :: bytes
  ar_Maker :: bool

record depth_raw =
  dr_Symbol :: bytes
  dr_Time :: int
  dr_FirstID :: int
  dr_LastID :: int
  dr_Bids :: "(bytes \<times> bytes) list"
  dr_Asks :: "(bytes \<times> bytes) list"

record body_raw =
  br_LastUpdateID :: int
  br_Bids :: "(bytes \<times> bytes) list"
  br_Asks :: "(bytes \<times> bytes) list"

datatype level_error = LevelPrice bytes parse_error | LevelQty bytes parse_error

datatype decode_error =
    NoEventType bytes
  | UnknownEventType bytes
  | DecodeJSON bytes
  | UnknownSymbol bytes
  | TradePrice bytes parse_error
  | TradeQty bytes parse_error
  | DeltaBids level_error
  | DeltaAsks level_error

definition frameNanos :: "gotime \<Rightarrow> int" where
  "frameNanos t = (if t = zero_time then 0 else wrap64 t)"

definition eventNanos :: "int \<Rightarrow> int" where
  "eventNanos ms = (if ms = 0 then 0 else wrap64 (ms * 1000000))"

fun parse_levels :: "(bytes \<times> bytes) list \<Rightarrow> int \<Rightarrow> int \<Rightarrow> Level list \<Rightarrow> level_error + Level list" where
  "parse_levels [] priceDec qtyDec acc = Inr acc"
| "parse_levels (pair # pairs) priceDec qtyDec acc =
    (case ParsePrice (fst pair) priceDec of
       Inl e \<Rightarrow> Inl (LevelPrice (fst pair) e)
     | Inr price \<Rightarrow>
        (case ParseQty (snd pair) qtyDec of
           Inl e \<Rightarrow> Inl (LevelQty (snd pair) e)
         | Inr qty \<Rightarrow> parse_levels pairs priceDec qtyDec (acc @ [\<lparr>Price = price, Qty = qty\<rparr>])))"

definition parseLevels :: "(bytes \<times> bytes) list \<Rightarrow> int \<Rightarrow> int \<Rightarrow> level_error + Level list" where
  "parseLevels rw priceDec qtyDec = parse_levels rw priceDec qtyDec []"

definition decodeAggTrade :: "(bytes \<Rightarrow> bytes + agg_raw) \<Rightarrow> InstrumentCache \<Rightarrow> bytes \<Rightarrow> decode_error + Event" where
  "decodeAggTrade un_trade c data =
    (case un_trade data of
       Inl e \<Rightarrow> Inl (DecodeJSON e)
     | Inr rw \<Rightarrow>
        (case Lookup c (ar_Symbol rw) of
           None \<Rightarrow> Inl (UnknownSymbol (ar_Symbol rw))
         | Some i \<Rightarrow>
            (case ParsePrice (ar_Price rw) (PriceDecimals i) of
               Inl e \<Rightarrow> Inl (TradePrice (ar_Price rw) e)
             | Inr price \<Rightarrow>
                (case ParseQty (ar_Qty rw) (QtyDecimals i) of
                   Inl e \<Rightarrow> Inl (TradeQty (ar_Qty rw) e)
                 | Inr qty \<Rightarrow>
                    Inr (zero_Event\<lparr>Kind := KindTrade, ExchangeTime := eventNanos (ar_Time rw),
                      ev_Trade := \<lparr>trade_Symbol = inst_Symbol i, trade_Price = price, trade_Qty = qty,
                                   IsBuy = (\<not> ar_Maker rw)\<rparr>\<rparr>)))))"

definition decodeDepthUpdate :: "(bytes \<Rightarrow> bytes + depth_raw) \<Rightarrow> InstrumentCache \<Rightarrow> bytes \<Rightarrow> decode_error + Event" where
  "decodeDepthUpdate un_depth c data =
    (case un_depth data of
       Inl e \<Rightarrow> Inl (DecodeJSON e)
     | Inr rw \<Rightarrow>
        (case Lookup c (dr_Symbol rw) of
           None \<Rightarrow> Inl (UnknownSymbol (dr_Symbol rw))
         | Some i \<Rightarrow>
            (case parseLevels (dr_Bids rw) (PriceDecimals i) (QtyDecimals i) of
               Inl e \<Rightarrow> Inl (DeltaBids e)
             | Inr bs \<Rightarrow>
                (case parseLevels (dr_Asks rw) (PriceDecimals i) (QtyDecimals i) of
                   Inl e \<Rightarrow> Inl (DeltaAsks e)
                 | Inr as \<Rightarrow>
                    Inr (zero_Event\<lparr>Kind := KindBookDelta, ExchangeTime := eventNanos (dr_Time rw),
                      ev_BookDelta := \<lparr>delta_Symbol = inst_Symbol i, FirstID = dr_FirstID rw,
                        delta_LastID = dr_LastID rw, delta_Bids = bs, delta_Asks = as\<rparr>\<rparr>)))))"

definition Decode ::
  "(bytes \<Rightarrow> bytes + agg_raw) \<Rightarrow> (bytes \<Rightarrow> bytes + depth_raw) \<Rightarrow> InstrumentCache \<Rightarrow> Frame \<Rightarrow> decode_error + Event" where
  "Decode un_trade un_depth c f =
    (let (stream, payload) =
           (case fieldValue (Data f) ''data'' of
              None \<Rightarrow> ([], Data f)
            | Some data \<Rightarrow> (case stringField (Data f) ''stream'' of None \<Rightarrow> [] | Some st \<Rightarrow> st, data))
     in case stringField payload ''e'' of
          None \<Rightarrow> Inl (NoEventType stream)
        | Some ty \<Rightarrow>
           (case (if ty = ''aggTrade'' then decodeAggTrade un_trade c payload
                  else if ty = ''depthUpdate'' then decodeDepthUpdate un_depth c payload
                  else Inl (UnknownEventType ty)) of
              Inl e \<Rightarrow> Inl e
            | Inr ev \<Rightarrow> Inr (ev\<lparr>ReceivedAt := frameNanos (frame_ReceivedAt f)\<rparr>)))"

text \<open>The events of a sequence of frames: those that decode.\<close>

definition decoded :: "(Frame \<Rightarrow> decode_error + Event) \<Rightarrow> Frame list \<Rightarrow> Event list" where
  "decoded dec fr = concat (map (\<lambda>f. case dec f of Inl _ \<Rightarrow> [] | Inr ev \<Rightarrow> [ev]) fr)"

section \<open>Depth snapshots\<close>

definition MaxDepthLimit :: int where
  "MaxDepthLimit = 5000"

record DepthClient =
  baseURL :: bytes
  dc_cache :: InstrumentCache
  dc_limit :: int

definition NewDepthClient :: "bytes \<Rightarrow> InstrumentCache \<Rightarrow> int \<Rightarrow> DepthClient" where
  "NewDepthClient url c limit =
    \<lparr>baseURL = url, dc_cache = c, dc_limit = (if limit \<le> 0 \<or> limit > MaxDepthLimit then MaxDepthLimit else limit)\<rparr>"

datatype depth_error =
    DepthUnknownSymbol Symbol
  | DepthRequest Symbol bytes
  | DepthHTTP Symbol int
  | DepthBody Symbol bytes
  | DepthJSON Symbol bytes
  | DepthUpdateID Symbol int
  | DepthBids Symbol level_error
  | DepthAsks Symbol level_error

definition ParseDepth :: "(bytes \<Rightarrow> bytes + body_raw) \<Rightarrow> bytes \<Rightarrow> Instrument \<Rightarrow> int \<Rightarrow> depth_error + Snapshot" where
  "ParseDepth un_body data i limit =
    (case un_body data of
       Inl e \<Rightarrow> Inl (DepthJSON (inst_Symbol i) e)
     | Inr rw \<Rightarrow>
        if br_LastUpdateID rw \<le> 0 then Inl (DepthUpdateID (inst_Symbol i) (br_LastUpdateID rw))
        else case parseLevels (br_Bids rw) (PriceDecimals i) (QtyDecimals i) of
          Inl e \<Rightarrow> Inl (DepthBids (inst_Symbol i) e)
        | Inr bs \<Rightarrow>
           (case parseLevels (br_Asks rw) (PriceDecimals i) (QtyDecimals i) of
              Inl e \<Rightarrow> Inl (DepthAsks (inst_Symbol i) e)
            | Inr as \<Rightarrow>
               Inr \<lparr>snap_Symbol = inst_Symbol i, snap_LastID = br_LastUpdateID rw, snap_Bids = bs, snap_Asks = as,
                    Truncated = (limit > 0 \<and> (int (length bs) \<ge> limit \<or> int (length as) \<ge> limit))\<rparr>))"

text \<open>\<open>url.QueryEscape\<close>, and the query string with its keys in sorted order.\<close>

definition hex_digit :: "nat \<Rightarrow> char" where
  "hex_digit n = (if n < 10 then char_of (48 + n) else char_of (55 + n))"

definition query_escape :: "bytes \<Rightarrow> bytes" where
  "query_escape s = concat (map (\<lambda>c. let n = (of_char c :: nat) in
     if 48 \<le> n \<and> n \<le> 57 \<or> 65 \<le> n \<and> n \<le> 90 \<or> 97 \<le> n \<and> n \<le> 122
        \<or> c = CHR ''-'' \<or> c = CHR ''_'' \<or> c = CHR ''.'' \<or> c = CHR ''~'' then [c]
     else if c = CHR '' '' then ''+''
     else [CHR ''%'', hex_digit (n div 16), hex_digit (n mod 16)]) s)"

definition depth_endpoint :: "DepthClient \<Rightarrow> bytes \<Rightarrow> bytes" where
  "depth_endpoint c rw =
    baseURL c @ ''/api/v3/depth?limit='' @ FormatInt (dc_limit c) @ ''&symbol='' @ query_escape rw"

text \<open>One GET: no response, or a status and what reading the body gives.\<close>

type_synonym http_get = "bytes \<Rightarrow> bytes + int \<times> (bytes + bytes)"

definition DepthClient_Snapshot ::
  "http_get \<Rightarrow> (bytes \<Rightarrow> bytes + body_raw) \<Rightarrow> DepthClient \<Rightarrow> Symbol \<Rightarrow> depth_error + Snapshot" where
  "DepthClient_Snapshot http un_body c sy =
    (case RawSymbol (dc_cache c) sy of
       None \<Rightarrow> Inl (DepthUnknownSymbol sy)
     | Some (rw, i) \<Rightarrow>
        (case http (depth_endpoint c rw) of
           Inl e \<Rightarrow> Inl (DepthRequest sy e)
         | Inr (status, body) \<Rightarrow>
            if status \<noteq> 200 then Inl (DepthHTTP sy status)
            else case body of Inl e \<Rightarrow> Inl (DepthBody sy e) | Inr data \<Rightarrow> ParseDepth un_body data i (dc_limit c)))"

section \<open>Instrument metadata\<close>

text \<open>The requests of \<^verbatim>\<open>exchangeinfo.go\<close>; \<open>json.Marshal\<close> of the list of symbols is a parameter.\<close>

datatype fetch_error = InfoRequest bytes | InfoHTTP int | InfoBody bytes

definition info_endpoint :: "(bytes list \<Rightarrow> bytes) \<Rightarrow> bytes \<Rightarrow> Symbol list \<Rightarrow> bytes" where
  "info_endpoint marshal base symbols =
    base @ ''/api/v3/exchangeInfo'' @ (if symbols \<noteq> [] then ''?symbols='' @ query_escape (marshal (map rawSymbolName symbols)) else [])"

definition FetchExchangeInfoRaw :: "http_get \<Rightarrow> (bytes list \<Rightarrow> bytes) \<Rightarrow> bytes \<Rightarrow> Symbol list \<Rightarrow> fetch_error + bytes" where
  "FetchExchangeInfoRaw http marshal base symbols =
    (case http (info_endpoint marshal base symbols) of
       Inl e \<Rightarrow> Inl (InfoRequest e)
     | Inr (status, body) \<Rightarrow>
        if status \<noteq> 200 then Inl (InfoHTTP status)
        else case body of Inl e \<Rightarrow> Inl (InfoBody e) | Inr data \<Rightarrow> Inr data)"

definition FetchExchangeInfo ::
  "http_get \<Rightarrow> (bytes list \<Rightarrow> bytes) \<Rightarrow> (bytes \<Rightarrow> bytes + symbol_info list) \<Rightarrow> bytes \<Rightarrow> Symbol list \<Rightarrow> (fetch_error + info_error) + InstrumentCache" where
  "FetchExchangeInfo http marshal un_info base symbols =
    (case FetchExchangeInfoRaw http marshal base symbols of
       Inl e \<Rightarrow> Inl (Inl e)
     | Inr body \<Rightarrow> (case ParseExchangeInfo un_info body of Inl e \<Rightarrow> Inl (Inr e) | Inr c \<Rightarrow> Inr c))"

lemma FetchExchangeInfo_cache_ok: "FetchExchangeInfo http marshal un_info base symbols = Inr c \<Longrightarrow> cache_ok c"
  by (auto simp: FetchExchangeInfo_def split: sum.splits dest: ParseExchangeInfo_cache_ok)

section \<open>Levels\<close>

lemma parse_levels_eq:
  "parse_levels rw pd qd acc = Inr ls \<longleftrightarrow>
    (\<exists>out. ls = acc @ out
      \<and> list_all2 (\<lambda>pair l. ParsePrice (fst pair) pd = Inr (Price l) \<and> ParseQty (snd pair) qd = Inr (Qty l)) rw out)"
proof (induction rw arbitrary: acc)
  case (Cons pair rw)
  show ?case
  proof (cases "ParsePrice (fst pair) pd")
    case (Inl e)
    then show ?thesis by (auto simp: list_all2_Cons1)
  next
    case p: (Inr price)
    show ?thesis
    proof (cases "ParseQty (snd pair) qd")
      case (Inl e)
      then show ?thesis using p by (auto simp: list_all2_Cons1)
    next
      case (Inr qty)
      have "(\<exists>out. ls = (acc @ [\<lparr>Price = price, Qty = qty\<rparr>]) @ out \<and> list_all2 Q rw out) \<longleftrightarrow>
          (\<exists>l out. ls = acc @ l # out \<and> price = Price l \<and> qty = Qty l \<and> list_all2 Q rw out)" for Q
        by (metis (full_types) Level.surjective append.assoc append_Cons append_Nil old.unit.exhaust Level.select_convs)
      with p Inr Cons.IH show ?thesis by (auto simp: list_all2_Cons1)
    qed
  qed
qed auto

lemma parseLevels_eq:
  "parseLevels rw pd qd = Inr ls \<longleftrightarrow>
    list_all2 (\<lambda>pair l. ParsePrice (fst pair) pd = Inr (Price l) \<and> ParseQty (snd pair) qd = Inr (Qty l)) rw ls"
  by (simp add: parseLevels_def parse_levels_eq)

text \<open>The wire form of a level at an instrument's exponents.\<close>

definition wire_level :: "int \<Rightarrow> int \<Rightarrow> Level \<Rightarrow> bytes \<times> bytes" where
  "wire_level pd qd l = (FormatFixed (Price l) pd, FormatFixed (Qty l) qd)"

section \<open>The client as a snapshot source\<close>

definition client_ok :: "http_get \<times> (bytes \<Rightarrow> bytes + body_raw) \<times> DepthClient \<Rightarrow> bool" where
  "client_ok w = cache_ok (dc_cache (snd (snd w)))"

lemma ParseDepth_Inr:
  "ParseDepth un_body data i limit = Inr s \<Longrightarrow>
   snap_Symbol s = inst_Symbol i \<and> 0 < snap_LastID s
   \<and> Truncated s = (limit > 0 \<and> (int (length (snap_Bids s)) \<ge> limit \<or> int (length (snap_Asks s)) \<ge> limit))
   \<and> (\<exists>rw. un_body data = Inr rw \<and> snap_LastID s = br_LastUpdateID rw
        \<and> parseLevels (br_Bids rw) (PriceDecimals i) (QtyDecimals i) = Inr (snap_Bids s)
        \<and> parseLevels (br_Asks rw) (PriceDecimals i) (QtyDecimals i) = Inr (snap_Asks s))"
  by (auto simp: ParseDepth_def split: sum.splits if_splits)

lemma DepthClient_Snapshot_Inr:
  assumes "DepthClient_Snapshot http un_body c sy = Inr s"
  obtains rw i data where "RawSymbol (dc_cache c) sy = Some (rw, i)" "http (depth_endpoint c rw) = Inr (200, Inr data)"
    "ParseDepth un_body data i (dc_limit c) = Inr s"
  using assms by (auto simp: DepthClient_Snapshot_def split: option.splits sum.splits if_splits)

interpretation depth_source:
  snapshotter client_ok "\<lambda>w. DepthClient_Snapshot (fst w) (fst (snd w)) (snd (snd w))"
proof unfold_locales
  fix w sy s
  assume ok: "client_ok w" and s: "DepthClient_Snapshot (fst w) (fst (snd w)) (snd (snd w)) sy = Inr s"
  from s obtain rw i data where "RawSymbol (dc_cache (snd (snd w))) sy = Some (rw, i)"
    "ParseDepth (fst (snd w)) data i (dc_limit (snd (snd w))) = Inr s"
    by (rule DepthClient_Snapshot_Inr)
  with ok show "snap_Symbol s = sy"
    by (auto simp: client_ok_def cache_ok_def RawSymbol_def dest!: ParseDepth_Inr)
qed

section \<open>A concrete frame\<close>

definition ex_member :: "bytes \<Rightarrow> bytes \<Rightarrow> member" where
  "ex_member k v = \<lparr>m_pre = [], m_name = k, m_mid = [], m_post = '' '', m_value = v, m_end = []\<rparr>"

definition ex_inner :: "member list" where
  "ex_inner = [ex_member ''e'' (quote # ''depthUpdate'' @ [quote]), ex_member ''U'' ''6'']"

definition ex_outer :: "member list" where
  "ex_outer = [ex_member ''stream'' (quote # ''btcusdt@depth@100ms'' @ [quote]), ex_member ''data'' (object_text ex_inner [])]"

definition ex_raw :: depth_raw where
  "ex_raw = \<lparr>dr_Symbol = ''BTCUSDT'', dr_Time = 1, dr_FirstID = 6, dr_LastID = 8, dr_Bids = [(''100.50'', ''2'')], dr_Asks = []\<rparr>"

definition ex_frame :: Frame where
  "ex_frame = \<lparr>Data = object_text ex_outer [], frame_ReceivedAt = 5\<rparr>"

definition ex_decoded :: Event where
  "ex_decoded = zero_Event\<lparr>Kind := KindBookDelta, ExchangeTime := 1000000, ReceivedAt := 5,
     ev_BookDelta := \<lparr>delta_Symbol = ''BTC-USDT'', FirstID = 6, delta_LastID = 8,
       delta_Bids = [\<lparr>Price = 10050, Qty = 200000\<rparr>], delta_Asks = []\<rparr>\<rparr>"

lemma ex_objects_ok: "object_ok ex_inner []" "object_ok ex_outer []"
proof -
  have str: "json (quote # ''depthUpdate'' @ [quote])" "json (quote # ''btcusdt@depth@100ms'' @ [quote])"
    by (rule j_string, simp)+
  have num: "json ''6''"
    by (rule j_scalar) (simp_all add: scalar_char_def ends_scalar_def is_space_def)
  show inner: "object_ok ex_inner []"
    using str(1) num by (simp add: object_ok_def ex_inner_def ex_member_def member_spaces_def spaces_def is_space_def)
  have "json (CHR ''{'' # comma_join (map member_text ex_inner) @ ''}'')"
    by (rule j_object) (use inner in \<open>simp_all add: object_ok_def, simp add: ex_inner_def\<close>)
  then have "json (object_text ex_inner [])" by (simp add: object_text_def ex_inner_def)
  with str(2) show "object_ok ex_outer []"
    by (simp add: object_ok_def ex_outer_def ex_member_def member_spaces_def spaces_def is_space_def)
qed

lemma ex_decode:
  "Decode (\<lambda>_. Inl []) (\<lambda>_. Inr ex_raw) ex_cache ex_frame = Inr ex_decoded"
  by code_simp

lemma ex_cache_ok: "cache_ok ex_cache"
  by (rule ParseExchangeInfo_cache_ok [OF ex_cache_parsed])

lemma Decode_kind: "Decode un_trade un_depth c f = Inr ev \<Longrightarrow> Kind ev = KindTrade \<or> Kind ev = KindBookDelta"
proof -
  assume "Decode un_trade un_depth c f = Inr ev"
  then obtain payload ev0 where "ev = ev0\<lparr>ReceivedAt := frameNanos (frame_ReceivedAt f)\<rparr>"
    "decodeAggTrade un_trade c payload = Inr ev0 \<or> decodeDepthUpdate un_depth c payload = Inr ev0"
    unfolding Decode_def Let_def by (auto split: prod.splits option.splits sum.splits if_splits)
  then show ?thesis
    by (auto simp: decodeAggTrade_def decodeDepthUpdate_def split: sum.splits option.splits)
qed

section \<open>Properties\<close>

text \<open>
  Levels survive the wire: any levels written at an instrument's exponents, as the exchange writes
  them, are read back exactly, in order, by the parser that both deltas and snapshots use, so the two
  are directly comparable.
\<close>

lemma parseLevels_round_trip:
  assumes "0 \<le> pd" and "0 \<le> qd" and "\<forall>l\<in>set ls. in_i64 (Price l) \<and> in_i64 (Qty l)"
  shows "parseLevels (map (wire_level pd qd) ls) pd qd = Inr ls"
  unfolding parseLevels_eq list_all2_map1
  using assms by (intro list.rel_refl_strong) (simp add: wire_level_def ParsePrice_def ParseQty_def fixed_round_trip)

text \<open>
  The combined stream wrapper is transparent. Take a frame that is an object whose first \<open>data\<close>
  member is an object without a \<open>data\<close> member of its own. Decoding it gives an event exactly when
  decoding the inner object alone does, and then the same event: which other members the wrapper
  has, their order, nesting and white space make no difference.
\<close>

lemma Decode_unwraps:
  assumes "spaces lead" and "object_ok ms w" and "object_ok inner w'"
    and "map_of (map (\<lambda>m. (m_name m, m_value m)) ms) ''data'' = Some (object_text inner w')"
    and "''data'' \<notin> m_name ` set inner"
  shows "Decode un_trade un_depth c (f\<lparr>Data := lead @ object_text ms w @ rest\<rparr>) = Inr ev \<longleftrightarrow>
    Decode un_trade un_depth c (f\<lparr>Data := object_text inner w'\<rparr>) = Inr ev"
proof -
  have outer: "fieldValue (lead @ object_text ms w @ rest) ''data'' = Some (object_text inner w')"
    using fieldValue_object_eq [OF assms(1,2)] assms(4) by simp
  have "fieldValue ([] @ object_text inner w' @ []) ''data'' = map_of (map (\<lambda>m. (m_name m, m_value m)) inner) ''data''"
    by (rule fieldValue_object_eq) (simp_all add: spaces_def assms(3))
  moreover have "map_of (map (\<lambda>m. (m_name m, m_value m)) inner) ''data'' = None"
    using assms(5) by (auto simp: map_of_eq_None_iff image_image)
  ultimately have inner: "fieldValue (object_text inner w') ''data'' = None" by simp
  show ?thesis
    by (auto simp: Decode_def outer inner Let_def split: option.splits sum.splits)
qed

lemma Decode_payload:
  assumes "payload = (case fieldValue (Data f) ''data'' of None \<Rightarrow> Data f | Some data \<Rightarrow> data)"
  shows "Decode un_trade un_depth c f = (case stringField payload ''e'' of
      None \<Rightarrow> Inl (NoEventType (case fieldValue (Data f) ''data'' of None \<Rightarrow> []
        | Some _ \<Rightarrow> (case stringField (Data f) ''stream'' of None \<Rightarrow> [] | Some st \<Rightarrow> st)))
    | Some ty \<Rightarrow> (case (if ty = ''aggTrade'' then decodeAggTrade un_trade c payload
                  else if ty = ''depthUpdate'' then decodeDepthUpdate un_depth c payload
                  else Inl (UnknownEventType ty)) of
              Inl e \<Rightarrow> Inl e
            | Inr ev \<Rightarrow> Inr (ev\<lparr>ReceivedAt := frameNanos (frame_ReceivedAt f)\<rparr>)))"
  unfolding Decode_def Let_def assms by (simp split: option.split)

text \<open>
  C29. What a decoded event is. The payload of a frame is its \<open>data\<close> field, or the whole frame where
  there is none, and the payload's own \<open>e\<close> field says what it is: exactly \<open>aggTrade\<close> gives a trade and
  exactly \<open>depthUpdate\<close> a delta. A decoded event holds the values of that payload and of no other: its symbol is
  the normalised form of the instrument the payload names, its prices and quantities are the
  payload's at that instrument's exponents, level by level and in the payload's order, its update ids
  and its side are the payload's, its exchange time is the payload's and its receive time the
  frame's. The ids of a delta are in the range of the tracker's arithmetic (\<open>delta_i64\<close>).
\<close>

theorem Decode_event:
  assumes "Decode un_trade un_depth c f = Inr ev" and "cache_ok c"
    and "\<And>data rw. un_depth data = Inr rw \<Longrightarrow> in_i64 (dr_FirstID rw) \<and> in_i64 (dr_LastID rw)"
    and "payload = (case fieldValue (Data f) ''data'' of None \<Rightarrow> Data f | Some data \<Rightarrow> data)"
  shows "ReceivedAt ev = frameNanos (frame_ReceivedAt f)
    \<and> (Kind ev = KindTrade \<or> Kind ev = KindBookDelta)
    \<and> (Kind ev = KindTrade \<longleftrightarrow> stringField payload ''e'' = Some ''aggTrade'')
    \<and> (Kind ev = KindBookDelta \<longleftrightarrow> stringField payload ''e'' = Some ''depthUpdate'')
    \<and> (\<exists>sy. eventSymbol ev = Some sy \<and> LookupByNormalized c sy \<noteq> None)
    \<and> (Kind ev = KindTrade \<longrightarrow> (\<exists>rw i. un_trade payload = Inr rw \<and> Lookup c (ar_Symbol rw) = Some i
        \<and> ExchangeTime ev = eventNanos (ar_Time rw)
        \<and> trade_Symbol (ev_Trade ev) = inst_Symbol i
        \<and> ParsePrice (ar_Price rw) (PriceDecimals i) = Inr (trade_Price (ev_Trade ev))
        \<and> ParseQty (ar_Qty rw) (QtyDecimals i) = Inr (trade_Qty (ev_Trade ev))
        \<and> IsBuy (ev_Trade ev) = (\<not> ar_Maker rw)))
    \<and> (Kind ev = KindBookDelta \<longrightarrow> delta_i64 (ev_BookDelta ev)
        \<and> (\<exists>rw i. un_depth payload = Inr rw \<and> Lookup c (dr_Symbol rw) = Some i
        \<and> ExchangeTime ev = eventNanos (dr_Time rw)
        \<and> delta_Symbol (ev_BookDelta ev) = inst_Symbol i
        \<and> FirstID (ev_BookDelta ev) = dr_FirstID rw \<and> delta_LastID (ev_BookDelta ev) = dr_LastID rw
        \<and> list_all2 (\<lambda>pair l. ParsePrice (fst pair) (PriceDecimals i) = Inr (Price l) \<and> ParseQty (snd pair) (QtyDecimals i) = Inr (Qty l))
            (dr_Bids rw) (delta_Bids (ev_BookDelta ev))
        \<and> list_all2 (\<lambda>pair l. ParsePrice (fst pair) (PriceDecimals i) = Inr (Price l) \<and> ParseQty (snd pair) (QtyDecimals i) = Inr (Qty l))
            (dr_Asks rw) (delta_Asks (ev_BookDelta ev))))"
proof -
  have known: "LookupByNormalized c (inst_Symbol i) \<noteq> None" if "Lookup c rw = Some i" for rw i
    using assms(2) that unfolding cache_ok_def Lookup_def LookupByNormalized_def by simp
  obtain ty ev0 where ev: "ev = ev0\<lparr>ReceivedAt := frameNanos (frame_ReceivedAt f)\<rparr>"
    and ty: "stringField payload ''e'' = Some ty"
    and ev0: "(if ty = ''aggTrade'' then decodeAggTrade un_trade c payload
       else if ty = ''depthUpdate'' then decodeDepthUpdate un_depth c payload else Inl (UnknownEventType ty)) = Inr ev0"
    using assms(1) unfolding Decode_payload [OF assms(4)] by (auto split: option.splits sum.splits)
  from ev0 consider (trade) "ty = ''aggTrade''" "decodeAggTrade un_trade c payload = Inr ev0"
    | (delta) "ty = ''depthUpdate''" "decodeDepthUpdate un_depth c payload = Inr ev0"
    by (auto split: if_splits)
  then show ?thesis
  proof cases
    case trade
    then obtain rw i price qty where t: "un_trade payload = Inr rw" "Lookup c (ar_Symbol rw) = Some i"
      "ParsePrice (ar_Price rw) (PriceDecimals i) = Inr price" "ParseQty (ar_Qty rw) (QtyDecimals i) = Inr qty"
      "ev0 = zero_Event\<lparr>Kind := KindTrade, ExchangeTime := eventNanos (ar_Time rw),
          ev_Trade := \<lparr>trade_Symbol = inst_Symbol i, trade_Price = price, trade_Qty = qty, IsBuy = (\<not> ar_Maker rw)\<rparr>\<rparr>"
      by (auto simp: decodeAggTrade_def split: sum.splits option.splits)
    with known [OF t(2)] show ?thesis unfolding ev ty trade(1) t(5) by (auto simp: eventSymbol_def)
  next
    case delta
    then obtain rw i bs as where d: "un_depth payload = Inr rw" "Lookup c (dr_Symbol rw) = Some i"
      "parseLevels (dr_Bids rw) (PriceDecimals i) (QtyDecimals i) = Inr bs"
      "parseLevels (dr_Asks rw) (PriceDecimals i) (QtyDecimals i) = Inr as"
      "ev0 = zero_Event\<lparr>Kind := KindBookDelta, ExchangeTime := eventNanos (dr_Time rw),
          ev_BookDelta := \<lparr>delta_Symbol = inst_Symbol i, FirstID = dr_FirstID rw,
            delta_LastID = dr_LastID rw, delta_Bids = bs, delta_Asks = as\<rparr>\<rparr>"
      by (auto simp: decodeDepthUpdate_def split: sum.splits option.splits)
    with known [OF d(2)] assms(3) [OF d(1)] show ?thesis
      unfolding ev ty delta(1) d(5) by (auto simp: eventSymbol_def delta_i64_def parseLevels_def parse_levels_eq)
  qed
qed

text \<open>C29 on the same frame, an event inside a combined-stream envelope.\<close>

theorem Decode_event_witness:
  "Decode (\<lambda>_. Inl []) (\<lambda>_. Inr ex_raw) ex_cache ex_frame = Inr ex_decoded \<and> delta_i64 (ev_BookDelta ex_decoded)
    \<and> ExchangeTime ex_decoded = eventNanos (dr_Time ex_raw)"
proof -
  have "in_i64 (dr_FirstID rw) \<and> in_i64 (dr_LastID rw)" if "(\<lambda>_. Inr ex_raw :: bytes + depth_raw) data = Inr rw" for data :: bytes and rw
    using that by (auto simp: ex_raw_def in_i64_def MinInt64_def MaxInt64_def)
  moreover have "Kind ex_decoded = KindBookDelta" by (simp add: ex_decoded_def)
  ultimately show ?thesis using Decode_event [OF ex_decode ex_cache_ok _ refl] ex_decode by fastforce
qed

text \<open>
  A fetched snapshot is labelled with the requested symbol, carries a positive update id and is
  marked truncated exactly when a side came back as long as the limit, which is always between 1 and
  5000 whatever limit the client was configured with; a response without a valid update id, with a
  status other than 200 or with a level that does not parse is an error.
\<close>

lemma DepthClient_Snapshot_ok:
  assumes "cache_ok cache" and "DepthClient_Snapshot http un_body (NewDepthClient url cache limit) sy = Inr s"
  shows "snap_Symbol s = sy \<and> 0 < snap_LastID s
    \<and> 1 \<le> dc_limit (NewDepthClient url cache limit) \<and> dc_limit (NewDepthClient url cache limit) \<le> MaxDepthLimit
    \<and> (Truncated s \<longleftrightarrow> int (max (length (snap_Bids s)) (length (snap_Asks s))) \<ge> dc_limit (NewDepthClient url cache limit))
    \<and> (\<exists>rw data. fst (the (RawSymbol cache sy)) = rw
        \<and> http (depth_endpoint (NewDepthClient url cache limit) rw) = Inr (200, Inr data) \<and> is_ok (un_body data))"
proof -
  let ?c = "NewDepthClient url cache limit"
  have lim: "1 \<le> dc_limit ?c" "dc_limit ?c \<le> MaxDepthLimit" and c: "dc_cache ?c = cache"
    by (auto simp: NewDepthClient_def MaxDepthLimit_def)
  have sy: "snap_Symbol s = sy"
    using depth_source.snapshot_symbol [of "(http, un_body, ?c)" sy s] assms c by (simp add: client_ok_def)
  obtain rw i data where "RawSymbol cache sy = Some (rw, i)" "http (depth_endpoint ?c rw) = Inr (200, Inr data)"
    and p: "ParseDepth un_body data i (dc_limit ?c) = Inr s"
    using DepthClient_Snapshot_Inr [OF assms(2)] unfolding c by blast
  with ParseDepth_Inr [OF p] lim sy show ?thesis by (auto simp: is_ok_iff max_def)
qed

end
