(* ===== verification/Ranges.thy ===== *)
theory Ranges
  imports History Decode
begin

text \<open>
  Why prices, quantities and update ids may be integers here and 64 bits wide in the program: whatever
  arrives, every number the decoder, the depth client and the books hold is in the range of an int64,
  so no value of the model is one the program could not have. The ids come from \<open>json.Unmarshal\<close> into
  an int64 field, which is the one hypothesis.
\<close>

section \<open>Parsed values\<close>

lemma signed_value_i64:
  assumes "signed_value neg val = Inr v"
  shows "in_i64 v"
proof -
  have "unat val < 18446744073709551616" using unsigned_less [of val, where ?'a = nat] by simp
  from signed_value_of_nat [OF this, of neg] assms show ?thesis by (simp add: Let_def split: if_splits)
qed

lemma ParseFixed_i64: "ParseFixed s d = Inr v \<Longrightarrow> in_i64 v"
  by (auto simp: ParseFixed_def Let_def dest: signed_value_i64 split: if_splits sum.splits prod.splits num_error.splits)

definition level_range :: "Level \<Rightarrow> bool" where
  "level_range l \<longleftrightarrow> in_i64 (Price l) \<and> in_i64 (Qty l)"

definition delta_range :: "BookDelta \<Rightarrow> bool" where
  "delta_range d \<longleftrightarrow> delta_i64 d \<and> (\<forall>l\<in>set (delta_Bids d) \<union> set (delta_Asks d). level_range l)"

definition snap_range :: "Snapshot \<Rightarrow> bool" where
  "snap_range s \<longleftrightarrow> in_i64 (snap_LastID s) \<and> (\<forall>l\<in>set (snap_Bids s) \<union> set (snap_Asks s). level_range l)"

lemma parse_levels_range:
  "parse_levels ps pd qd acc = Inr ls \<Longrightarrow> \<forall>l\<in>set acc. level_range l \<Longrightarrow> \<forall>l\<in>set ls. level_range l"
proof (induction ps arbitrary: acc)
  case (Cons p ps)
  from Cons.prems(1) obtain pr q where "ParsePrice (fst p) pd = Inr pr" "ParseQty (snd p) qd = Inr q"
    and rest: "parse_levels ps pd qd (acc @ [\<lparr>Price = pr, Qty = q\<rparr>]) = Inr ls" by (auto split: sum.splits)
  then have "level_range \<lparr>Price = pr, Qty = q\<rparr>"
    by (auto simp: level_range_def ParsePrice_def ParseQty_def dest: ParseFixed_i64)
  with Cons.IH [OF rest] Cons.prems(2) show ?case by simp
qed simp

lemma parseLevels_range: "parseLevels ps pd qd = Inr ls \<Longrightarrow> \<forall>l\<in>set ls. level_range l"
  unfolding parseLevels_def by (erule parse_levels_range) simp

lemma Decode_range:
  assumes "Decode un_trade un_depth c f = Inr ev" and "Kind ev = KindBookDelta"
    and "\<And>data rw. un_depth data = Inr rw \<Longrightarrow> in_i64 (dr_FirstID rw) \<and> in_i64 (dr_LastID rw)"
  shows "delta_range (ev_BookDelta ev)"
proof -
  obtain payload ev0 where ev: "ev = ev0\<lparr>ReceivedAt := frameNanos (frame_ReceivedAt f)\<rparr>"
    and ev0: "decodeAggTrade un_trade c payload = Inr ev0 \<or> decodeDepthUpdate un_depth c payload = Inr ev0"
    using assms(1) unfolding Decode_def Let_def by (auto split: prod.splits option.splits sum.splits if_splits)
  with assms(2) have "decodeDepthUpdate un_depth c payload = Inr ev0"
    by (auto simp: decodeAggTrade_def split: sum.splits option.splits)
  then show ?thesis
    using assms(3) unfolding ev
    by (auto simp: decodeDepthUpdate_def delta_range_def delta_i64_def dest: parseLevels_range split: sum.splits option.splits)
qed

lemma ParseDepth_range:
  assumes "ParseDepth un_body data i limit = Inr s" and "\<And>data rw. un_body data = Inr rw \<Longrightarrow> in_i64 (br_LastUpdateID rw)"
  shows "snap_range s"
  using assms by (auto simp: ParseDepth_def snap_range_def dest: parseLevels_range split: sum.splits if_splits)

lemma DepthClient_Snapshot_range:
  assumes "DepthClient_Snapshot http un_body c sy = Inr s" and "\<And>data rw. un_body data = Inr rw \<Longrightarrow> in_i64 (br_LastUpdateID rw)"
  shows "snap_range s"
  using assms by (auto simp: DepthClient_Snapshot_def dest: ParseDepth_range split: sum.splits option.splits prod.splits if_splits)

section \<open>Books\<close>

definition side_range :: "side \<Rightarrow> bool" where
  "side_range s \<longleftrightarrow> (\<forall>l\<in>set (levels s). level_range l)"

definition book_range :: "Book \<Rightarrow> bool" where
  "book_range b \<longleftrightarrow> side_range (bids b) \<and> side_range (asks b)"

lemma side_range_apply:
  assumes "side_range s" and "side_inv s" and "level_range l"
  shows "side_range (side_apply s l)"
proof -
  have "ordered (desc s) (levels s)" using assms(2) by (simp add: side_inv_def)
  then show ?thesis
  proof (cases rule: search_cases [where p = "Price l"])
    case (found xs k ys)
    have "levels (side_apply s l) = (if Qty l \<noteq> 0 then xs @ k\<lparr>Qty := Qty l\<rparr> # ys else xs @ ys)"
      using found by (simp add: side_apply_def slice_delete_def)
    with found(1) assms show ?thesis by (simp add: side_range_def level_range_def)
  next
    case (absent xs ys)
    have "levels (side_apply s l) = (if Qty l \<noteq> 0 then xs @ l # ys else xs @ ys)"
      using absent by (simp add: side_apply_def slice_insert_def)
    with absent(1) assms show ?thesis by (auto simp: side_range_def)
  qed
qed

lemma side_range_fold:
  assumes "side_range s" and "side_inv s" and "\<forall>l\<in>set ls. level_range l \<and> valid_level l"
  shows "side_range (foldl side_apply s ls)"
  using assms by (induction ls arbitrary: s) (auto simp: side_range_apply side_apply_correct(1))

lemma book_range_Apply:
  assumes "book_range b" and "book_inv b" and "Book_Apply b bs as = Inr b'" and "\<forall>l\<in>set bs \<union> set as. level_range l"
  shows "book_range b'"
proof -
  have v: "\<forall>l\<in>set bs \<union> set as. valid_level l" and b': "b' = b\<lparr>bids := foldl side_apply (bids b) bs, asks := foldl side_apply (asks b) as\<rparr>"
    using Book_Apply_fails_iff [of b bs as] assms(3) by (auto simp: Book_Apply_def split: option.splits)
  with assms show ?thesis by (auto simp: book_range_def book_inv_def intro!: side_range_fold)
qed

lemma book_range_Reset:
  assumes "Book_Reset b bs as = Inr b'" and "\<forall>l\<in>set bs \<union> set as. level_range l"
  shows "book_range b'"
proof -
  obtain nb na where s: "sorted_levels (bids b) bs = Inr nb" "sorted_levels (asks b) as = Inr na"
    and b': "b' = b\<lparr>bids := (bids b)\<lparr>levels := nb\<rparr>, asks := (asks b)\<lparr>levels := na\<rparr>\<rparr>"
    using assms(1) by (auto simp: Book_Reset_def split: option.splits sum.splits)
  have "set nb \<subseteq> set bs" "set na \<subseteq> set as"
    using mset_eq_setD [OF sorted_levels_Inr(2) [OF s(1)]] mset_eq_setD [OF sorted_levels_Inr(2) [OF s(2)]] by auto
  with assms(2) show ?thesis by (auto simp: book_range_def side_range_def b')
qed

section \<open>Trackers\<close>

definition tracker_range :: "Tracker \<Rightarrow> bool" where
  "tracker_range t \<longleftrightarrow> book_range (book t) \<and> in_i64 (last_id (seq t)) \<and> in_i64 (bidFloor t) \<and> in_i64 (askCeil t)
    \<and> (\<forall>d\<in>set (buf t). delta_range d)"

lemma buffer_range: "\<forall>d\<in>set (buf t). delta_range d \<Longrightarrow> delta_range d \<Longrightarrow> \<forall>e\<in>set (buf (buffer t d)). delta_range e"
  by (auto simp: buffer_def Let_def slice_delete_def dest: in_set_dropD)

lemma tracker_range_Apply:
  assumes "tracker_range t" and "tracker_inv t" and "delta_range d"
  shows "tracker_range (fst (Tracker_Apply t d))"
proof (cases "delta_Symbol d = symbol (book t)")
  case False
  then show ?thesis using assms(1) Tracker_Apply_wrong_symbol by simp
next
  case sy: True
  have kept: "\<forall>e\<in>set (buf (buffer t' d)). delta_range e" if "buf t' = buf t" for t'
    by (rule buffer_range) (use that assms in \<open>simp_all add: tracker_range_def\<close>)
  have i64: "in_i64 (delta_LastID d)" using assms(3) by (simp add: delta_range_def delta_i64_def)
  show ?thesis
  proof (cases "synced (seq t)")
    case False
    then show ?thesis using Tracker_Apply_cases(1) [OF sy] assms(1) kept [of t] by (simp add: tracker_range_def)
  next
    case True
    obtain s' c where n: "Next (seq t) d = (s', c)" by (cases "Next (seq t) d")
    note step = Tracker_Apply_cases(2-5) [OF sy True] and nx = Next_cases [OF n]
    show ?thesis
    proof (cases c)
      case Stale
      with step(1) n nx(1) assms(1) show ?thesis by (simp add: tracker_range_def)
    next
      case Contiguous
      show ?thesis
      proof (cases "Book_Apply (book t) (delta_Bids d) (delta_Asks d)")
        case (Inl e)
        with step(3) n Contiguous nx(2) assms(1) i64 kept [of "t\<lparr>seq := Invalidate s'\<rparr>"]
        show ?thesis by (simp add: tracker_range_def Invalidate_def)
      next
        case (Inr b)
        have "book_range b"
          by (rule book_range_Apply [OF _ _ Inr]) (use assms in \<open>simp_all add: tracker_range_def tracker_inv_def delta_range_def\<close>)
        with step(2) n Contiguous Inr nx(2) assms(1) i64 show ?thesis by (simp add: tracker_range_def)
      qed
    next
      case Gapped
      with step(4) n nx(3) assms(1) kept [of "t\<lparr>seq := s', stats := (stats t)\<lparr>st_Gaps := st_Gaps (stats t) + 1\<rparr>\<rparr>"]
      show ?thesis by (simp add: tracker_range_def)
    qed
  qed
qed

lemma in_i64_0 [simp]: "in_i64 0"
  by (simp add: in_i64_def MinInt64_def MaxInt64_def)

lemma deepest_range:
  assumes "\<forall>l\<in>set ls. level_range l"
  shows "in_i64 (deepest_bid ls)" and "in_i64 (deepest_ask ls)"
proof -
  have "in_i64 m \<Longrightarrow> in_i64 (foldl (\<lambda>m l. if Price l < m then Price l else m) m ls)"
    and "in_i64 m \<Longrightarrow> in_i64 (foldl (\<lambda>m l. if Price l > m then Price l else m) m ls)" for m
    using assms by (induction ls arbitrary: m) (auto simp: level_range_def)
  with assms show "in_i64 (deepest_bid ls)" and "in_i64 (deepest_ask ls)"
    by (auto simp: deepest_bid_def deepest_ask_def level_range_def split: list.split)
qed

lemma tracker_range_Load:
  assumes "tracker_range t" and "tracker_inv t" and "snap_range s"
  shows "tracker_range (fst (Load t s))"
proof (cases rule: Load_cases [of t s])
  case (refused e)
  with assms(1) show ?thesis by (simp add: tracker_range_def)
next
  case (accepted b)
  let ?J = "\<lambda>b q. book_range b \<and> book_inv b \<and> in_i64 (last_id q)"
  have buf: "\<forall>d\<in>set (buf t). delta_range d" using assms(1) by (simp add: tracker_range_def)
  obtain t' r where l: "replay (anchored t b s) 0 (buf t) = (t', r)" by (cases "replay (anchored t b s) 0 (buf t)")
  have "book_range b" using book_range_Reset [OF accepted(3)] assms(3) by (simp add: snap_range_def)
  moreover have "book_inv b" using Book_Reset_ok(1) [OF _ accepted(3)] assms(2) by (simp add: tracker_inv_def)
  ultimately have "replayed ?J (anchored t b s) (buf t) t' r"
    using assms(3) buf
    by (intro replay_rule [OF _ _ _ _ _ l, where pre = "[]"])
       (auto simp: snap_range_def delta_range_def delta_i64_def intro: book_range_Apply Book_Apply_ok(1))
  moreover have "in_i64 (bidFloor (anchored t b s))" "in_i64 (askCeil (anchored t b s))"
    using assms(3) by (simp_all add: anchored_def setBounds_def snap_range_def deepest_range)
  ultimately show ?thesis
    using buf by (auto simp: accepted(4) l replayed_def tracker_range_def delta_range_def delta_i64_def dest: set_mono_suffix)
qed

lemma tracker_run_range:
  assumes "tracker_run D S sy c t" and D: "\<And>d. D d \<Longrightarrow> delta_range d" and S: "\<And>s. S s \<Longrightarrow> snap_range s"
  shows "tracker_range t"
  using assms(1)
proof induction
  case run_new
  then show ?case by (simp add: tracker_range_def NewTracker_def New_def book_range_def side_range_def zero_Sequencer_def)
next
  case (run_apply t d)
  have "tracker_inv t" using tracker_run_inv [OF run_apply(1)] D S by (auto simp: delta_range_def snap_range_def)
  with run_apply D show ?case by (simp add: tracker_range_Apply)
next
  case (run_load t s)
  have "tracker_inv t" using tracker_run_inv [OF run_load(1)] D S by (auto simp: delta_range_def snap_range_def)
  with run_load S show ?case by (simp add: tracker_range_Load)
qed (simp_all add: tracker_range_def BeginFetch_def FetchFailed_def)

end
