(* ===== verification/Transport.thy ===== *)
theory Transport
  imports Model "HOL-Library.Sublist"
begin

text \<open>
  \<^verbatim>\<open>internal/exchange/binance/transport.go\<close>: the reconnecting websocket transport. The network is
  what each connection attempt does: whether the dial succeeds and what the reads give, in order.
  \<open>runOnce\<close> is one connection, \<open>Run_loop\<close> the reconnect loop over the attempts made so far; the random
  jitter is the parameter \<open>rand\<close>, with \<open>0 \<le> rand r < r\<close> as \<open>rand.Int64N\<close> documents.
\<close>

record Transport =
  initialWait :: int
  maxWait :: int
  reconnects :: u64

definition NewTransport :: Transport where
  "NewTransport = \<lparr>initialWait = 500000000, maxWait = 60000000000, reconnects = 0\<rparr>"

text \<open>Go's division truncates towards zero.\<close>

definition go_quarter :: "int \<Rightarrow> int" where
  "go_quarter x = (if 0 \<le> x then x div 4 else - (- x div 4))"

definition nextWait :: "(int \<Rightarrow> int) \<Rightarrow> int \<Rightarrow> int \<Rightarrow> int" where
  "nextWait rand current mx =
    (let nx = wrap64 (current * 2);
         nx = (if nx > mx then mx else nx);
         r = go_quarter nx
     in if r > 0 then wrap64 (nx + rand r) else nx)"

definition isServerShutdown :: "bytes \<Rightarrow> bool" where
  "isServerShutdown data \<longleftrightarrow> sublist ([CHR 0x22] @ ''serverShutdown'' @ [CHR 0x22]) data"

text \<open>
  A read gives a message (delivered to \<open>out\<close> at a time, or the context ends while \<open>out\<close> is full),
  fails, or the context has ended.
\<close>

datatype read_result = Msg bytes gotime | MsgUndelivered bytes | ReadErr | ReadCancelled

datatype conn_end = DialFailed | ReadFailed | ServerShutdown | CtxDone

fun read_loop :: "read_result list \<Rightarrow> Frame list \<Rightarrow> bool \<Rightarrow> Frame list \<times> bool \<times> conn_end option" where
  "read_loop [] out delivered = (out, delivered, None)"
| "read_loop (r # rs) out delivered =
    (case r of
       ReadErr \<Rightarrow> (out, delivered, Some ReadFailed)
     | ReadCancelled \<Rightarrow> (out, delivered, Some CtxDone)
     | Msg data now \<Rightarrow>
        if isServerShutdown data then (out, delivered, Some ServerShutdown)
        else read_loop rs (out @ [\<lparr>Data = data, frame_ReceivedAt = now\<rparr>]) True
     | MsgUndelivered data \<Rightarrow>
        if isServerShutdown data then (out, delivered, Some ServerShutdown) else (out, delivered, Some CtxDone))"

text \<open>The frames sent, whether any was, and how the connection ended (\<open>None\<close>: it is still reading).\<close>

definition runOnce :: "bool \<times> read_result list \<Rightarrow> Frame list \<times> bool \<times> conn_end option" where
  "runOnce a = (if \<not> fst a then ([], False, Some DialFailed) else read_loop (snd a) [] False)"

record run_state =
  rs_reconnects :: u64
  rs_wait :: int
  rs_sleeps :: "int list"
  rs_frames :: "Frame list"
  rs_stop :: bool

text \<open>One turn of the loop of \<open>Run\<close>; \<open>first\<close> is \<open>attempt = 0\<close>. 
  The sleeps are the arguments of \<open>time.After\<close>. \<open>rs_stop\<close> holds when there is no further turn: \<open>Run\<close> has
  returned, or the connection is still reading. A context that ends during a sleep is the end of the
  list of attempts.
\<close>

definition Run_turn :: "(int \<Rightarrow> int) \<Rightarrow> Transport \<Rightarrow> bool \<Rightarrow> run_state \<Rightarrow> bool \<times> read_result list \<Rightarrow> run_state" where
  "Run_turn rand t first st a =
    (let st = (if first then st else st\<lparr>rs_reconnects := rs_reconnects st + 1\<rparr>);
         (frames, delivered, e) = runOnce a;
         st = st\<lparr>rs_frames := rs_frames st @ frames\<rparr>
     in case e of
          None \<Rightarrow> st\<lparr>rs_stop := True\<rparr>
        | Some CtxDone \<Rightarrow> st\<lparr>rs_stop := True\<rparr>
        | Some ServerShutdown \<Rightarrow> st\<lparr>rs_wait := initialWait t\<rparr>
        | Some _ \<Rightarrow>
           let w = (if delivered then initialWait t else rs_wait st)
           in st\<lparr>rs_sleeps := rs_sleeps st @ [w], rs_wait := nextWait rand w (maxWait t)\<rparr>)"

fun Run_loop :: "(int \<Rightarrow> int) \<Rightarrow> Transport \<Rightarrow> bool \<Rightarrow> run_state \<Rightarrow> (bool \<times> read_result list) list \<Rightarrow> run_state" where
  "Run_loop rand t first st [] = st"
| "Run_loop rand t first st (a # as) =
    (let st' = Run_turn rand t first st a in if rs_stop st' then st' else Run_loop rand t False st' as)"

definition Run :: "(int \<Rightarrow> int) \<Rightarrow> Transport \<Rightarrow> (bool \<times> read_result list) list \<Rightarrow> run_state" where
  "Run rand t attempts =
    Run_loop rand t True
      \<lparr>rs_reconnects = reconnects t, rs_wait = initialWait t, rs_sleeps = [], rs_frames = [], rs_stop = False\<rparr> attempts"

section \<open>Lemmas\<close>

lemma nextWait_bounds:
  assumes "0 < c" and "0 < mx" and "c < 2 ^ 61" and "mx < 2 ^ 61" and "\<And>r. 0 < r \<Longrightarrow> 0 \<le> rand r \<and> rand r < r"
  shows "min (2 * c) mx \<le> nextWait rand c mx \<and> nextWait rand c mx \<le> min (2 * c) mx + min (2 * c) mx div 4"
proof -
  define m where "m = min (2 * c) mx"
  have w: "wrap64 (c * 2) = 2 * c" using assms by (intro trans [OF wrap64_id]) (auto simp: in_i64_def MinInt64_def MaxInt64_def)
  have m: "0 < m" "m < 2 ^ 61" using assms by (auto simp: m_def)
  have nx: "nextWait rand c mx = (if m div 4 > 0 then wrap64 (m + rand (m div 4)) else m)"
    using assms(1,2) by (simp add: nextWait_def w go_quarter_def Let_def m_def min_def)
  have "m \<le> nextWait rand c mx \<and> nextWait rand c mx \<le> m + m div 4"
  proof (cases "m div 4 > 0")
    case True
    from assms(5) [OF True] have r: "0 \<le> rand (m div 4)" "rand (m div 4) < m div 4" by auto
    moreover have "m div 4 \<le> m" using m(1) by linarith
    ultimately have "wrap64 (m + rand (m div 4)) = m + rand (m div 4)"
      using m by (intro wrap64_id) (auto simp: in_i64_def MinInt64_def MaxInt64_def)
    with r True show ?thesis unfolding nx by simp
  next
    case False
    then show ?thesis using m unfolding nx by simp
  qed
  then show ?thesis by (simp add: m_def)
qed

lemma read_loop_frames:
  "read_loop rs out d = (frames, delivered, e) \<Longrightarrow>
   \<exists>sent. frames = out @ sent \<and> prefix (map (\<lambda>f. Msg (Data f) (frame_ReceivedAt f)) sent) rs
     \<and> (\<forall>f\<in>set sent. \<not> isServerShutdown (Data f)) \<and> (delivered \<longleftrightarrow> d \<or> sent \<noteq> [])"
proof (induction rs out d rule: read_loop.induct)
  case (2 r rs out delivered0)
  show ?case
  proof (cases "\<exists>data now. r = Msg data now \<and> \<not> isServerShutdown data")
    case True
    then obtain data now where r: "r = Msg data now" "\<not> isServerShutdown data" by blast
    with "2.IH" [OF r] "2.prems" obtain sent where
      s: "frames = (out @ [\<lparr>Data = data, frame_ReceivedAt = now\<rparr>]) @ sent"
      "prefix (map (\<lambda>f. Msg (Data f) (frame_ReceivedAt f)) sent) rs" "\<forall>f\<in>set sent. \<not> isServerShutdown (Data f)" "delivered"
      by auto
    then show ?thesis
      using r by (intro exI [of _ "\<lparr>Data = data, frame_ReceivedAt = now\<rparr> # sent"]) auto
  next
    case False
    with "2.prems" show ?thesis by (intro exI [of _ "[]"]) (auto split: read_result.splits if_splits)
  qed
qed auto

text \<open>
  The backoff: a wait doubles up to the cap and grows by less than a quarter of jitter, or starts
  again where \<open>reset\<close> allows it.
\<close>

definition wait_cap :: "Transport \<Rightarrow> int" where
  "wait_cap t = max (initialWait t) (maxWait t + maxWait t div 4)"

definition backs_off :: "Transport \<Rightarrow> bool \<Rightarrow> int \<Rightarrow> int \<Rightarrow> bool" where
  "backs_off t reset v w \<longleftrightarrow> reset \<and> w = initialWait t
    \<or> min (2 * v) (maxWait t) \<le> w \<and> w \<le> min (2 * v) (maxWait t) + min (2 * v) (maxWait t) div 4"

text \<open>An attempt that starts the backoff again: it sent a frame, or the server announced its shutdown.\<close>

definition resets :: "bool \<times> read_result list \<Rightarrow> bool" where
  "resets a \<longleftrightarrow> fst (snd (runOnce a)) \<or> snd (snd (runOnce a)) = Some ServerShutdown"

definition waits_ok :: "Transport \<Rightarrow> bool \<Rightarrow> run_state \<Rightarrow> bool" where
  "waits_ok t reset st \<longleftrightarrow> (\<forall>w\<in>set (rs_sleeps st @ [rs_wait st]). 0 < w \<and> w \<le> wait_cap t)
    \<and> successively (backs_off t reset) (rs_sleeps st @ [rs_wait st]) \<and> hd (rs_sleeps st @ [rs_wait st]) = initialWait t"

lemma waits_ok_turn:
  assumes "0 < initialWait t" and "initialWait t < 2 ^ 60" and "0 < maxWait t" and "maxWait t < 2 ^ 60"
    and "\<And>r. 0 < r \<Longrightarrow> 0 \<le> rand r \<and> rand r < r" and "resets a \<longrightarrow> reset" and ok: "waits_ok t reset st"
  shows "waits_ok t reset (Run_turn rand t first st a)"
proof -
  have cap: "wait_cap t < 2 ^ 61" "initialWait t \<le> wait_cap t" using assms by (auto simp: wait_cap_def)
  have nx: "0 < nextWait rand w (maxWait t) \<and> nextWait rand w (maxWait t) \<le> wait_cap t \<and> backs_off t reset w (nextWait rand w (maxWait t))"
    if "0 < w" "w \<le> wait_cap t" for w
  proof -
    have m: "min (2 * w) (maxWait t) \<le> maxWait t" "0 < min (2 * w) (maxWait t)" using that assms by auto
    then have "min (2 * w) (maxWait t) div 4 \<le> maxWait t div 4" by (intro zdiv_mono1) auto
    moreover have "min (2 * w) (maxWait t) \<le> nextWait rand w (maxWait t)
        \<and> nextWait rand w (maxWait t) \<le> min (2 * w) (maxWait t) + min (2 * w) (maxWait t) div 4"
      by (rule nextWait_bounds) (use that cap assms in auto)
    ultimately show ?thesis using m by (auto simp: wait_cap_def backs_off_def)
  qed
  have start: "waits_ok t reset (st\<lparr>rs_wait := initialWait t\<rparr>)" if reset
    using ok that assms(1) cap(2) by (auto simp: waits_ok_def successively_append_iff backs_off_def hd_append)
  have push: "waits_ok t reset (s\<lparr>rs_sleeps := rs_sleeps s @ [rs_wait s], rs_wait := nextWait rand (rs_wait s) (maxWait t)\<rparr>)"
    if "waits_ok t reset s" for s
    using that nx [of "rs_wait s"] by (auto simp: waits_ok_def successively_append_iff hd_append)
  have same: "waits_ok t reset s" if "rs_sleeps s = rs_sleeps st'" "rs_wait s = rs_wait st'" "waits_ok t reset st'" for s st'
    using that by (simp add: waits_ok_def)
  show ?thesis
  proof (cases "runOnce a")
    case (fields frames delivered e)
    let ?s = "\<lambda>w. st\<lparr>rs_wait := w\<rparr>"
    consider "e = None \<or> e = Some CtxDone" | "e = Some ServerShutdown" | "delivered" "e = Some DialFailed \<or> e = Some ReadFailed"
      | "\<not> delivered" "e = Some DialFailed \<or> e = Some ReadFailed"
      by (cases e; cases "the e"; cases delivered) auto
    then show ?thesis
    proof cases
      case 1
      show ?thesis by (rule same [OF _ _ ok]) (use 1 in \<open>auto simp: Run_turn_def Let_def fields\<close>)
    next
      case 2
      then have "waits_ok t reset (?s (initialWait t))" using start assms(6) by (simp add: resets_def fields)
      then show ?thesis by (rule same [rotated 2]) (use 2 in \<open>auto simp: Run_turn_def Let_def fields\<close>)
    next
      case 3
      then have "waits_ok t reset (?s (initialWait t))" using start assms(6) by (simp add: resets_def fields)
      from push [OF this] show ?thesis by (rule same [rotated 2]) (use 3 in \<open>auto simp: Run_turn_def Let_def fields\<close>)
    next
      case 4
      show ?thesis by (rule same [OF _ _ push [OF ok]]) (use 4 in \<open>auto simp: Run_turn_def Let_def fields\<close>)
    qed
  qed
qed

lemma waits_ok_loop:
  assumes "0 < initialWait t" and "initialWait t < 2 ^ 60" and "0 < maxWait t" and "maxWait t < 2 ^ 60"
    and "\<And>r. 0 < r \<Longrightarrow> 0 \<le> rand r \<and> rand r < r" and "\<forall>a\<in>set as. resets a \<longrightarrow> reset" and "waits_ok t reset st"
  shows "waits_ok t reset (Run_loop rand t first st as)"
  using assms(6,7)
proof (induction as arbitrary: first st)
  case (Cons a as)
  from waits_ok_turn [OF assms(1-5) _ Cons.prems(2), of a first] Cons.prems(1) Cons.IH show ?case by (simp add: Let_def)
qed simp

section \<open>Properties\<close>



text \<open>
  One connection forwards what it read: the frames sent are the messages read, from the first one on,
  in order and with their receive times; a server shutdown notice is never forwarded; and the
  connection counts as having delivered exactly when it sent a frame.
\<close>

lemma runOnce_forwards:
  assumes "runOnce (True, rs) = (frames, delivered, e)"
  shows "prefix (map (\<lambda>f. Msg (Data f) (frame_ReceivedAt f)) frames) rs
    \<and> (\<forall>f\<in>set frames. \<not> isServerShutdown (Data f)) \<and> (delivered \<longleftrightarrow> frames \<noteq> [])"
  using read_loop_frames [of rs "[]" False frames delivered e] assms by (auto simp: runOnce_def)

end
