(* ===== verification/Histogram.thy ===== *)
theory Histogram
  imports Model
begin

text \<open>
  \<^verbatim>\<open>internal/metrics/histogram.go\<close>: durations counted into fixed buckets. The bounds are sorted
  and deduplicated in place, an observation is one binary search and two additions, and the
  exposition adds the buckets up. A duration is an \<open>int64\<close> of nanoseconds. Rendering a duration as
  a floating-point number of seconds is the parameter \<open>prom_floats\<close>; \<open>Quantile\<close>, which is
  floating-point throughout, has a theory of its own.
\<close>

record Histogram =
  h_name :: bytes
  h_help :: bytes
  bounds :: "int list"
  counts :: "u64 list"
  h_sum :: int
  h_total :: u64
  negative :: u64

text \<open>
  The deduplication of \<open>NewHistogram\<close>: \<open>uniq\<close> shares the array of \<open>sorted\<close>, so the loop writes at
  \<open>k\<close> into the array it is still reading at \<open>i\<close> and \<open>i - 1\<close>.
\<close>

function dedupe_loop :: "int list \<Rightarrow> nat \<Rightarrow> nat \<Rightarrow> int list" where
  "dedupe_loop arr k i =
    (if i < length arr
     then let b = arr ! i
          in if i = 0 \<or> b \<noteq> arr ! (i - 1) then dedupe_loop (arr[k := b]) (k + 1) (i + 1)
             else dedupe_loop arr k (i + 1)
     else take k arr)"
  by pat_completeness auto
termination
  by (relation "measure (\<lambda>(arr, k, i). length arr - i)") auto

declare dedupe_loop.simps [simp del]

definition NewHistogram :: "bytes \<Rightarrow> bytes \<Rightarrow> int list \<Rightarrow> Histogram" where
  "NewHistogram name help bs =
    (let uniq = dedupe_loop (sort bs) 0 0
     in \<lparr>h_name = name, h_help = help, bounds = uniq, counts = replicate (length uniq + 1) 0,
         h_sum = 0, h_total = 0, negative = 0\<rparr>)"

text \<open>\<open>sort.Search\<close>: bisection for the first index that satisfies the test.\<close>

function Search_loop :: "(nat \<Rightarrow> bool) \<Rightarrow> nat \<Rightarrow> nat \<Rightarrow> nat" where
  "Search_loop f i j =
    (if i < j
     then let h = (i + j) div 2 in if \<not> f h then Search_loop f (h + 1) j else Search_loop f i h
     else i)"
  by pat_completeness auto
termination
  by (relation "measure (\<lambda>(f, i, j). j - i)") auto

declare Search_loop.simps [simp del]

definition sort_Search :: "nat \<Rightarrow> (nat \<Rightarrow> bool) \<Rightarrow> nat" where
  "sort_Search n f = Search_loop f 0 n"

definition Observe :: "int \<Rightarrow> Histogram \<Rightarrow> Histogram" where
  "Observe d h =
    (if d < 0 then h\<lparr>negative := negative h + 1\<rparr>
     else let i = sort_Search (length (bounds h)) (\<lambda>i. d \<le> bounds h ! i)
       in h\<lparr>counts := (counts h)[i := counts h ! i + 1], h_sum := wrap64 (h_sum h + d), h_total := h_total h + 1\<rparr>)"

definition Count :: "Histogram \<Rightarrow> u64" where
  "Count h = h_total h"

definition Negative :: "Histogram \<Rightarrow> u64" where
  "Negative h = negative h"

text \<open>Go's integer division truncates towards zero.\<close>

definition go_div :: "int \<Rightarrow> int \<Rightarrow> int" where
  "go_div a b = wrap64 (sgn a * sgn b * (\<bar>a\<bar> div \<bar>b\<bar>))"

definition Mean :: "Histogram \<Rightarrow> int" where
  "Mean h = (let n = h_total h in if n = 0 then 0 else go_div (h_sum h) (sint n))"

text \<open>
  \<open>secondsLabel\<close>, the shortest decimal of the seconds, and the \<open>%g\<close> of the seconds.
\<close>

record prom_floats =
  secondsLabel :: "int \<Rightarrow> bytes"
  fmt_g_seconds :: "int \<Rightarrow> bytes"

definition newline :: bytes where
  "newline = [CHR 0x0A]"

definition dquote :: bytes where
  "dquote = [CHR 0x22]"

definition bucket_line :: "bytes \<Rightarrow> bytes \<Rightarrow> bytes \<Rightarrow> bytes \<Rightarrow> u64 \<Rightarrow> bytes" where
  "bucket_line name labels sep le n =
    name @ ''_bucket{'' @ labels @ sep @ ''le='' @ dquote @ le @ dquote @ ''} '' @ FormatUint n @ newline"

definition prom_head :: "Histogram \<Rightarrow> bytes" where
  "prom_head h = ''# HELP '' @ h_name h @ '' '' @ h_help h @ newline @ ''# TYPE '' @ h_name h @ '' histogram'' @ newline"

definition prom_tail :: "prom_floats \<Rightarrow> Histogram \<Rightarrow> bytes \<Rightarrow> u64 \<Rightarrow> bytes" where
  "prom_tail fl h labels cum =
    (let opn = (if labels \<noteq> [] then ''{'' @ labels @ ''}'' else []); n = negative h
     in h_name h @ ''_sum'' @ opn @ '' '' @ fmt_g_seconds fl (h_sum h) @ newline
        @ h_name h @ ''_count'' @ opn @ '' '' @ FormatUint cum @ newline
        @ (if n > 0 \<or> labels = []
           then ''# HELP '' @ h_name h @ ''_negative_total Observations below zero, which mean the clocks disagree.'' @ newline
             @ ''# TYPE '' @ h_name h @ ''_negative_total counter'' @ newline
             @ h_name h @ ''_negative_total'' @ opn @ '' '' @ FormatUint n @ newline
           else []))"

text \<open>The loop over the bounds: what was written so far and the running count.\<close>

definition WriteProm :: "prom_floats \<Rightarrow> Histogram \<Rightarrow> bytes \<Rightarrow> bytes" where
  "WriteProm fl h labels =
    (let sep = (if labels \<noteq> [] then '','' else []);
         (out, cum) = foldl (\<lambda>(out, cum) i.
             let cum = cum + counts h ! i
             in (out @ bucket_line (h_name h) labels sep (secondsLabel fl (bounds h ! i)) cum, cum))
           (prom_head h, 0) [0..<length (bounds h)];
         cum = cum + counts h ! length (bounds h)
     in out @ bucket_line (h_name h) labels sep ''+Inf'' cum @ prom_tail fl h labels cum)"

section \<open>The bounds\<close>

lemma remdups_adj_snoc:
  "remdups_adj (xs @ [x]) = remdups_adj xs @ (if xs \<noteq> [] \<and> last xs = x then [] else [x])"
  by (induction xs rule: remdups_adj.induct) auto

lemma dedupe_loop_eq:
  assumes "length arr = length xs" and "k = length (remdups_adj (take i xs))" and "take k arr = remdups_adj (take i xs)"
    and "drop i arr = drop i xs" and "0 < i \<longrightarrow> arr ! (i - 1) = xs ! (i - 1)" and "i \<le> length xs"
  shows "dedupe_loop arr k i = remdups_adj xs"
  using assms
proof (induction arr k i rule: dedupe_loop.induct)
  case (1 arr k i)
  have le: "k \<le> i" using "1.prems"(2) remdups_adj_length [of "take i xs"] by simp
  show ?case
  proof (cases "i < length arr")
    case True
    then have i: "i < length xs" using "1.prems"(1) by simp
    have b: "arr ! i = xs ! i" using hd_drop_conv_nth [OF True] hd_drop_conv_nth [OF i] "1.prems"(4) by simp
    have tk: "take (Suc i) xs = take i xs @ [xs ! i]" using i by (rule take_Suc_conv_app_nth)
    have lst: "last (take i xs) = xs ! (i - 1)" if "0 < i" using that i by (subst last_conv_nth) auto
    have dr: "drop (Suc i) arr = drop (Suc i) xs" using "1.prems"(4) by (metis drop_Suc drop_tl tl_drop)
    show ?thesis
    proof (cases "i = 0 \<or> arr ! i \<noteq> arr ! (i - 1)")
      case new: True
      have rd: "remdups_adj (take (Suc i) xs) = remdups_adj (take i xs) @ [xs ! i]"
        unfolding tk remdups_adj_snoc using new lst "1.prems"(5) b by auto
      have "take (k + 1) (arr[k := arr ! i]) = remdups_adj (take (Suc i) xs)"
        using "1.prems"(1,3) le i b rd by (simp add: take_Suc_conv_app_nth)
      moreover have "drop (Suc i) (arr[k := arr ! i]) = drop (Suc i) xs" using dr le by simp
      moreover have "arr[k := arr ! i] ! i = xs ! i" using b le i "1.prems"(1) by (cases "k = i") simp_all
      ultimately have "dedupe_loop (arr[k := arr ! i]) (k + 1) (i + 1) = remdups_adj xs"
        using "1.IH"(1) [OF True refl new] "1.prems"(1,2) rd i by simp
      then show ?thesis using True new by (subst dedupe_loop.simps) (simp only: Let_def if_True)
    next
      case False
      then have rd: "remdups_adj (take (Suc i) xs) = remdups_adj (take i xs)"
        using lst "1.prems"(5) b i by (auto simp: tk remdups_adj_snoc)
      then have "dedupe_loop arr k (i + 1) = remdups_adj xs"
        using "1.IH"(2) [OF True refl False] "1.prems"(1,2,3) dr b i by simp
      then show ?thesis using True False by (subst dedupe_loop.simps) (simp only: Let_def if_True if_False)
    qed
  next
    case False
    then show ?thesis using "1.prems" by (subst dedupe_loop.simps) simp
  qed
qed

lemma bounds_NewHistogram: "bounds (NewHistogram name help bs) = remdups_adj (sort bs)"
  using dedupe_loop_eq [of "sort bs" "sort bs" 0 0] by (simp add: NewHistogram_def Let_def)

lemma remdups_adj_strict: "sorted xs \<Longrightarrow> sorted_wrt (<) (remdups_adj xs)" for xs :: "int list"
proof (induction xs rule: remdups_adj.induct)
  case (3 x y xs)
  have "set (remdups_adj (y # xs)) = set (y # xs)" by (rule remdups_adj_set)
  with 3 show ?case by (auto simp del: remdups_adj_set remdups_adj.simps(3) simp: remdups_adj.simps(3) [of x y xs])
qed simp_all

section \<open>The bucket of an observation\<close>

lemma Search_loop_least:
  assumes "i \<le> j" and "\<And>k l. k \<le> l \<Longrightarrow> l < n \<Longrightarrow> f k \<Longrightarrow> f l" and "\<forall>k<i. \<not> f k" and "j \<le> n" and "\<forall>k. j \<le> k \<and> k < n \<longrightarrow> f k"
  shows "Search_loop f i j \<le> n \<and> (\<forall>k<n. f k \<longleftrightarrow> Search_loop f i j \<le> k)"
  using assms
proof (induction f i j rule: Search_loop.induct)
  case (1 f i j)
  show ?case
  proof (cases "i < j")
    case True
    let ?h = "(i + j) div 2"
    have h: "i \<le> ?h" "?h < j" using True by auto
    show ?thesis
    proof (cases "f ?h")
      case f: True
      then have n: "\<forall>k. ?h \<le> k \<and> k < n \<longrightarrow> f k" using "1.prems"(2) by blast
      have "Search_loop f i j = Search_loop f i ?h" using True f by (subst Search_loop.simps) (simp add: Let_def)
      moreover have "\<not> \<not> f ?h" "?h \<le> n" using f h "1.prems"(4) by auto
      ultimately show ?thesis using "1.IH"(2) [OF True refl _ h(1) "1.prems"(2,3) _ n] by simp
    next
      case False
      then have n: "\<forall>k<?h + 1. \<not> f k" using "1.prems"(2) [of _ ?h] h "1.prems"(4) by (auto simp: less_Suc_eq_le)
      have "Search_loop f i j = Search_loop f (?h + 1) j" using True False by (subst Search_loop.simps) (simp add: Let_def)
      moreover have "?h + 1 \<le> j" using h by simp
      ultimately show ?thesis using "1.IH"(1) [OF True refl False _ "1.prems"(2) n "1.prems"(4,5)] by simp
    qed
  next
    case False
    then have "Search_loop f i j = i" by (subst Search_loop.simps) simp
    with False "1.prems" show ?thesis by (auto simp: not_le intro: leI)
  qed
qed

text \<open>The number of the bucket a duration belongs to.\<close>

definition bucket :: "int list \<Rightarrow> int \<Rightarrow> nat" where
  "bucket bs d = sort_Search (length bs) (\<lambda>i. d \<le> bs ! i)"

lemma bucket_spec:
  assumes "sorted_wrt (<) bs"
  shows "bucket bs d \<le> length bs" and "k < length bs \<Longrightarrow> d \<le> bs ! k \<longleftrightarrow> bucket bs d \<le> k"
proof -
  have "bs ! k \<le> bs ! l" if "k \<le> l" "l < length bs" for k l
    using that assms by (cases "k = l") (auto simp: sorted_wrt_iff_nth_less intro: less_imp_le)
  then have "d \<le> bs ! l" if "k \<le> l" "l < length bs" "d \<le> bs ! k" for k l
    using that by (meson order_trans)
  from Search_loop_least [of 0 "length bs" "length bs" "\<lambda>i. d \<le> bs ! i", OF _ this]
  show "bucket bs d \<le> length bs" and "k < length bs \<Longrightarrow> d \<le> bs ! k \<longleftrightarrow> bucket bs d \<le> k"
    by (auto simp: bucket_def sort_Search_def)
qed

section \<open>The counters after a sequence of observations\<close>

definition observed :: "Histogram \<Rightarrow> int list \<Rightarrow> Histogram" where
  "observed h ds = foldl (\<lambda>h d. Observe d h) h ds"

definition counts_ok :: "int list \<Rightarrow> int list \<Rightarrow> Histogram \<Rightarrow> bool" where
  "counts_ok bs ds h \<longleftrightarrow> bounds h = bs \<and> length (counts h) = length bs + 1
    \<and> (\<forall>i\<le>length bs. counts h ! i = of_nat (length (filter (\<lambda>d. 0 \<le> d \<and> bucket bs d = i) ds)))
    \<and> h_total h = of_nat (length (filter (\<lambda>d. 0 \<le> d) ds))
    \<and> negative h = of_nat (length (filter (\<lambda>d. d < 0) ds))
    \<and> h_sum h = wrap64 (sum_list (filter (\<lambda>d. 0 \<le> d) ds))"

lemma wrap64_add: "wrap64 (wrap64 a + b) = wrap64 (a + b)"
proof -
  have "(wrap64 a + b) mod 18446744073709551616 = (a + b) mod 18446744073709551616"
    by (rule mod_add_cong [OF wrap64_cong refl])
  then have "(wrap64 a + b + 9223372036854775808) mod 18446744073709551616 = (a + b + 9223372036854775808) mod 18446744073709551616"
    by (rule mod_add_cong) simp
  then show ?thesis by (simp add: wrap64_def [of "wrap64 a + b"] wrap64_def [of "a + b"])
qed

lemma Observe_counts_ok:
  assumes "sorted_wrt (<) bs" and "counts_ok bs ds h"
  shows "counts_ok bs (ds @ [d]) (Observe d h)"
  using assms(2) bucket_spec(1) [OF assms(1), of d]
  by (auto simp: counts_ok_def Observe_def Let_def bucket_def [symmetric] nth_list_update wrap64_add add.commute [of d])

lemma observed_counts_ok:
  assumes "sorted_wrt (<) bs" and "counts_ok bs [] h"
  shows "counts_ok bs ds (observed h ds)"
proof (induction ds rule: rev_induct)
  case (snoc d ds)
  then show ?case using Observe_counts_ok [OF assms(1)] by (simp add: observed_def)
qed (use assms(2) in \<open>simp add: observed_def\<close>)

lemma observed_names [simp]: "h_name (observed h ds) = h_name h" "h_help (observed h ds) = h_help h"
  by (induction ds rule: rev_induct) (auto simp: observed_def Observe_def Let_def)

lemma counts_ok_new: "counts_ok (remdups_adj (sort bs)) [] (NewHistogram name help bs)"
proof -
  have "bounds (NewHistogram name help bs) = remdups_adj (sort bs)" by (rule bounds_NewHistogram)
  moreover have "wrap64 0 = 0" by (simp add: wrap64_def)
  ultimately show ?thesis
    unfolding counts_ok_def by (auto simp: NewHistogram_def Let_def simp del: replicate_Suc)
qed

lemma filter_bucket_Suc:
  "length (filter (\<lambda>d. 0 \<le> d \<and> b d \<le> Suc i) ds) =
   length (filter (\<lambda>d. 0 \<le> d \<and> b d \<le> i) ds) + length (filter (\<lambda>d. 0 \<le> d \<and> b d = Suc i) ds)"
  for ds :: "int list" and b :: "int \<Rightarrow> nat"
  by (induction ds) auto

text \<open>The running count at a bound is the number of observations up to the bound.\<close>

lemma cumulative:
  assumes "counts_ok bs ds h" and "i \<le> length bs"
  shows "sum_list (map ((!) (counts h)) [0..<Suc i]) = of_nat (length (filter (\<lambda>d. 0 \<le> d \<and> bucket bs d \<le> i) ds))"
  using assms(2)
proof (induction i)
  case 0
  then show ?case using assms(1) by (simp add: counts_ok_def)
next
  case (Suc i)
  have "counts h ! Suc i = of_nat (length (filter (\<lambda>d. 0 \<le> d \<and> bucket bs d = Suc i) ds))"
    using assms(1) Suc.prems by (simp add: counts_ok_def)
  then show ?case using Suc by (simp add: filter_bucket_Suc)
qed

section \<open>The exposition\<close>

text \<open>The lines of the buckets, each with the number of observations up to its bound.\<close>

definition up_to :: "int list \<Rightarrow> int \<Rightarrow> u64" where
  "up_to ds b = of_nat (length (filter (\<lambda>d. 0 \<le> d \<and> d \<le> b) ds))"

lemma WriteProm_loop:
  assumes "sorted_wrt (<) bs" and "counts_ok bs ds h" and "n \<le> length bs"
  shows "foldl (\<lambda>(out, cum) i. let cum = cum + counts h ! i in (out @ L (bs ! i) cum, cum)) (out, 0) [0..<n]
    = (out @ concat (map (\<lambda>i. L (bs ! i) (up_to ds (bs ! i))) [0..<n]), sum_list (map ((!) (counts h)) [0..<n]))"
  using assms(3)
proof (induction n)
  case (Suc n)
  have "sum_list (map ((!) (counts h)) [0..<Suc n]) = up_to ds (bs ! n)"
    using cumulative [OF assms(2), of n] bucket_spec(2) [OF assms(1), of n] Suc.prems by (simp add: up_to_def)
  with Suc show ?case by (simp add: Let_def)
qed simp

lemma WriteProm_eq:
  assumes "sorted_wrt (<) bs" and "counts_ok bs ds h"
  shows "WriteProm fl h labels =
    (let sep = (if labels \<noteq> [] then '','' else []); n = of_nat (length (filter (\<lambda>d. 0 \<le> d) ds))
     in prom_head h @ concat (map (\<lambda>b. bucket_line (h_name h) labels sep (secondsLabel fl b) (up_to ds b)) bs)
        @ bucket_line (h_name h) labels sep ''+Inf'' n @ prom_tail fl h labels n)"
proof -
  define sep where "sep = (if labels \<noteq> [] then '','' else [])"
  let ?L = "\<lambda>b. bucket_line (h_name h) labels sep (secondsLabel fl b)" and ?m = "length bs"
  have bs: "bounds h = bs" using assms(2) by (simp add: counts_ok_def)
  have "filter (\<lambda>d. 0 \<le> d \<and> bucket bs d \<le> ?m) ds = filter (\<lambda>d. 0 \<le> d) ds"
    using bucket_spec(1) [OF assms(1)] by simp
  then have cum: "sum_list (map ((!) (counts h)) [0..<?m]) + counts h ! ?m = of_nat (length (filter (\<lambda>d. 0 \<le> d) ds))"
    using cumulative [OF assms(2), of ?m] by simp
  have "map (\<lambda>i. ?L (bs ! i) (up_to ds (bs ! i))) [0..<?m] = map (\<lambda>b. ?L b (up_to ds b)) bs"
    by (rule nth_equalityI) simp_all
  then have "foldl (\<lambda>(out, cum) i. let cum = cum + counts h ! i in (out @ ?L (bs ! i) cum, cum)) (prom_head h, 0) [0..<?m]
      = (prom_head h @ concat (map (\<lambda>b. ?L b (up_to ds b)) bs), sum_list (map ((!) (counts h)) [0..<?m]))"
    using WriteProm_loop [OF assms, of ?m ?L "prom_head h"] by (simp only: order_refl)
  then show ?thesis
    unfolding WriteProm_def bs sep_def [symmetric] by (simp only: Let_def prod.case cum append_assoc)
qed

lemma sorted_bounds: "remdups_adj (sort bs) = sorted_list_of_set (set bs)" for bs :: "int list"
  by (rule sorted_distinct_set_unique)
     (use remdups_adj_strict [of "sort bs"] in \<open>simp_all add: strict_sorted_iff\<close>)

section \<open>Properties\<close>

text \<open>
  C40. What a scrape shows is what was observed. Build a histogram over any bounds and record any
  durations. Then the buckets are the distinct bounds in ascending order, whatever order and
  repetitions they were given in; the line of each bound carries the number of observations that are
  not negative and at most the bound, so the lines are cumulative; the last bucket and the count line
  both carry the number of observations that are not negative; the sum is theirs; and the negative
  ones are counted apart and in no bucket. Counters are modulo 64 bits.
\<close>

theorem histogram_exposition:
  "let h = observed (NewHistogram name help bs) ds; n = of_nat (length (filter (\<lambda>d. 0 \<le> d) ds));
       sep = (if labels \<noteq> [] then '','' else [])
   in WriteProm fl h labels =
        prom_head h @ concat (map (\<lambda>b. bucket_line name labels sep (secondsLabel fl b) (up_to ds b)) (sorted_list_of_set (set bs)))
        @ bucket_line name labels sep ''+Inf'' n @ prom_tail fl h labels n
      \<and> Count h = n \<and> Negative h = of_nat (length (filter (\<lambda>d. d < 0) ds))
      \<and> h_sum h = wrap64 (sum_list (filter (\<lambda>d. 0 \<le> d) ds))"
proof -
  let ?bs = "remdups_adj (sort bs)"
  define h where "h = observed (NewHistogram name help bs) ds"
  have s: "sorted_wrt (<) ?bs" by (rule remdups_adj_strict) simp
  have ok: "counts_ok ?bs ds h" unfolding h_def by (rule observed_counts_ok [OF s counts_ok_new])
  have "h_name h = name" by (simp add: h_def NewHistogram_def Let_def)
  with WriteProm_eq [OF s ok, of fl labels] ok show ?thesis
    unfolding h_def [symmetric] by (simp add: sorted_bounds Let_def counts_ok_def Count_def Negative_def)
qed

end
