(* ===== verification/Ingest.thy ===== *)
theory Ingest
  imports Replay Ranges Transport Histogram
begin

text \<open>
  \<^verbatim>\<open>cmd/ingestd\<close>: the daemon. \<open>symbolList_Set\<close> is the repeatable flag of \<^verbatim>\<open>main.go\<close>; \<open>ingest_setup\<close> is
  the start of \<open>run\<close> up to its loop; \<open>ingest_frame\<close> and \<open>ingest_route\<close> are one turn of the loop, split
  where \<open>Route\<close> may wait; the step relation \<open>ingest_run\<close> interleaves the turns with the shards, the
  subscribers and the recorder's writer. \<open>checkOne\<close> and \<open>runChecker\<close> are the correctness harness of
  \<^verbatim>\<open>check.go\<close>, \<open>writeMetrics\<close> the exposition of \<^verbatim>\<open>metrics.go\<close>.
\<close>

section \<open>The symbols flag\<close>

text \<open>
  \<open>strings.TrimSpace\<close> and \<open>strings.ToUpper\<close>: the paths for ASCII text; what they do to other text is
  decided by the Unicode tables, the parameter \<open>uni\<close>.
\<close>

definition is_ascii :: "char \<Rightarrow> bool" where
  "is_ascii c \<longleftrightarrow> (of_char c :: nat) < 128"

definition ascii_space :: "char \<Rightarrow> bool" where
  "ascii_space c \<longleftrightarrow> of_char c \<in> {9, 10, 11, 12, 13, 32 :: nat}"

definition to_upper :: "char \<Rightarrow> char" where
  "to_upper c = (let n = (of_char c :: nat) in if 97 \<le> n \<and> n \<le> 122 then char_of (n - 32) else c)"

definition trim_ascii :: "bytes \<Rightarrow> bytes" where
  "trim_ascii v = rev (dropWhile ascii_space (rev (dropWhile ascii_space v)))"

definition upper_trimmed :: "(bytes \<Rightarrow> bytes) \<Rightarrow> bytes \<Rightarrow> bytes" where
  "upper_trimmed uni v = (if list_all is_ascii v then map to_upper (trim_ascii v) else uni v)"

datatype flag_error = NotAPair bytes | GivenTwice Symbol

definition symbolList_Set :: "(bytes \<Rightarrow> bytes) \<Rightarrow> bytes \<Rightarrow> Symbol list \<Rightarrow> flag_error + Symbol list" where
  "symbolList_Set uni v l =
    (let sy = upper_trimmed uni v; (base, qt, ok) = Cut sy CHR ''-''
     in if \<not> ok \<or> base = [] \<or> qt = [] \<or> CHR ''-'' \<in> set qt then Inl (NotAPair v)
        else if sy \<in> set l then Inl (GivenTwice sy)
        else Inr (l @ [sy]))"

fun comma_names :: "Symbol list \<Rightarrow> bytes" where
  "comma_names [] = []"
| "comma_names [x] = x"
| "comma_names (x # y # ys) = x @ CHR '','' # comma_names (y # ys)"

definition symbolList_String :: "Symbol list \<Rightarrow> bytes" where
  "symbolList_String l = comma_names l"

section \<open>The figures of the main loop\<close>

definition millisecond :: int where
  "millisecond = 1000000"

definition microsecond :: int where
  "microsecond = 1000"

definition tickToBookBounds :: "int list" where
  "tickToBookBounds = map (\<lambda>n. n * millisecond) [1, 2, 5, 10, 25, 50, 100, 250, 500, 1000, 2000, 5000]"

definition decodeBounds :: "int list" where
  "decodeBounds = map (\<lambda>n. n * microsecond) [1, 2, 5, 10, 25, 50, 100, 250, 500, 1000, 5000]"

definition resyncBounds :: "int list" where
  "resyncBounds = map (\<lambda>n. n * millisecond) [10, 25, 50, 100, 250, 500, 1000, 2500, 5000, 10000]"

text \<open>
  The histograms of the book stage are filled by the shards, which keep their observations; \<open>in_decode\<close>
  is filled by the loop.
\<close>

record instruments_t =
  in_frames :: u64
  in_decodeErrs :: u64
  in_routeErrs :: u64
  in_checks :: u64
  in_divergences :: u64
  in_skewed :: u64
  in_decode :: Histogram

definition newInstruments :: instruments_t where
  "newInstruments = \<lparr>in_frames = 0, in_decodeErrs = 0, in_routeErrs = 0, in_checks = 0, in_divergences = 0, in_skewed = 0,
     in_decode = NewHistogram ''market_stream_decode_seconds'' ''Time to decode one frame into an event.'' decodeBounds\<rparr>"

definition stage_observations :: "(shard \<Rightarrow> int list option) \<Rightarrow> Router \<Rightarrow> int list" where
  "stage_observations f r = concat (map (\<lambda>s. case f s of None \<Rightarrow> [] | Some ds \<Rightarrow> ds) (shards r))"

definition tickToBook_histogram :: "Router \<Rightarrow> Histogram" where
  "tickToBook_histogram r = observed (NewHistogram ''market_stream_tick_to_book_seconds''
     ''Venue event time to the moment a book applied the event.'' tickToBookBounds) (stage_observations tickToBook r)"

definition resync_histogram :: "Router \<Rightarrow> Histogram" where
  "resync_histogram r = observed (NewHistogram ''market_stream_resync_seconds''
     ''Time from a book asking for a snapshot to one anchoring it.'' resyncBounds) (stage_observations resync r)"

section \<open>One turn of the loop\<close>

record ingest_st =
  ig_inst :: instruments_t
  ig_recorder :: "Recorder option"
  ig_router :: Router
  ig_pub :: Publisher
  ig_pending :: "Event option"

text \<open>A frame is counted and recorded before it is decoded; \<open>took\<close> is how long decoding took.\<close>

definition ingest_frame :: "(Frame \<Rightarrow> decode_error + Event) \<Rightarrow> int \<Rightarrow> Frame \<Rightarrow> ingest_st \<Rightarrow> ingest_st" where
  "ingest_frame dec took f st =
    (let i = (ig_inst st)\<lparr>in_frames := in_frames (ig_inst st) + 1, in_decode := Observe took (in_decode (ig_inst st))\<rparr>;
         st = st\<lparr>ig_recorder := map_option (\<lambda>r. Recorder_Frame r f) (ig_recorder st)\<rparr>
     in case dec f of
          Inl e \<Rightarrow> st\<lparr>ig_inst := i\<lparr>in_decodeErrs := in_decodeErrs i + 1\<rparr>\<rparr>
        | Inr ev \<Rightarrow> st\<lparr>ig_inst := i, ig_pending := Some ev\<rparr>)"

text \<open>\<open>Route\<close>, then \<open>Publish\<close>; \<open>Inr None\<close> while \<open>Route\<close> waits, \<open>Inl\<close> ends \<open>run\<close>.\<close>

definition ingest_route :: "bytes option \<Rightarrow> Event \<Rightarrow> ingest_st \<Rightarrow> (ingest_st \<times> route_error) + ingest_st option" where
  "ingest_route cx ev st =
    (case Route cx ev (ig_router st) of
       Inl e \<Rightarrow> Inl (st\<lparr>ig_inst := (ig_inst st)\<lparr>in_routeErrs := in_routeErrs (ig_inst st) + 1\<rparr>, ig_pending := None\<rparr>, e)
     | Inr None \<Rightarrow> Inr None
     | Inr (Some r) \<Rightarrow> Inr (Some (st\<lparr>ig_router := r, ig_pub := Publish ev (ig_pub st), ig_pending := None\<rparr>)))"

section \<open>The start of run\<close>

datatype ingest_error =
    MetaFetch fetch_error
  | MetaParse info_error
  | BadURL stream_error
  | BadRecorder recorder_error
  | BadPublisher publisher_error
  | BadRouter router_error

definition frameCap :: nat where
  "frameCap = 4096"

definition shardQueueCap :: int where
  "shardQueueCap = 4096"

definition subCap :: int where
  "subCap = 1024"

record ingest_config =
  ic_symbols :: "Symbol list"
  ic_endpoint :: bytes
  ic_restEndpoint :: bytes
  ic_shards :: int
  ic_recording :: "(bool \<times> (int \<rightharpoonup> bytes)) option"

definition start_recorder :: "ingest_config \<Rightarrow> bytes \<Rightarrow> recorder_error + Recorder option" where
  "start_recorder cfg meta =
    (case ic_recording cfg of
       None \<Rightarrow> Inr None
     | Some (mkdir_ok, disk) \<Rightarrow>
        (case NewRecorder mkdir_ok meta 0 disk of
           Inl e \<Rightarrow> Inl e
         | Inr r \<Rightarrow> (case Recorder_Start r of Inl e \<Rightarrow> Inl e | Inr r' \<Rightarrow> Inr (Some r'))))"

definition start_publisher :: "publisher_error + Publisher" where
  "start_publisher = (case Subscribe ''stdout-log'' subCap NewPublisher of Inl e \<Rightarrow> Inl e | Inr p \<Rightarrow> Publisher_Start p)"

definition ingest_router_config :: "ingest_config \<Rightarrow> RouterConfig" where
  "ingest_router_config cfg = \<lparr>Shards = ic_shards cfg, QueueCap = shardQueueCap, BufferCap = 0, has_Snapshots = True,
     RetryDelay = 0, has_TickToBook = True, has_Resync = True\<rparr>"

definition ingest_setup ::
  "http_get \<Rightarrow> (bytes list \<Rightarrow> bytes) \<Rightarrow> (bytes \<Rightarrow> bytes + symbol_info list) \<Rightarrow> int \<Rightarrow> ingest_config
    \<Rightarrow> ingest_error + InstrumentCache \<times> bytes \<times> DepthClient \<times> ingest_st" where
  "ingest_setup http marshal un_info numCPU cfg =
    (case FetchExchangeInfoRaw http marshal (ic_restEndpoint cfg) (ic_symbols cfg) of
       Inl e \<Rightarrow> Inl (MetaFetch e)
     | Inr meta \<Rightarrow>
    (case ParseExchangeInfo un_info meta of
       Inl e \<Rightarrow> Inl (MetaParse e)
     | Inr cache \<Rightarrow>
    (case CombinedStreamURL (ic_endpoint cfg) cache (ic_symbols cfg) of
       Inl e \<Rightarrow> Inl (BadURL e)
     | Inr url \<Rightarrow>
    (case start_recorder cfg meta of
       Inl e \<Rightarrow> Inl (BadRecorder e)
     | Inr rec \<Rightarrow>
    (case start_publisher of
       Inl e \<Rightarrow> Inl (BadPublisher e)
     | Inr p \<Rightarrow>
    (case NewRouter numCPU (ingest_router_config cfg) of
       Inl e \<Rightarrow> Inl (BadRouter e)
     | Inr r \<Rightarrow>
    (case Router_Start r of
       Inl e \<Rightarrow> Inl (BadRouter e)
     | Inr r' \<Rightarrow>
       Inr (cache, url, NewDepthClient (ic_restEndpoint cfg) cache 0,
         \<lparr>ig_inst = newInstruments, ig_recorder = rec, ig_router = r', ig_pub = p, ig_pending = None\<rparr>))))))))"

section \<open>The checker\<close>

text \<open>One check: what the depth client answered, and the comparison on the owning shard.\<close>

definition checkOne :: "ask_ctx \<Rightarrow> 'e + Snapshot \<Rightarrow> Router \<Rightarrow> instruments_t \<Rightarrow> Router \<times> instruments_t" where
  "checkOne cx fetched r i =
    (case fetched of
       Inl e \<Rightarrow> (r, i)
     | Inr snap \<Rightarrow>
        (case Check cx snap r of
           (r', Inl e) \<Rightarrow> (r', i)
         | (r', Inr (View v)) \<Rightarrow> (r', i)
         | (r', Inr (Checked d)) \<Rightarrow>
            if \<not> diff_Live d then (r', i)
            else let i = i\<lparr>in_checks := in_checks i + 1\<rparr>
              in if OK d then (r', i)
                 else if IDSkew d \<noteq> 0 then (r', i\<lparr>in_skewed := in_skewed i + 1\<rparr>)
                 else (r', i\<lparr>in_divergences := in_divergences i + 1\<rparr>)))"

text \<open>
  One tick of \<open>runChecker\<close>: a check per symbol, until \<open>ctx.Err()\<close> is found set (\<open>ended\<close>); whether the
  loop goes on. \<open>runChecker\<close> is given the ticks that come before the context ends. Between two checks
  the other goroutines run; what a pass does when they do not is \<open>check_pass\<close>.
\<close>

fun check_pass ::
  "(Symbol \<Rightarrow> bool) \<Rightarrow> (Symbol \<Rightarrow> ask_ctx) \<Rightarrow> (Symbol \<Rightarrow> 'e + Snapshot) \<Rightarrow> Symbol list \<Rightarrow> Router \<Rightarrow> instruments_t
    \<Rightarrow> Router \<times> instruments_t \<times> bool" where
  "check_pass ended cx fetched [] r i = (r, i, True)"
| "check_pass ended cx fetched (sy # sys) r i =
    (if ended sy then (r, i, False)
     else case checkOne (cx sy) (fetched sy) r i of (r', i') \<Rightarrow> check_pass ended cx fetched sys r' i')"

fun runChecker ::
  "((Symbol \<Rightarrow> bool) \<times> (Symbol \<Rightarrow> ask_ctx) \<times> (Symbol \<Rightarrow> 'e + Snapshot)) list \<Rightarrow> Symbol list \<Rightarrow> Router \<Rightarrow> instruments_t
    \<Rightarrow> Router \<times> instruments_t" where
  "runChecker [] symbols r i = (r, i)"
| "runChecker ((ended, cx, fetched) # ticks) symbols r i =
    (case check_pass ended cx fetched symbols r i of
       (r', i', True) \<Rightarrow> runChecker ticks symbols r' i'
     | (r', i', False) \<Rightarrow> (r', i'))"

section \<open>The exposition\<close>

definition prom_counter :: "bytes \<Rightarrow> bytes \<Rightarrow> u64 \<Rightarrow> bytes" where
  "prom_counter name help v =
    ''# HELP '' @ name @ '' '' @ help @ newline @ ''# TYPE '' @ name @ '' counter'' @ newline @ name @ '' '' @ FormatUint v @ newline"

definition loop_counters :: "Router \<Rightarrow> u64 option \<Rightarrow> instruments_t \<Rightarrow> bytes" where
  "loop_counters r recon i =
    (let st = Router_Stats r
     in prom_counter ''market_stream_frames_total'' ''Websocket frames received.'' (in_frames i)
      @ prom_counter ''market_stream_decode_errors_total'' ''Frames that failed to decode.'' (in_decodeErrs i)
      @ prom_counter ''market_stream_route_errors_total'' ''Events that could not be handed to a shard.'' (in_routeErrs i)
      @ prom_counter ''market_stream_events_total'' ''Events handled by the book stage.'' (rs_Events st)
      @ prom_counter ''market_stream_deltas_applied_total'' ''Deltas applied to a book.'' (rs_Applied st)
      @ prom_counter ''market_stream_deltas_discarded_total'' ''Events already reflected in a book.'' (rs_Discarded st)
      @ prom_counter ''market_stream_deltas_buffered_total'' ''Deltas held during a resync.'' (rs_Buffered st)
      @ prom_counter ''market_stream_gaps_total'' ''Holes detected in an update id sequence.'' (rs_Gaps st)
      @ prom_counter ''market_stream_snapshots_total'' ''Snapshots that anchored a book.'' (rs_Snapshots st)
      @ prom_counter ''market_stream_refetches_total'' ''Snapshots that landed too old to anchor a book.'' (rs_Refetches st)
      @ prom_counter ''market_stream_fetch_failures_total'' ''Snapshot requests that returned an error.'' (rs_FetchFails st)
      @ prom_counter ''market_stream_book_errors_total'' ''Events a book refused.'' (rs_Errors st)
      @ prom_counter ''market_stream_queries_total'' ''Book reads answered.'' (rs_Queries st)
      @ (case recon of
           None \<Rightarrow> []
         | Some n \<Rightarrow> prom_counter ''market_stream_reconnects_total'' ''Websocket connections after the first.'' n)
      @ prom_counter ''market_stream_checks_total'' ''Books compared against a fresh snapshot.'' (in_checks i)
      @ prom_counter ''market_stream_check_divergences_total''
          ''Comparisons that disagreed with the venue at the same update id. Any is a defect.'' (in_divergences i)
      @ prom_counter ''market_stream_check_skewed_total''
          ''Comparisons that disagreed while the snapshot and the book were a few updates apart. Expected.'' (in_skewed i))"

definition recorder_counters :: "Recorder option \<Rightarrow> bytes" where
  "recorder_counters rc =
    (case rc of
       None \<Rightarrow> []
     | Some r \<Rightarrow>
        let rst = Recorder_Stats r
        in prom_counter ''market_stream_recorded_total'' ''Records written to disk.'' (rst_Written rst)
           @ prom_counter ''market_stream_record_dropped_total'' ''Frames lost because the recorder queue was full.'' (rst_Dropped rst)
           @ prom_counter ''market_stream_record_files_total'' ''Recording files opened.'' (rst_Files rst))"

definition queue_gauge :: "Router \<Rightarrow> bytes" where
  "queue_gauge r =
    ''# HELP market_stream_shard_queue_depth Events waiting in a shard queue.'' @ newline
    @ ''# TYPE market_stream_shard_queue_depth gauge'' @ newline
    @ concat (map (\<lambda>(i, depth). ''market_stream_shard_queue_depth{shard='' @ dquote @ FormatInt (int i) @ dquote @ ''} ''
        @ FormatInt depth @ newline) (enumerate 0 (QueueDepth r)))"

text \<open>\<open>%q\<close> of a name is the parameter \<open>fmt_q\<close>.\<close>

definition dropped_counters :: "(bytes \<Rightarrow> bytes) \<Rightarrow> Publisher \<Rightarrow> bytes" where
  "dropped_counters fmt_q p =
    ''# HELP market_stream_subscriber_dropped_total Events dropped for a slow subscriber.'' @ newline
    @ ''# TYPE market_stream_subscriber_dropped_total counter'' @ newline
    @ concat (map (\<lambda>name. ''market_stream_subscriber_dropped_total{subscriber='' @ fmt_q name @ ''} ''
        @ FormatUint (the (Dropped p name)) @ newline) (sort (remdups (map sub_name (subs p)))))"

definition writeMetrics ::
  "prom_floats \<Rightarrow> (bytes \<Rightarrow> bytes) \<Rightarrow> Router \<Rightarrow> Publisher \<Rightarrow> Recorder option \<Rightarrow> u64 option \<Rightarrow> instruments_t \<Rightarrow> bytes" where
  "writeMetrics fl fmt_q r p rc recon i =
    loop_counters r recon i @ recorder_counters rc @ queue_gauge r
    @ WriteProm fl (tickToBook_histogram r) [] @ WriteProm fl (in_decode i) [] @ WriteProm fl (resync_histogram r) []
    @ dropped_counters fmt_q p"

section \<open>Every interleaving of the daemon\<close>

text \<open>
  The frames taken, the events published, the events the shards handled, and the state. The loop takes
  a frame or finishes routing one; the shards handle events, take results and answer queries; the
  checker compares; the recorder is given snapshots by the tee and its writer takes entries; the
  subscribers receive. \<open>S\<close> says what snapshots the depth client may return for a symbol.
\<close>

definition receive :: "nat \<Rightarrow> Publisher \<Rightarrow> Publisher" where
  "receive j p = p\<lparr>subs := (subs p)[j := delivery_turn (subs p ! j)]\<rparr>"

inductive ingest_run ::
  "int \<Rightarrow> ingest_config \<Rightarrow> rec_io \<Rightarrow> (Frame \<Rightarrow> decode_error + Event) \<Rightarrow> (Symbol \<Rightarrow> Snapshot \<Rightarrow> bool)
    \<Rightarrow> Frame list \<Rightarrow> Event list \<Rightarrow> Event list \<Rightarrow> ingest_st \<Rightarrow> bool"
  for numCPU cfg io dec S where
  ig_new: "ingest_setup http marshal un_info numCPU cfg = Inr (cache, url, client, st) \<Longrightarrow> dec = Decode un_trade un_depth cache \<Longrightarrow>
    0 < numCPU \<Longrightarrow> in_i64 numCPU \<Longrightarrow> in_i64 (ic_shards cfg) \<Longrightarrow> ingest_run numCPU cfg io dec S [] [] [] st"
| ig_frame: "ingest_run numCPU cfg io dec S fr pb dn st \<Longrightarrow> ig_pending st = None \<Longrightarrow>
    ingest_run numCPU cfg io dec S (fr @ [f]) pb dn (ingest_frame dec took f st)"
| ig_route: "ingest_run numCPU cfg io dec S fr pb dn st \<Longrightarrow> ig_pending st = Some ev \<Longrightarrow> ingest_route cx ev st = Inr (Some st') \<Longrightarrow>
    ingest_run numCPU cfg io dec S fr (pb @ [ev]) dn st'"
| ig_event: "ingest_run numCPU cfg io dec S fr pb dn st \<Longrightarrow> i < length (shards (ig_router st)) \<Longrightarrow>
    \<not> quit (shards (ig_router st) ! i) \<Longrightarrow> inq (shards (ig_router st) ! i) = ev # rest \<Longrightarrow>
    ingest_run numCPU cfg io dec S fr pb (dn @ [ev]) (st\<lparr>ig_router := update_shard (ig_router st) i (\<lambda>s. handle now ev (s\<lparr>inq := rest\<rparr>))\<rparr>)"
| ig_result: "ingest_run numCPU cfg io dec S fr pb dn st \<Longrightarrow> i < length (shards (ig_router st)) \<Longrightarrow> \<not> quit (shards (ig_router st) ! i) \<Longrightarrow>
    res_symbol res \<in> set (inflight (shards (ig_router st) ! i)) \<Longrightarrow>
    (\<And>snap. res_snapshot res = Inr snap \<Longrightarrow> S (res_symbol res) snap) \<Longrightarrow>
    ingest_run numCPU cfg io dec S fr pb dn (st\<lparr>ig_router := update_shard (ig_router st) i (deliver now res)\<rparr>)"
| ig_query: "ingest_run numCPU cfg io dec S fr pb dn st \<Longrightarrow>
    ingest_run numCPU cfg io dec S fr pb dn (st\<lparr>ig_router := fst (ask cx q (ig_router st))\<rparr>)"
| ig_check: "ingest_run numCPU cfg io dec S fr pb dn st \<Longrightarrow> (\<And>snap. fetched = Inr snap \<Longrightarrow> S (snap_Symbol snap) snap) \<Longrightarrow>
    checkOne cx (fetched :: depth_error + Snapshot) (ig_router st) (ig_inst st) = (r', i') \<Longrightarrow>
    ingest_run numCPU cfg io dec S fr pb dn (st\<lparr>ig_router := r', ig_inst := i'\<rparr>)"
| ig_tee: "ingest_run numCPU cfg io dec S fr pb dn st \<Longrightarrow> ig_recorder st = Some rc \<Longrightarrow>
    ingest_run numCPU cfg io dec S fr pb dn (st\<lparr>ig_recorder := Some (fst (snapshotTee_Snapshot (inner :: Symbol \<Rightarrow> depth_error + Snapshot) now sy rc))\<rparr>)"
| ig_write: "ingest_run numCPU cfg io dec S fr pb dn st \<Longrightarrow> ig_recorder st = Some rc \<Longrightarrow>
    ingest_run numCPU cfg io dec S fr pb dn (st\<lparr>ig_recorder := Some (run_step io rc)\<rparr>)"
| ig_receive: "ingest_run numCPU cfg io dec S fr pb dn st \<Longrightarrow>
    ingest_run numCPU cfg io dec S fr pb dn (st\<lparr>ig_pub := receive j (ig_pub st)\<rparr>)"

section \<open>The flag\<close>

text \<open>A BASE-QUOTE pair: two non-empty names around the only dash.\<close>

definition is_pair :: "Symbol \<Rightarrow> bool" where
  "is_pair sy \<longleftrightarrow> (\<exists>base qt. sy = base @ CHR ''-'' # qt \<and> base \<noteq> [] \<and> qt \<noteq> [] \<and> CHR ''-'' \<notin> set base \<and> CHR ''-'' \<notin> set qt)"

lemma Cut_found: "Cut s c = (b, q, True) \<longleftrightarrow> s = b @ c # q \<and> c \<notin> set b"
proof (induction s arbitrary: b)
  case (Cons a s)
  show ?case
  proof (cases "a = c")
    case False
    obtain x y f where x: "Cut s c = (x, y, f)" by (metis prod_cases3)
    show ?thesis
    proof (cases b)
      case (Cons a' b')
      then show ?thesis using Cons.IH [of b'] False x by auto
    qed (use False x in auto)
  qed (cases b; auto)
qed auto

lemma symbolList_Set_eq:
  "symbolList_Set uni v l = Inr l' \<longleftrightarrow> is_pair (upper_trimmed uni v) \<and> upper_trimmed uni v \<notin> set l \<and> l' = l @ [upper_trimmed uni v]"
proof -
  obtain b q ok where c: "Cut (upper_trimmed uni v) CHR ''-'' = (b, q, ok)" by (metis prod_cases3)
  have "is_pair (upper_trimmed uni v) \<longleftrightarrow> ok \<and> b \<noteq> [] \<and> q \<noteq> [] \<and> CHR ''-'' \<notin> set q"
  proof
    assume "is_pair (upper_trimmed uni v)"
    then obtain b' q' where "Cut (upper_trimmed uni v) CHR ''-'' = (b', q', True)" "b' \<noteq> []" "q' \<noteq> []" "CHR ''-'' \<notin> set q'"
      unfolding is_pair_def Cut_found by blast
    with c show "ok \<and> b \<noteq> [] \<and> q \<noteq> [] \<and> CHR ''-'' \<notin> set q" by simp
  next
    assume "ok \<and> b \<noteq> [] \<and> q \<noteq> [] \<and> CHR ''-'' \<notin> set q"
    with c Cut_found [of "upper_trimmed uni v" "CHR ''-''" b q] show "is_pair (upper_trimmed uni v)" by (auto simp: is_pair_def)
  qed
  then show ?thesis by (auto simp: symbolList_Set_def Let_def c)
qed

section \<open>The loop and the stage\<close>

lemma Check_router: "fst (Check cx snap r) = fst (ask cx \<lparr>q_symbol = snap_Symbol snap, q_depth = 0, q_check = Some snap\<rparr> r)"
  by (simp add: Check_def)

lemma checkOne_cases:
  assumes "checkOne cx fetched r i = (r', i')"
  obtains "r' = r" "i' = i"
  | q where "r' = fst (ask cx q r)" "in_frames i' = in_frames i" "in_decodeErrs i' = in_decodeErrs i" "in_routeErrs i' = in_routeErrs i"
proof (cases fetched)
  case (Inr snap)
  let ?q = "\<lparr>q_symbol = snap_Symbol snap, q_depth = 0, q_check = Some snap\<rparr>"
  obtain r1 a where c: "Check cx snap r = (r1, a)" by fastforce
  then have "r1 = fst (ask cx ?q r)" using Check_router [of cx snap r] by simp
  with assms c Inr show ?thesis
    by (intro that(2) [of ?q]) (auto simp: checkOne_def Let_def split: sum.splits reply.splits if_splits)
qed (use assms that(1) in \<open>simp add: checkOne_def\<close>)

definition pending_events :: "ingest_st \<Rightarrow> Event list" where
  "pending_events st = (case ig_pending st of None \<Rightarrow> [] | Some ev \<Rightarrow> [ev])"

definition ingest_ok ::
  "int \<Rightarrow> ingest_config \<Rightarrow> (Frame \<Rightarrow> decode_error + Event) \<Rightarrow> (Symbol \<Rightarrow> BookDelta \<Rightarrow> bool) \<Rightarrow> (Symbol \<Rightarrow> Snapshot \<Rightarrow> bool)
    \<Rightarrow> Frame list \<Rightarrow> Event list \<Rightarrow> Event list \<Rightarrow> ingest_st \<Rightarrow> bool" where
  "ingest_ok numCPU cfg dec D S fr pb dn st \<longleftrightarrow>
    router_run numCPU (ingest_router_config cfg) True D S pb dn (ig_router st) \<and> open_router (ig_router st)
    \<and> decoded dec fr = pb @ pending_events st
    \<and> in_frames (ig_inst st) = of_nat (length fr)
    \<and> in_decodeErrs (ig_inst st) = of_nat (length (filter (\<lambda>f. \<not> is_ok (dec f)) fr))
    \<and> in_routeErrs (ig_inst st) = 0"

lemma ingest_setup_router:
  assumes "ingest_setup http marshal un_info numCPU cfg = Inr (cache, url, client, st)"
  shows "\<exists>r. NewRouter numCPU (ingest_router_config cfg) = Inr r \<and> Router_Start r = Inr (ig_router st)"
    and "ig_inst st = newInstruments" and "ig_pending st = None"
  using assms by (auto simp: ingest_setup_def split: sum.splits)

lemma ingest_ok_new:
  assumes "ingest_setup http marshal un_info numCPU cfg = Inr (cache, url, client, st)"
    and "0 < numCPU" and "in_i64 numCPU" and "in_i64 (ic_shards cfg)"
  shows "ingest_ok numCPU cfg dec D S [] [] [] st"
proof -
  obtain r where r: "NewRouter numCPU (ingest_router_config cfg) = Inr r" "Router_Start r = Inr (ig_router st)"
    using ingest_setup_router(1) [OF assms(1)] by blast
  have "router_run numCPU (ingest_router_config cfg) True D S [] [] (ig_router st)"
    by (rule st_start [OF st_new [OF r(1) assms(2,3)] r(2)]) (simp add: ingest_router_config_def assms(4))
  moreover have "open_router (ig_router st)" by (rule open_router_start [OF r])
  ultimately show ?thesis
    using ingest_setup_router(2,3) [OF assms(1)]
    by (simp add: ingest_ok_def decoded_def pending_events_def newInstruments_def)
qed

lemma ingest_ok_frame:
  assumes "ingest_ok numCPU cfg dec D S fr pb dn st" and "ig_pending st = None"
  shows "ingest_ok numCPU cfg dec D S (fr @ [f]) pb dn (ingest_frame dec took f st)"
  using assms
  by (cases "dec f") (simp_all add: ingest_ok_def ingest_frame_def decoded_def pending_events_def Let_def)

lemma ingest_ok_route:
  assumes "ingest_ok numCPU cfg dec D S fr pb dn st" and "ig_pending st = Some ev" and "ingest_route cx ev st = Inr (Some st')"
    and "event_ok True D S ev"
  shows "ingest_ok numCPU cfg dec D S fr (pb @ [ev]) dn st'"
proof -
  obtain r where r: "Route cx ev (ig_router st) = Inr (Some r)"
    and st': "st' = st\<lparr>ig_router := r, ig_pub := Publish ev (ig_pub st), ig_pending := None\<rparr>"
    using assms(3) by (auto simp: ingest_route_def split: sum.splits option.splits)
  have "router_run numCPU (ingest_router_config cfg) True D S (pb @ [ev]) dn r"
    using assms(1) by (intro st_route [OF _ assms(4) r]) (simp add: ingest_ok_def)
  with assms(1,2) open_router_Route [OF _ r] show ?thesis by (simp add: ingest_ok_def st' pending_events_def)
qed

lemma ingest_ok_router:
  assumes "ingest_ok numCPU cfg dec D S fr pb dn st" and "router_run numCPU (ingest_router_config cfg) True D S pb dn' r'" and "open_router r'"
  shows "ingest_ok numCPU cfg dec D S fr pb dn' (st\<lparr>ig_router := r'\<rparr>)"
  using assms by (simp add: ingest_ok_def pending_events_def)

text \<open>What a run may be given: deltas \<open>D\<close> allows, for the frames taken.\<close>

definition deltas_ok :: "(Frame \<Rightarrow> decode_error + Event) \<Rightarrow> (Symbol \<Rightarrow> BookDelta \<Rightarrow> bool) \<Rightarrow> Frame list \<Rightarrow> bool" where
  "deltas_ok dec D fr \<longleftrightarrow> (\<forall>ev\<in>set (decoded dec fr). Kind ev = KindBookDelta \<longrightarrow> D (delta_Symbol (ev_BookDelta ev)) (ev_BookDelta ev))"

lemma deltas_ok_snoc: "deltas_ok dec D (fr @ [f]) \<Longrightarrow> deltas_ok dec D fr"
  by (simp add: deltas_ok_def decoded_def)

lemma ingest_run_decoder: "ingest_run numCPU cfg io dec S fr pb dn st \<Longrightarrow> \<exists>ut ud cache. dec = Decode ut ud cache"
  by (induction rule: ingest_run.induct) blast+

lemma decoded_kind:
  assumes "dec = Decode ut ud cache" and "ev \<in> set (decoded dec fr)"
  shows "Kind ev = KindTrade \<or> Kind ev = KindBookDelta"
proof -
  obtain f where "dec f = Inr ev" using assms(2) by (auto simp: decoded_def split: sum.splits)
  then show ?thesis using Decode_kind [of ut ud cache f ev] assms(1) by simp
qed

lemma ingest_run_ok:
  assumes "ingest_run numCPU cfg io dec S fr pb dn st" and "deltas_ok dec D fr"
  shows "ingest_ok numCPU cfg dec D S fr pb dn st"
  using assms
proof induction
  case (ig_new http marshal un_info cache url client st un_trade un_depth)
  then show ?case by (intro ingest_ok_new)
next
  case (ig_frame fr pb dn st f took)
  then show ?case by (intro ingest_ok_frame) (simp_all add: deltas_ok_snoc)
next
  case (ig_route fr pb dn st ev cx st')
  then have ok: "ingest_ok numCPU cfg dec D S fr pb dn st" by blast
  then have "ev \<in> set (decoded dec fr)" using ig_route(2) by (simp add: ingest_ok_def pending_events_def)
  moreover obtain ut ud cache where "dec = Decode ut ud cache" using ingest_run_decoder [OF ig_route(1)] by blast
  ultimately have "event_ok True D S ev"
    using decoded_kind [of dec ut ud cache ev fr] ig_route.prems by (auto simp: event_ok_def deltas_ok_def)
  then show ?case by (rule ingest_ok_route [OF ok ig_route(2,3)])
next
  case (ig_event fr pb dn st i ev rest now)
  then have ok: "ingest_ok numCPU cfg dec D S fr pb dn st" by blast
  show ?case
  proof (rule ingest_ok_router [OF ok])
    show "router_run numCPU (ingest_router_config cfg) True D S pb (dn @ [ev]) (update_shard (ig_router st) i (\<lambda>s. handle now ev (s\<lparr>inq := rest\<rparr>)))"
      using ok ig_event(2-4) by (intro st_event) (auto simp: ingest_ok_def open_router_def)
  qed (use ok in \<open>auto simp: ingest_ok_def intro: open_router_update\<close>)
next
  case (ig_result fr pb dn st i res now)
  then have ok: "ingest_ok numCPU cfg dec D S fr pb dn st" by blast
  show ?case
  proof (rule ingest_ok_router [OF ok])
    show "router_run numCPU (ingest_router_config cfg) True D S pb dn (update_shard (ig_router st) i (deliver now res))"
      using ok ig_result(2-5) by (intro st_result) (auto simp: ingest_ok_def)
  qed (use ok in \<open>auto simp: ingest_ok_def intro: open_router_update\<close>)
next
  case (ig_query fr pb dn st cx q)
  then have ok: "ingest_ok numCPU cfg dec D S fr pb dn st" by blast
  show ?case
    by (rule ingest_ok_router [OF ok])
       (use ok in \<open>auto simp: ingest_ok_def open_router_def [of "ig_router st"] intro!: st_query open_router_ask\<close>)
next
  case (ig_check fr pb dn st fetched cx r' i')
  then have ok: "ingest_ok numCPU cfg dec D S fr pb dn st" by blast
  from ig_check(3) show ?case
  proof (cases rule: checkOne_cases)
    case (2 q)
    have "router_run numCPU (ingest_router_config cfg) True D S pb dn r'" "open_router r'"
      using ok unfolding 2(1) by (auto simp: ingest_ok_def open_router_def [of "ig_router st"] intro!: st_query open_router_ask)
    with ok 2 show ?thesis by (simp add: ingest_ok_def pending_events_def)
  qed (use ok in simp)
qed (simp_all add: ingest_ok_def pending_events_def)

text \<open>The one subscriber, against the events published.\<close>

lemma ingest_run_subscriber:
  assumes "ingest_run numCPU cfg io dec S fr pb dn st"
  shows "\<exists>s. subs (ig_pub st) = [s] \<and> sub_name s = ''stdout-log'' \<and> ch_cap s = nat subCap \<and> delivered pb s"
  using assms
proof induction
  case (ig_new http marshal un_info cache url client st un_trade un_depth)
  then have "start_publisher = Inr (ig_pub st)" by (auto simp: ingest_setup_def split: sum.splits)
  then have "ig_pub st = \<lparr>subs = [\<lparr>sub_name = ''stdout-log'', ch = [], ch_cap = 1024, ch_closed = False, dropped = 0, consumed = []\<rparr>],
      pub_started = True, pub_closeOnce = False\<rparr>"
    by (simp add: start_publisher_def Subscribe_def NewPublisher_def Publisher_Start_def subCap_def)
  then show ?case by (simp add: delivered_def sub_ok_def subCap_def)
next
  case (ig_frame fr pb dn st f took)
  then show ?case by (simp add: ingest_frame_def Let_def split: sum.split)
next
  case (ig_route fr pb dn st ev cx st')
  then have "ig_pub st' = Publish ev (ig_pub st)" by (auto simp: ingest_route_def split: sum.splits option.splits)
  moreover obtain s where s: "subs (ig_pub st) = [s]" "sub_name s = ''stdout-log''" "ch_cap s = nat subCap" "delivered pb s"
    using ig_route.IH by blast
  moreover have "sub_ok s" using s(4) by (simp add: delivered_def)
  ultimately show ?case using delivered_publish [OF s(4), of ev] channel.cap_push [of s ev] by (simp add: Publish_def)
next
  case (ig_receive fr pb dn st j)
  then obtain s where s: "subs (ig_pub st) = [s]" "sub_name s = ''stdout-log''" "ch_cap s = nat subCap" "delivered pb s" by blast
  moreover have "sub_name (delivery_turn s) = sub_name s \<and> ch_cap (delivery_turn s) = ch_cap s"
    by (simp add: delivery_turn_def split: list.split)
  ultimately show ?case using delivered_turn [OF s(4)] by (cases j) (simp_all add: receive_def)
qed simp_all

text \<open>A pass of the checker, and all of them, are steps of the daemon.\<close>

lemma check_pass_run:
  assumes "ingest_run numCPU cfg io dec S fr pb dn st"
    and "\<And>sy snap. fetched sy = Inr snap \<Longrightarrow> S (snap_Symbol snap) snap"
    and "check_pass ended cx (fetched :: Symbol \<Rightarrow> depth_error + Snapshot) sys (ig_router st) (ig_inst st) = (r', i', b)"
  shows "ingest_run numCPU cfg io dec S fr pb dn (st\<lparr>ig_router := r', ig_inst := i'\<rparr>)"
  using assms(1,3)
proof (induction sys arbitrary: st)
  case (Cons sy sys)
  show ?case
  proof (cases "ended sy")
    case False
    obtain r1 i1 where c: "checkOne (cx sy) (fetched sy) (ig_router st) (ig_inst st) = (r1, i1)" by fastforce
    have "ingest_run numCPU cfg io dec S fr pb dn (st\<lparr>ig_router := r1, ig_inst := i1\<rparr>)"
      by (rule ig_check [OF Cons.prems(1) _ c]) (rule assms(2))
    from Cons.IH [OF this] Cons.prems(2) False c show ?thesis by simp
  qed (use Cons.prems in auto)
qed auto

lemma runChecker_run:
  assumes "ingest_run numCPU cfg io dec S fr pb dn st"
    and "\<And>ended cx fetched sy snap. (ended, cx, fetched) \<in> set ticks \<Longrightarrow> fetched sy = Inr snap \<Longrightarrow> S (snap_Symbol snap) snap"
    and "runChecker (ticks :: ((Symbol \<Rightarrow> bool) \<times> (Symbol \<Rightarrow> ask_ctx) \<times> (Symbol \<Rightarrow> depth_error + Snapshot)) list) sys (ig_router st) (ig_inst st) = (r', i')"
  shows "ingest_run numCPU cfg io dec S fr pb dn (st\<lparr>ig_router := r', ig_inst := i'\<rparr>)"
  using assms
proof (induction ticks arbitrary: st)
  case (Cons t ticks)
  obtain ended cx fetched where t: "t = (ended, cx, fetched)" by (cases t)
  obtain r1 i1 b where c: "check_pass ended cx fetched sys (ig_router st) (ig_inst st) = (r1, i1, b)" by (metis prod_cases3)
  have run: "ingest_run numCPU cfg io dec S fr pb dn (st\<lparr>ig_router := r1, ig_inst := i1\<rparr>)"
    by (rule check_pass_run [OF Cons.prems(1) _ c]) (rule Cons.prems(2) [of ended cx fetched]; simp add: t)
  show ?case
  proof (cases b)
    case True
    then have "runChecker ticks sys r1 i1 = (r', i')" using Cons.prems(3) c by (simp add: t)
    moreover have "S (snap_Symbol snap) snap" if "(ended, cx, fetched) \<in> set ticks" "fetched sy = Inr snap" for ended cx fetched sy snap
      by (rule Cons.prems(2) [of ended cx fetched sy]) (use that in simp_all)
    ultimately show ?thesis using Cons.IH [OF run] by simp
  next
    case False
    then show ?thesis using Cons.prems(3) c run by (simp add: t)
  qed
qed auto

section \<open>Checks against a faithful venue\<close>

text \<open>A snapshot an exchange lists: faithful, with positive prices and quantities.\<close>

definition venue_snapshot :: "venue_side \<Rightarrow> venue_side \<Rightarrow> Snapshot \<Rightarrow> bool" where
  "venue_snapshot vb va s \<longleftrightarrow> snap_faithful vb va s \<and> (\<forall>l\<in>set (snap_Bids s) \<union> set (snap_Asks s). 0 < Price l \<and> 0 < Qty l)"

lemma Check_Checked:
  assumes "serving r" and "Check cx snap r = (r', Inr (Checked d))"
  shows "\<exists>t. book_of r (snap_Symbol snap) = Some t \<and> Tracker_Compare t snap = Inr d"
  using assms by (auto simp: Check_def ask_def answer_def book_of_def Let_def split: if_splits option.splits sum.splits)

lemma checkOne_divergences:
  assumes "ingest_ok numCPU cfg dec (\<lambda>sy. delta_faithful (vb sy) (va sy)) (\<lambda>sy. venue_snapshot (vb sy) (va sy)) fr pb dn st"
    and "\<And>snap. fetched = Inr snap \<Longrightarrow> venue_snapshot (vb (snap_Symbol snap)) (va (snap_Symbol snap)) snap"
  shows "in_divergences (snd (checkOne cx fetched (ig_router st) (ig_inst st))) = in_divergences (ig_inst st)"
proof (cases "\<exists>snap r' d. fetched = Inr snap \<and> Check cx snap (ig_router st) = (r', Inr (Checked d)) \<and> diff_Live d \<and> IDSkew d = 0")
  case True
  then obtain snap r' d where f: "fetched = Inr snap" and c: "Check cx snap (ig_router st) = (r', Inr (Checked d))"
    and d: "diff_Live d" "IDSkew d = 0" by blast
  let ?sy = "snap_Symbol snap" and ?r = "ig_router st"
  have run: "router_run numCPU (ingest_router_config cfg) True (\<lambda>sy. delta_faithful (vb sy) (va sy)) (\<lambda>sy. venue_snapshot (vb sy) (va sy)) pb dn ?r"
    and opn: "open_router ?r" using assms(1) by (simp_all add: ingest_ok_def)
  then have srv: "serving ?r" using router_run_inv [OF run] by (simp add: serving_def router_inv_def)
  obtain t where t: "book_of ?r ?sy = Some t" "Tracker_Compare t snap = Inr d" using Check_Checked [OF srv c] by blast
  have i: "shardIndex ?sy (length (shards ?r)) < length (shards ?r)" using srv shardIndex_less by (simp add: serving_def)
  have "tracker_run (delta_faithful (vb ?sy) (va ?sy)) (venue_snapshot (vb ?sy) (va ?sy)) ?sy (BufferCap (ingest_router_config cfg)) t"
    by (rule running_slot(1) [OF run i]) (use opn i t(1) in \<open>auto simp: open_router_def book_of_def\<close>)
  then have fed: "fed (vb ?sy) (va ?sy) ?sy (BufferCap (ingest_router_config cfg)) t"
    by (rule tracker_run_mono) (simp_all add: venue_snapshot_def)
  have live: "Live t" using t(2) d(1) by (auto simp: Tracker_Compare_def Let_def split: if_splits sum.splits prod.splits)
  have "OK d"
    using Compare_zero_skew [OF fed live _ _ t(2) d(2)] assms(2) [OF f] by (simp add: venue_snapshot_def)
  with f c d show ?thesis by (simp add: checkOne_def Let_def)
next
  case False
  then show ?thesis by (auto simp: checkOne_def Let_def split: sum.split prod.split reply.split)
qed

section \<open>Properties\<close>

text \<open>
  C4. The daemon loses nothing between its socket and its books, and tells its subscriber what the books
  were given. In every interleaving of the loop with the shards, the checker, the recorder and the
  subscriber: the events routed are exactly those the frames taken decode to, in their order, but for
  one that waits for room in a queue; of each symbol the shards have handled, in that order, all but
  those still queued on the shard that owns it. The subscriber was given events in that order
  too: what it consumed and has queued is a subsequence of the events routed, ends with the last of
  them, and is short of exactly the number counted as dropped; its queue holds at most 1024. Each
  frame taken is counted once and is an event routed, a decoding error or the one waiting;
  and routing fails only with the error of an ended context, so the loop never ends by itself.
\<close>

theorem ingest_in_order:
  assumes "ingest_run numCPU cfg io dec S fr pb dn st" and "deltas_ok dec D fr"
  shows "router_run numCPU (ingest_router_config cfg) True D S pb dn (ig_router st)
    \<and> decoded dec fr = pb @ pending_events st
    \<and> (\<forall>sy. filter (\<lambda>ev. eventSymbol ev = Some sy) pb = filter (\<lambda>ev. eventSymbol ev = Some sy) dn
        @ filter (\<lambda>ev. eventSymbol ev = Some sy) (inq (shards (ig_router st) ! shardIndex sy (length (shards (ig_router st))))))
    \<and> (\<exists>s. subs (ig_pub st) = [s] \<and> sub_name s = ''stdout-log'' \<and> length (ch s) \<le> 1024
        \<and> subseq (consumed s @ ch s) pb \<and> (pb \<noteq> [] \<longrightarrow> consumed s @ ch s \<noteq> [] \<and> last (consumed s @ ch s) = last pb)
        \<and> dropped s = of_nat (length pb - length (consumed s @ ch s)))
    \<and> in_frames (ig_inst st) = of_nat (length pb) + in_decodeErrs (ig_inst st) + of_nat (length (pending_events st))
    \<and> in_frames (ig_inst st) = of_nat (length fr) \<and> in_routeErrs (ig_inst st) = 0
    \<and> (\<forall>ev cx st' e. ig_pending st = Some ev \<longrightarrow> ingest_route cx ev st = Inl (st', e) \<longrightarrow> (\<exists>c. cx = Some c \<and> e = RouteCanceled c))"
proof (intro conjI allI impI)
  have ok: "ingest_ok numCPU cfg dec D S fr pb dn st" by (rule ingest_run_ok [OF assms])
  then have run: "router_run numCPU (ingest_router_config cfg) True D S pb dn (ig_router st)" and opn: "open_router (ig_router st)"
    and d: "decoded dec fr = pb @ pending_events st"
    and n: "in_frames (ig_inst st) = of_nat (length fr)" "in_routeErrs (ig_inst st) = 0"
      "in_decodeErrs (ig_inst st) = of_nat (length (filter (\<lambda>f. \<not> is_ok (dec f)) fr))"
    by (simp_all add: ingest_ok_def)
  have "length fr = length (decoded dec fr) + length (filter (\<lambda>f. \<not> is_ok (dec f)) fr)"
    by (induction fr) (auto simp: decoded_def split: sum.split)
  then have "length fr = length pb + length (filter (\<lambda>f. \<not> is_ok (dec f)) fr) + length (pending_events st)" by (simp add: d)
  then show "in_frames (ig_inst st) = of_nat (length pb) + in_decodeErrs (ig_inst st) + of_nat (length (pending_events st))"
    unfolding n(1,3) of_nat_add [symmetric] by (rule arg_cong)
  show "router_run numCPU (ingest_router_config cfg) True D S pb dn (ig_router st)" "decoded dec fr = pb @ pending_events st"
    "in_frames (ig_inst st) = of_nat (length fr)" "in_routeErrs (ig_inst st) = 0"
    using run d n(1,2) by blast+
  obtain s where s: "subs (ig_pub st) = [s]" "sub_name s = ''stdout-log''" "ch_cap s = nat subCap" "delivered pb s"
    using ingest_run_subscriber [OF assms(1)] by blast
  have "length (consumed s @ ch s) \<le> length pb" using s(4) list_emb_length unfolding delivered_def by blast
  then have "dropped s = of_nat (length pb - length (consumed s @ ch s))"
    using s(4) by (simp add: delivered_def of_nat_diff eq_diff_eq)
  with s show "\<exists>s. subs (ig_pub st) = [s] \<and> sub_name s = ''stdout-log'' \<and> length (ch s) \<le> 1024
      \<and> subseq (consumed s @ ch s) pb \<and> (pb \<noteq> [] \<longrightarrow> consumed s @ ch s \<noteq> [] \<and> last (consumed s @ ch s) = last pb)
      \<and> dropped s = of_nat (length pb - length (consumed s @ ch s))"
    by (intro exI [of _ s]) (simp add: delivered_def sub_ok_def subCap_def)
next
  have ok: "ingest_ok numCPU cfg dec D S fr pb dn st" by (rule ingest_run_ok [OF assms])
  then have run: "router_run numCPU (ingest_router_config cfg) True D S pb dn (ig_router st)" and opn: "open_router (ig_router st)"
    and d: "decoded dec fr = pb @ pending_events st" by (simp_all add: ingest_ok_def)
  show "filter (\<lambda>ev. eventSymbol ev = Some sy) pb = filter (\<lambda>ev. eventSymbol ev = Some sy) dn
      @ filter (\<lambda>ev. eventSymbol ev = Some sy) (inq (shards (ig_router st) ! shardIndex sy (length (shards (ig_router st)))))" for sy
    by (rule routed_split [OF run])
  fix ev cx st' e
  assume p: "ig_pending st = Some ev" and e: "ingest_route cx ev st = Inl (st', e)"
  from p have "ev \<in> set (decoded dec fr)" by (simp add: d pending_events_def)
  moreover obtain ut ud cache where "dec = Decode ut ud cache" using ingest_run_decoder [OF assms(1)] by blast
  ultimately obtain k where k: "eventSymbol ev = Some k" using decoded_kind by (force simp: eventSymbol_def)
  have "shardIndex k (length (shards (ig_router st))) < length (shards (ig_router st))"
    by (rule router_invD(2) [OF router_run_inv [OF run]])
  then show "\<exists>c. cx = Some c \<and> e = RouteCanceled c"
    using opn e by (auto simp: ingest_route_def Route_def k Let_def open_router_def split: option.splits if_splits)
qed

text \<open>
  C12. A divergence the daemon counts is a defect. Feed it the deltas of a venue, and let every snapshot it
  fetches, to anchor a book or to check one, be the venue's at some update id, complete or truncated;
  then in no interleaving does the checker count a divergence: every check ends as skipped, agreeing or
  skewed.
\<close>

theorem ingest_never_diverges:
  assumes "ingest_run numCPU cfg io dec (\<lambda>sy. venue_snapshot (vb sy) (va sy)) fr pb dn st"
    and "deltas_ok dec (\<lambda>sy. delta_faithful (vb sy) (va sy)) fr"
  shows "in_divergences (ig_inst st) = 0"
  using assms
proof induction
  case (ig_new http marshal un_info cache url client st un_trade un_depth)
  then show ?case using ingest_setup_router(2) by (simp add: newInstruments_def)
next
  case (ig_frame fr pb dn st f took)
  then show ?case by (simp add: ingest_frame_def deltas_ok_snoc Let_def split: sum.split)
next
  case (ig_route fr pb dn st ev cx st')
  then show ?case by (auto simp: ingest_route_def split: sum.splits option.splits)
next
  case (ig_check fr pb dn st fetched cx r' i')
  have "in_divergences i' = in_divergences (ig_inst st)"
    using checkOne_divergences [OF ingest_run_ok [OF ig_check(1) ig_check.prems], of fetched cx] ig_check(2,3) by simp
  with ig_check show ?case by simp
qed simp_all

text \<open>
  Every number in the books is an int64. Whatever bytes the frames and the responses of the depth
  endpoint hold, in every interleaving of the daemon, each price, quantity and update id of each book,
  the bounds of what it knows and the deltas it has buffered are in the range of an int64, so the
  integers of the model stand for values of the program. The update ids are int64 fields that
  \<open>json.Unmarshal\<close> filled; prices and quantities are parsed by the program itself.
\<close>

lemma books_in_int64:
  assumes "ingest_run numCPU cfg io (Decode un_trade un_depth cache)
      (\<lambda>sy s. \<exists>http. DepthClient_Snapshot http un_body client sy = Inr s) fr pb dn st"
    and "\<And>data rw. un_depth data = Inr rw \<Longrightarrow> in_i64 (dr_FirstID rw) \<and> in_i64 (dr_LastID rw)"
    and "\<And>data rw. un_body data = Inr rw \<Longrightarrow> in_i64 (br_LastUpdateID rw)"
    and "book_of (ig_router st) sy = Some t"
  shows "(\<forall>l\<in>set (levels (bids (book t))) \<union> set (levels (asks (book t))). in_i64 (Price l) \<and> in_i64 (Qty l))
    \<and> in_i64 (Tracker_LastID t) \<and> in_i64 (bidFloor t) \<and> in_i64 (askCeil t) \<and> (\<forall>d\<in>set (buf t). delta_range d)"
proof -
  let ?dec = "Decode un_trade un_depth cache" and ?S = "\<lambda>sy s. \<exists>http. DepthClient_Snapshot http un_body client sy = Inr s"
  have "deltas_ok ?dec (\<lambda>_. delta_range) fr"
    using Decode_range [of un_trade un_depth cache _ _, OF _ _ assms(2)]
    by (auto simp: deltas_ok_def decoded_def split: sum.splits)
  from ingest_run_ok [OF assms(1) this] have run: "router_run numCPU (ingest_router_config cfg) True (\<lambda>_. delta_range) ?S pb dn (ig_router st)"
    and opn: "open_router (ig_router st)" by (simp_all add: ingest_ok_def)
  have i: "shardIndex sy (length (shards (ig_router st))) < length (shards (ig_router st))" by (rule router_invD(2) [OF router_run_inv [OF run]])
  have "tracker_run delta_range (?S sy) sy (BufferCap (ingest_router_config cfg)) t"
    by (rule running_slot(1) [OF run i]) (use opn i assms(4) in \<open>simp_all add: open_router_def book_of_def\<close>)
  then have "tracker_range t" by (rule tracker_run_range) (use DepthClient_Snapshot_range [OF _ assms(3)] in auto)
  then show ?thesis
    by (auto simp: tracker_range_def book_range_def side_range_def level_range_def Tracker_LastID_def LastID_def)
qed

section \<open>A concrete start\<close>

definition ex_config :: ingest_config where
  "ex_config = \<lparr>ic_symbols = [''BTC-USDT''], ic_endpoint = ''wss://host'', ic_restEndpoint = ''https://host'', ic_shards = 1, ic_recording = Some (True, Map.empty)\<rparr>"

lemma ex_setup:
  "\<exists>url client st. ingest_setup (\<lambda>_. Inr (200, Inr ''{}'')) (\<lambda>_. []) (\<lambda>_. Inr ex_info) 1 ex_config = Inr (ex_cache, url, client, st)"
proof -
  have "ParseExchangeInfo (\<lambda>_. Inr ex_info) ''{}'' = Inr ex_cache"
    using ex_cache_parsed by (simp add: ParseExchangeInfo_def)
  moreover have "FetchExchangeInfoRaw (\<lambda>_. Inr (200, Inr ''{}'')) (\<lambda>_. []) base syms = Inr ''{}''" for base syms
    by (simp add: FetchExchangeInfoRaw_def)
  moreover obtain url where "CombinedStreamURL (ic_endpoint ex_config) ex_cache (ic_symbols ex_config) = Inr url"
    by (simp add: CombinedStreamURL_def ex_config_def ex_cache_facts(2))
  moreover obtain rc where "start_recorder ex_config ''{}'' = Inr (Some rc)"
    by (simp add: start_recorder_def ex_config_def NewRecorder_def Recorder_Start_def MaxPayloadSize_def)
  moreover obtain p where p: "start_publisher = Inr p"
    by (simp add: start_publisher_def Subscribe_def Publisher_Start_def NewPublisher_def subCap_def)
  moreover obtain r r' where "NewRouter 1 (ingest_router_config ex_config) = Inr r" "Router_Start r = Inr r'"
    by (simp add: NewRouter_def Router_Start_def ingest_router_config_def shardQueueCap_def)
  ultimately show ?thesis unfolding ingest_setup_def p by simp
qed

abbreviation ex_decoder :: "Frame \<Rightarrow> decode_error + Event" where
  "ex_decoder \<equiv> Decode (\<lambda>_. Inl []) (\<lambda>_. Inr ex_raw) ex_cache"

lemma ex_ingest: "\<exists>st. ingest_run 1 ex_config ex_io ex_decoder S [ex_frame] [] [] st"
proof -
  obtain url client st where st: "ingest_setup (\<lambda>_. Inr (200, Inr ''{}'')) (\<lambda>_. []) (\<lambda>_. Inr ex_info) 1 ex_config = Inr (ex_cache, url, client, st)"
    using ex_setup by blast
  have "ingest_run 1 ex_config ex_io ex_decoder S [] [] [] st"
    by (rule ig_new [OF st refl]) (simp_all add: in_i64_def MinInt64_def MaxInt64_def ex_config_def)
  from ig_frame [OF this, of ex_frame 1000] ingest_setup_router(3) [OF st] show ?thesis by auto
qed

lemma ex_decoded_frames: "decoded ex_decoder [ex_frame] = [ex_decoded]"
  by (simp add: decoded_def ex_decode)

definition ex_stage :: Router where
  "ex_stage = \<lparr>shards = [new_shard (ingest_router_config ex_config) 0], started = True, closeOnce = False\<rparr>"

definition ex_stage_routed :: Router where
  "ex_stage_routed = update_shard ex_stage 0 (\<lambda>s. s\<lparr>inq := inq s @ [ex_decoded]\<rparr>)"

definition ex_stage_handled :: Router where
  "ex_stage_handled = update_shard ex_stage_routed 0 (\<lambda>s. handle 7 ex_decoded (s\<lparr>inq := []\<rparr>))"

lemma ex_stage_new: "NewRouter 1 (ingest_router_config ex_config) = Inr (ex_stage\<lparr>started := False\<rparr>)"
  "Router_Start (ex_stage\<lparr>started := False\<rparr>) = Inr ex_stage"
  by (simp_all add: NewRouter_def Router_Start_def ex_stage_def ingest_router_config_def ex_config_def shardQueueCap_def)

lemma ex_stage_Route: "Route None ex_decoded ex_stage = Inr (Some ex_stage_routed)"
  by (simp add: Route_def eventSymbol_def ex_decoded_def ex_stage_routed_def ex_stage_def new_shard_def ingest_router_config_def
      shardQueueCap_def update_shard_def zero_Event_def)

lemma ex_stage_facts:
  "length (shards ex_stage_routed) = 1" "\<not> quit (shards ex_stage_routed ! 0)" "inq (shards ex_stage_routed ! 0) = [ex_decoded]"
  by (simp_all add: ex_stage_routed_def ex_stage_def update_shard_def new_shard_def)

lemma ex_stage_handled_facts:
  "length (shards ex_stage_handled) = 1" "\<not> quit (shards ex_stage_handled ! 0)" "inflight (shards ex_stage_handled ! 0) = [''BTC-USDT'']"
  by code_simp+

lemma ex_daemon:
  "\<exists>st. ingest_run 1 ex_config ex_io ex_decoder S [ex_frame] [ex_decoded] [ex_decoded] st \<and> ig_router st = ex_stage_handled \<and> ig_pending st = None"
proof -
  let ?run = "ingest_run 1 ex_config ex_io ex_decoder S"
  obtain url client st0 where st0: "ingest_setup (\<lambda>_. Inr (200, Inr ''{}'')) (\<lambda>_. []) (\<lambda>_. Inr ex_info) 1 ex_config = Inr (ex_cache, url, client, st0)"
    using ex_setup by blast
  have r0: "ig_router st0 = ex_stage" and p0: "ig_pending st0 = None"
    using ingest_setup_router [OF st0] ex_stage_new by auto
  have "?run [] [] [] st0"
    by (rule ig_new [OF st0 refl]) (simp_all add: in_i64_def MinInt64_def MaxInt64_def ex_config_def)
  note step = ig_frame [OF this p0, of ex_frame 1000]
  define st1 where "st1 = ingest_frame ex_decoder 1000 ex_frame st0"
  have st1: "ig_router st1 = ex_stage" "ig_pending st1 = Some ex_decoded"
    by (simp_all add: st1_def ingest_frame_def ex_decode Let_def r0)
  then obtain st2 where st2: "ingest_route None ex_decoded st1 = Inr (Some st2)" "ig_router st2 = ex_stage_routed" "ig_pending st2 = None"
    by (simp add: ingest_route_def ex_stage_Route)
  have "?run [ex_frame] [ex_decoded] [] st2" using ig_route [OF step [folded st1_def] st1(2) st2(1)] by simp
  from ig_event [OF this, of 0 ex_decoded "[]" 7] have "?run [ex_frame] [ex_decoded] [ex_decoded] (st2\<lparr>ig_router := ex_stage_handled\<rparr>)"
    by (simp add: st2(2) ex_stage_facts ex_stage_handled_def)
  with st2(3) show ?thesis by (intro exI [of _ "st2\<lparr>ig_router := ex_stage_handled\<rparr>"]) simp
qed

text \<open>C4 on a daemon that has taken one frame and routed, published and handled its event.\<close>

theorem ingest_in_order_witness:
  "\<exists>st s. ingest_run 1 ex_config ex_io ex_decoder (\<lambda>_ _. True) [ex_frame] [ex_decoded] [ex_decoded] st
    \<and> in_frames (ig_inst st) = 1 \<and> subs (ig_pub st) = [s] \<and> consumed s @ ch s = [ex_decoded] \<and> dropped s = 0"
proof -
  obtain st where st: "ingest_run 1 ex_config ex_io ex_decoder (\<lambda>_ _. True) [ex_frame] [ex_decoded] [ex_decoded] st"
    using ex_daemon by blast
  have "deltas_ok ex_decoder (\<lambda>_ _. True) [ex_frame]" by (simp add: deltas_ok_def)
  note o = ingest_in_order [OF st this]
  then obtain s where s: "subs (ig_pub st) = [s]" "subseq (consumed s @ ch s) [ex_decoded]" "consumed s @ ch s \<noteq> []"
    "dropped s = of_nat (length [ex_decoded] - length (consumed s @ ch s))" by blast
  have "consumed s @ ch s = [ex_decoded]" using s(2,3) by (cases "consumed s @ ch s") (auto simp: list_emb_Nil2 split: if_splits)
  moreover from this have "dropped s = 0" using s(4) by (simp only: length_Cons) simp
  moreover have "in_frames (ig_inst st) = 1" using o [THEN conjunct2] by (metis length_Cons list.size(3) of_nat_1 One_nat_def)
  ultimately show ?thesis using st s(1) by blast
qed

text \<open>C12 on a daemon that has taken one frame, for a venue that has held one bid all along.\<close>

theorem ingest_never_diverges_witness:
  "\<exists>st. ingest_run 1 ex_config ex_io ex_decoder (\<lambda>sy. venue_snapshot (\<lambda>k p. if p = 10050 then 200000 else 0) (\<lambda>k p. 0)) [ex_frame] [] [] st
    \<and> in_divergences (ig_inst st) = 0"
proof -
  let ?vb = "\<lambda>(sy :: Symbol) (k :: int) p. if p = 10050 then 200000 else (0 :: int)" and ?va = "\<lambda>(sy :: Symbol) (k :: int) (p :: int). 0 :: int"
  obtain st where st: "ingest_run 1 ex_config ex_io ex_decoder (\<lambda>sy. venue_snapshot (?vb sy) (?va sy)) [ex_frame] [] [] st"
    using ex_ingest by blast
  have "deltas_ok ex_decoder (\<lambda>sy. delta_faithful (?vb sy) (?va sy)) [ex_frame]"
    by (auto simp: deltas_ok_def ex_decoded_frames ex_decoded_def delta_faithful_def levels_faithful_def delta_i64_def
        in_i64_def MinInt64_def MaxInt64_def)
  from ingest_never_diverges [OF st this] st show ?thesis by blast
qed

section \<open>The tee\<close>

text \<open>
  The snapshots the books of a recording daemon are given come through the tee, and keep the promise
  of the depth client behind it.
\<close>

interpretation recorded_depth_source:
  snapshotter "client_ok \<circ> snd \<circ> snd"
    "\<lambda>(now, rc, w) sy. snd (snapshotTee_Snapshot (DepthClient_Snapshot (fst w) (fst (snd w)) (snd (snd w))) now sy rc)"
proof unfold_locales
  fix x sy s
  assume ok: "(client_ok \<circ> snd \<circ> snd) x"
    and s: "(case x of (now, rc, w) \<Rightarrow> \<lambda>sy. snd (snapshotTee_Snapshot (DepthClient_Snapshot (fst w) (fst (snd w)) (snd (snd w))) now sy rc)) sy = Inr s"
  obtain now rc w where x: "x = (now, rc, w)" by (metis prod_cases3)
  have "DepthClient_Snapshot (fst w) (fst (snd w)) (snd (snd w)) sy = Inr s"
    using s by (simp add: x snapshotTee_Snapshot_def split: sum.splits)
  with ok depth_source.snapshot_symbol [of w sy s] show "snap_Symbol s = sy" by (simp add: x)
qed

end
