(* ===== verification/Shutdown.thy ===== *)
theory Shutdown
  imports Ingest
begin

text \<open>
  The end of \<open>run\<close> in \<^verbatim>\<open>cmd/ingestd/main.go\<close>: the deferred calls, last registered first. The workers are
  stopped, then the router is closed and waited for, then the publisher, then the recorder. Each
  \<open>Close\<close> closes the channels its goroutines read from and waits for them, and meanwhile the goroutines
  of every stage go on: shards handle what is queued, take results of snapshot requests and return;
  a request still in flight may hand its snapshot to the recorder before it gives up; subscribers
  receive; the recorder's writer takes entries. \<open>shutdown_step\<close> is one step of any of them, over the
  events handled so far, the place of \<open>run\<close> and the state of the daemon.
\<close>

text \<open>\<open>StopWorkers n\<close>: the workers are told to stop and \<open>n\<close> of them have not returned.\<close>

datatype shutdown_phase = StopWorkers nat | DrainRouter | DrainPublisher | DrainRecorder | Returned

text \<open>The goroutines \<open>Router.Close\<close> waits for have returned.\<close>

definition router_done :: "Router \<Rightarrow> bool" where
  "router_done r \<longleftrightarrow> (\<forall>s\<in>set (shards r). quit s \<and> inflight s = [])"

text \<open>The delivery goroutines have: each channel is closed and read to its end.\<close>

definition publisher_done :: "Publisher \<Rightarrow> bool" where
  "publisher_done p \<longleftrightarrow> (\<forall>s\<in>set (subs p). ch_closed s \<and> ch s = [])"

definition recorder_done :: "Recorder option \<Rightarrow> bool" where
  "recorder_done rc = (case rc of None \<Rightarrow> True | Some r \<Rightarrow> rec_closed r \<and> rec_in r = [])"

inductive shutdown_step ::
  "rec_io \<Rightarrow> (Symbol \<Rightarrow> Snapshot \<Rightarrow> bool) \<Rightarrow> Event list \<times> shutdown_phase \<times> ingest_st \<Rightarrow> Event list \<times> shutdown_phase \<times> ingest_st \<Rightarrow> bool"
  for io S where
  sd_check: "(\<And>snap. fetched = Inr snap \<Longrightarrow> S (snap_Symbol snap) snap) \<Longrightarrow>
    checkOne cx (fetched :: depth_error + Snapshot) (ig_router st) (ig_inst st) = (r', i') \<Longrightarrow>
    shutdown_step io S (dn, StopWorkers (Suc n), st) (dn, StopWorkers (Suc n), st\<lparr>ig_router := r', ig_inst := i'\<rparr>)"
| sd_worker: "shutdown_step io S (dn, StopWorkers (Suc n), st) (dn, StopWorkers n, st)"
| sd_event: "i < length (shards (ig_router st)) \<Longrightarrow> \<not> quit (shards (ig_router st) ! i) \<Longrightarrow> inq (shards (ig_router st) ! i) = ev # rest \<Longrightarrow>
    shutdown_step io S (dn, ph, st) (dn @ [ev], ph, st\<lparr>ig_router := update_shard (ig_router st) i (\<lambda>s. handle now ev (s\<lparr>inq := rest\<rparr>))\<rparr>)"
| sd_result: "i < length (shards (ig_router st)) \<Longrightarrow> \<not> quit (shards (ig_router st) ! i) \<Longrightarrow>
    res_symbol res \<in> set (inflight (shards (ig_router st) ! i)) \<Longrightarrow>
    (\<And>snap. res_snapshot res = Inr snap \<Longrightarrow> S (res_symbol res) snap) \<Longrightarrow>
    shutdown_step io S (dn, ph, st) (dn, ph, st\<lparr>ig_router := update_shard (ig_router st) i (deliver now res)\<rparr>)"
| sd_exit: "i < length (shards (ig_router st)) \<Longrightarrow> inq (shards (ig_router st) ! i) = [] \<Longrightarrow> inq_closed (shards (ig_router st) ! i) \<Longrightarrow>
    shutdown_step io S (dn, ph, st) (dn, ph, st\<lparr>ig_router := update_shard (ig_router st) i (\<lambda>s. s\<lparr>quit := True\<rparr>)\<rparr>)"
| sd_abandon: "i < length (shards (ig_router st)) \<Longrightarrow> quit (shards (ig_router st) ! i) \<Longrightarrow> k \<in> set (inflight (shards (ig_router st) ! i)) \<Longrightarrow>
    shutdown_step io S (dn, ph, st) (dn, ph, st\<lparr>ig_router := update_shard (ig_router st) i (\<lambda>s. s\<lparr>inflight := remove1 k (inflight s)\<rparr>)\<rparr>)"
| sd_tee: "i < length (shards (ig_router st)) \<Longrightarrow> k \<in> set (inflight (shards (ig_router st) ! i)) \<Longrightarrow> ig_recorder st = Some rc \<Longrightarrow>
    shutdown_step io S (dn, ph, st) (dn, ph,
      st\<lparr>ig_recorder := Some (fst (snapshotTee_Snapshot (inner :: Symbol \<Rightarrow> depth_error + Snapshot) now k rc))\<rparr>)"
| sd_write: "ig_recorder st = Some rc \<Longrightarrow>
    shutdown_step io S (dn, ph, st) (dn, ph, st\<lparr>ig_recorder := Some (run_step io rc)\<rparr>)"
| sd_receive: "j < length (subs (ig_pub st)) \<Longrightarrow> ch (subs (ig_pub st) ! j) \<noteq> [] \<Longrightarrow>
    shutdown_step io S (dn, ph, st) (dn, ph, st\<lparr>ig_pub := receive j (ig_pub st)\<rparr>)"
| sd_close_router: "shutdown_step io S (dn, StopWorkers 0, st) (dn, DrainRouter, st\<lparr>ig_router := Router_Close (ig_router st)\<rparr>)"
| sd_close_publisher: "router_done (ig_router st) \<Longrightarrow>
    shutdown_step io S (dn, DrainRouter, st) (dn, DrainPublisher, st\<lparr>ig_pub := Publisher_Close (ig_pub st)\<rparr>)"
| sd_close_recorder: "publisher_done (ig_pub st) \<Longrightarrow>
    shutdown_step io S (dn, DrainPublisher, st) (dn, DrainRecorder, st\<lparr>ig_recorder := map_option Recorder_Close (ig_recorder st)\<rparr>)"
| sd_return: "recorder_done (ig_recorder st) \<Longrightarrow> shutdown_step io S (dn, DrainRecorder, st) (dn, Returned, st)"

text \<open>
  How the loop ends: the transport has returned, which the \<open>select\<close> sees with no event in hand, or
  \<open>Route\<close> has failed.
\<close>

definition loop_ends ::
  "int \<Rightarrow> ingest_config \<Rightarrow> rec_io \<Rightarrow> (Frame \<Rightarrow> decode_error + Event) \<Rightarrow> (Symbol \<Rightarrow> Snapshot \<Rightarrow> bool)
    \<Rightarrow> Frame list \<Rightarrow> Event list \<Rightarrow> Event list \<Rightarrow> ingest_st \<Rightarrow> bool" where
  "loop_ends numCPU cfg io dec S fr pb dn st \<longleftrightarrow>
    (ingest_run numCPU cfg io dec S fr pb dn st \<and> ig_pending st = None)
    \<or> (\<exists>st0 ev cx e. ingest_run numCPU cfg io dec S fr pb dn st0 \<and> ig_pending st0 = Some ev \<and> ingest_route cx ev st0 = Inl (st, e))"

section \<open>The stages are open while the loop runs\<close>

definition rec_flags :: "Recorder \<Rightarrow> bool \<times> bool \<times> bool" where
  "rec_flags rc = (rec_started rc, rec_closeOnce rc, rec_closed rc)"

lemma rec_flags_openFile: "rec_flags (fst (openFile io h rc)) = rec_flags rc"
  by (auto simp: openFile_def rec_flags_def set_writer_def split: sum.splits prod.splits option.splits)

lemma rec_flags_rotate: "rec_flags (fst (rotate_file io h rc)) = rec_flags rc"
  using rec_flags_openFile [of io h rc] rec_flags_openFile [of io h "rc\<lparr>cur := None\<rparr>"]
  by (auto simp: rotate_file_def rec_flags_def split: option.splits prod.splits)

lemma rec_flags_record_on: "rec_flags (record_on io e h w rc) = rec_flags rc"
  by (auto simp: record_on_def report_drops_def rec_flags_def set_writer_def Let_def split: prod.splits option.splits)

lemma rec_flags_run_step [simp]: "rec_flags (run_step io rc) = rec_flags rc"
proof (cases "rec_in rc")
  case (Cons e es)
  obtain r' ok where r: "rotate_file io (hour_of (e_at e)) (rc\<lparr>rec_in := es\<rparr>) = (r', ok)" by fastforce
  then have "rec_flags r' = rec_flags rc"
    using rec_flags_rotate [of io "hour_of (e_at e)" "rc\<lparr>rec_in := es\<rparr>"] by (simp add: rec_flags_def)
  then show ?thesis
    using rec_flags_record_on
    by (auto simp: run_step_def Cons run_entry_def r rec_flags_def Let_def split: bool.split option.split prod.split)
qed (simp add: run_step_def)

lemma rec_in_openFile: "rec_in (fst (openFile io h rc)) = rec_in rc"
  by (auto simp: openFile_def set_writer_def split: sum.splits prod.splits option.splits)

lemma rec_in_rotate: "rec_in (fst (rotate_file io h rc)) = rec_in rc"
  using rec_in_openFile [of io h rc] rec_in_openFile [of io h "rc\<lparr>cur := None\<rparr>"]
  by (auto simp: rotate_file_def split: option.splits prod.splits)

lemma rec_in_record_on: "rec_in (record_on io e h w rc) = rec_in rc"
  by (auto simp: record_on_def report_drops_def set_writer_def Let_def split: prod.splits option.splits)

lemma rec_in_run_step [simp]: "rec_in (run_step io rc) = tl (rec_in rc)"
proof (cases "rec_in rc")
  case (Cons e es)
  obtain r' ok where r: "rotate_file io (hour_of (e_at e)) (rc\<lparr>rec_in := es\<rparr>) = (r', ok)" by fastforce
  then have "rec_in r' = es" using rec_in_rotate [of io "hour_of (e_at e)" "rc\<lparr>rec_in := es\<rparr>"] by simp
  then show ?thesis
    by (auto simp: run_step_def Cons run_entry_def r rec_in_record_on Let_def split: bool.split option.split prod.split)
qed (simp add: run_step_def)

lemma rec_flags_enqueue [simp]: "rec_flags (enqueue rc e) = rec_flags rc"
  by (simp add: rec_flags_def enqueue_def)

lemma rec_flags_tee [simp]: "rec_flags (fst (snapshotTee_Snapshot inner now k rc)) = rec_flags rc"
  by (simp add: snapshotTee_Snapshot_def Recorder_Snapshot_def split: sum.split)

lemma update_shard_flags [simp]: "started (update_shard r i f) = started r" "closeOnce (update_shard r i f) = closeOnce r"
  by (simp_all add: update_shard_def)

lemma ask_flags [simp]: "started (fst (ask cx q r)) = started r" "closeOnce (fst (ask cx q r)) = closeOnce r"
  by (simp_all add: ask_def Let_def split: option.split)

lemma checkOne_flags:
  assumes "checkOne cx fetched r i = (r', i')"
  shows "started r' = started r" and "closeOnce r' = closeOnce r"
  using assms by (cases rule: checkOne_cases; simp)+

lemma Route_flags: "Route cx ev r = Inr (Some r') \<Longrightarrow> started r' = started r \<and> closeOnce r' = closeOnce r"
  by (auto simp: Route_def Let_def split: option.splits if_splits)

definition pub_flags :: "Publisher \<Rightarrow> bool \<times> bool \<times> bool list" where
  "pub_flags p = (pub_started p, pub_closeOnce p, map ch_closed (subs p))"

lemma pub_flags_Publish [simp]: "pub_flags (Publish ev p) = pub_flags p"
  by (simp add: pub_flags_def Publish_def publish_one_def try_send_def discard_oldest_def resend_def comp_def split: option.split list.split)

lemma delivery_turn_simps [simp]: "ch_closed (delivery_turn s) = ch_closed s" "ch (delivery_turn s) = tl (ch s)"
  by (simp_all add: delivery_turn_def split: list.split)

lemma pub_flags_receive [simp]: "pub_flags (receive j p) = pub_flags p"
  by (cases "j < length (subs p)") (simp_all add: pub_flags_def receive_def map_update list_update_same_conv not_less list_update_beyond)

text \<open>Which stages \<open>run\<close> has closed, by the place it has reached.\<close>

definition publisher_closed :: "shutdown_phase \<Rightarrow> bool" where
  "publisher_closed ph \<longleftrightarrow> ph = DrainPublisher \<or> ph = DrainRecorder \<or> ph = Returned"

definition recorder_closed :: "shutdown_phase \<Rightarrow> bool" where
  "recorder_closed ph \<longleftrightarrow> ph = DrainRecorder \<or> ph = Returned"

fun stopping :: "shutdown_phase \<Rightarrow> bool" where
  "stopping (StopWorkers n) = True"
| "stopping ph = False"

definition phase_ok :: "shutdown_phase \<Rightarrow> ingest_st \<Rightarrow> bool" where
  "phase_ok ph st \<longleftrightarrow>
    started (ig_router st) \<and> (if stopping ph then \<not> closeOnce (ig_router st) else all_closed (ig_router st))
    \<and> (publisher_closed ph \<longrightarrow> router_done (ig_router st))
    \<and> pub_flags (ig_pub st) = (True, publisher_closed ph, replicate (length (subs (ig_pub st))) (publisher_closed ph))
    \<and> (recorder_closed ph \<longrightarrow> publisher_done (ig_pub st))
    \<and> (\<forall>rc. ig_recorder st = Some rc \<longrightarrow> rec_flags rc = (True, recorder_closed ph, recorder_closed ph))
    \<and> (ph = Returned \<longrightarrow> recorder_done (ig_recorder st))"

lemma router_setup_flags: "NewRouter numCPU c = Inr r \<Longrightarrow> Router_Start r = Inr r' \<Longrightarrow> started r' \<and> \<not> closeOnce r'"
  by (auto simp: NewRouter_def Router_Start_def Let_def split: if_splits)

lemma recorder_setup_flags: "start_recorder cfg meta = Inr (Some rc) \<Longrightarrow> rec_flags rc = (True, False, False)"
  by (auto simp: start_recorder_def NewRecorder_def Recorder_Start_def rec_flags_def split: option.splits prod.splits sum.splits if_splits)

lemma publisher_setup_flags: "start_publisher = Inr p \<Longrightarrow> pub_flags p = (True, False, [False])"
  by (auto simp: start_publisher_def Subscribe_def NewPublisher_def Publisher_Start_def pub_flags_def subCap_def split: sum.splits if_splits)

lemma phase_ok_setup:
  assumes "ingest_setup http marshal un_info numCPU cfg = Inr (cache, url, client, st)"
  shows "phase_ok (StopWorkers n) st"
proof -
  obtain r where r: "NewRouter numCPU (ingest_router_config cfg) = Inr r" "Router_Start r = Inr (ig_router st)"
    using ingest_setup_router(1) [OF assms] by blast
  then have "started (ig_router st) \<and> \<not> closeOnce (ig_router st)" by (rule router_setup_flags)
  moreover obtain meta where "start_recorder cfg meta = Inr (ig_recorder st)" "start_publisher = Inr (ig_pub st)"
    using assms by (auto simp: ingest_setup_def split: sum.splits)
  moreover from this(2) have "pub_flags (ig_pub st) = (True, False, [False])" by (rule publisher_setup_flags)
  moreover from this have "length (subs (ig_pub st)) = 1" unfolding pub_flags_def by (metis length_map list.size(3) One_nat_def list.size(4) add_0 prod.inject Suc_eq_plus1)
  ultimately show ?thesis
    using recorder_setup_flags [of cfg meta] by (auto simp: phase_ok_def publisher_closed_def recorder_closed_def)
qed

lemma length_subs [simp]: "length (subs (Publish ev p)) = length (subs p)" "length (subs (receive j p)) = length (subs p)"
  by (simp_all add: Publish_def receive_def)

lemma ingest_run_open: "ingest_run numCPU cfg io dec S fr pb dn st \<Longrightarrow> phase_ok (StopWorkers n) st"
proof (induction rule: ingest_run.induct)
  case (ig_frame fr pb dn st f took)
  then show ?case
    by (auto simp: phase_ok_def publisher_closed_def recorder_closed_def ingest_frame_def Recorder_Frame_def Let_def split: sum.split)
next
  case (ig_route fr pb dn st ev cx st')
  then show ?case
    by (auto simp: phase_ok_def publisher_closed_def recorder_closed_def ingest_route_def dest!: Route_flags split: sum.splits option.splits)
next
  case (ig_check fr pb dn st fetched cx r' i')
  then show ?case using checkOne_flags [OF ig_check(3)] by (simp add: phase_ok_def publisher_closed_def recorder_closed_def)
qed (simp_all add: phase_ok_setup, simp_all add: phase_ok_def publisher_closed_def recorder_closed_def)

section \<open>The order of the stages\<close>

lemma phase_ok_router:
  assumes "phase_ok ph st" and "closeOnce r' = closeOnce (ig_router st)" and "started r' = started (ig_router st)"
    and "all_closed (ig_router st) \<Longrightarrow> all_closed r'" and "router_done (ig_router st) \<Longrightarrow> router_done r'"
  shows "phase_ok ph (st\<lparr>ig_router := r', ig_inst := figures\<rparr>)"
  using assms by (auto simp: phase_ok_def)

lemma phase_ok_shard:
  assumes "phase_ok ph st" and "inq_closed (f (shards (ig_router st) ! i)) = inq_closed (shards (ig_router st) ! i)"
    and "router_done (ig_router st) \<Longrightarrow> router_done (update_shard (ig_router st) i f)"
  shows "phase_ok ph (st\<lparr>ig_router := update_shard (ig_router st) i f\<rparr>)"
  using phase_ok_router [OF assms(1), of "update_shard (ig_router st) i f" "ig_inst st"] assms(2,3) all_closed_update by auto

lemma router_doneD: "router_done r \<Longrightarrow> i < length (shards r) \<Longrightarrow> quit (shards r ! i) \<and> inflight (shards r ! i) = []"
  by (simp add: router_done_def)

lemma router_done_exit: "router_done r \<Longrightarrow> router_done (update_shard r i (\<lambda>s. s\<lparr>quit := True\<rparr>))"
  by (cases "i < length (shards r)") (auto simp: router_done_def update_shard_def not_less list_update_beyond dest!: set_update_subset_insert [THEN subsetD])

lemma phase_ok_recorder:
  assumes "phase_ok ph st" and "ig_recorder st = Some rc" and "rec_flags rc' = rec_flags rc" and "rec_in rc = [] \<Longrightarrow> rec_in rc' = [] \<or> ph \<noteq> Returned"
  shows "phase_ok ph (st\<lparr>ig_recorder := Some rc'\<rparr>)"
  using assms by (auto simp: phase_ok_def recorder_done_def rec_flags_def)

lemma rec_flags_Close: "rec_flags rc = (True, False, False) \<Longrightarrow> rec_flags (Recorder_Close rc) = (True, True, True)"
  by (simp add: rec_flags_def Recorder_Close_def)

lemma phase_ok_step:
  assumes "shutdown_step io S c c'" and "case c of (dn, ph, st) \<Rightarrow> phase_ok ph st"
  shows "case c' of (dn, ph, st) \<Rightarrow> phase_ok ph st"
  using assms
proof cases
  case (sd_check fetched cx st r' i' dn n)
  note f = checkOne_flags [OF sd_check(4)]
  show ?thesis using assms(2) f unfolding sd_check(1,2)
    by (auto simp: phase_ok_def publisher_closed_def recorder_closed_def)
next
  case (sd_event i st ev rest dn ph now)
  then show ?thesis using assms(2) router_doneD by (auto intro!: phase_ok_shard)
next
  case (sd_result i st res dn ph now)
  then show ?thesis using assms(2) router_doneD by (auto intro!: phase_ok_shard)
next
  case (sd_exit i st dn ph)
  then show ?thesis using assms(2) by (auto intro!: phase_ok_shard router_done_exit)
next
  case (sd_abandon i st k dn ph)
  then show ?thesis using assms(2) router_doneD [of "ig_router st" i] by (auto intro!: phase_ok_shard)
next
  case (sd_tee i st k rc dn ph inner now)
  then show ?thesis using assms(2) router_doneD [of "ig_router st" i]
    by (auto intro!: phase_ok_recorder simp: phase_ok_def publisher_closed_def)
next
  case (sd_write st rc dn ph)
  then show ?thesis using assms(2) by (auto intro!: phase_ok_recorder)
next
  case (sd_receive j st dn ph)
  then show ?thesis using assms(2) by (auto simp: phase_ok_def publisher_done_def)
next
  case (sd_worker dn n st)
  then show ?thesis using assms(2) by (auto simp: phase_ok_def publisher_closed_def recorder_closed_def)
next
  case (sd_close_router dn st)
  then show ?thesis using assms(2)
    by (auto simp: phase_ok_def publisher_closed_def recorder_closed_def Router_Close_def all_closed_def)
next
  case (sd_close_publisher st dn)
  then show ?thesis using assms(2)
    by (auto simp: phase_ok_def publisher_closed_def recorder_closed_def Publisher_Close_def pub_flags_def comp_def map_replicate_const)
next
  case (sd_close_recorder st dn)
  then show ?thesis using assms(2) by (cases "ig_recorder st") (auto simp: phase_ok_def publisher_closed_def recorder_closed_def rec_flags_Close)
next
  case (sd_return st dn)
  then show ?thesis using assms(2) by (auto simp: phase_ok_def publisher_closed_def recorder_closed_def)
qed

text \<open>The book stage goes through states of its own step relation.\<close>

definition shutdown_ok ::
  "int \<Rightarrow> ingest_config \<Rightarrow> (Symbol \<Rightarrow> BookDelta \<Rightarrow> bool) \<Rightarrow> (Symbol \<Rightarrow> Snapshot \<Rightarrow> bool) \<Rightarrow> Event list
    \<Rightarrow> Event list \<times> shutdown_phase \<times> ingest_st \<Rightarrow> bool" where
  "shutdown_ok numCPU cfg D S pb c =
    (case c of (dn, ph, st) \<Rightarrow> router_run numCPU (ingest_router_config cfg) True D S pb dn (ig_router st) \<and> phase_ok ph st)"

lemma shutdown_ok_step:
  assumes "shutdown_step io S c c'" and "shutdown_ok numCPU cfg D S pb c"
  shows "shutdown_ok numCPU cfg D S pb c'"
proof -
  obtain dn ph st where c: "c = (dn, ph, st)" by (cases c)
  have run: "router_run numCPU (ingest_router_config cfg) True D S pb dn (ig_router st)" and ph: "phase_ok ph st"
    using assms(2) by (simp_all add: shutdown_ok_def c)
  have s: "started (ig_router st)" using ph by (simp add: phase_ok_def)
  have "case c' of (dn, ph, st) \<Rightarrow> router_run numCPU (ingest_router_config cfg) True D S pb dn (ig_router st)"
    using assms(1) unfolding c
  proof cases
    case (sd_check fetched cx r' i' n)
    from sd_check(4) show ?thesis unfolding sd_check(2)
      by (cases rule: checkOne_cases) (use run s in \<open>auto intro: st_query\<close>)
  qed (use run s in \<open>auto intro: st_event st_result st_exit st_abandon st_close\<close>)
  with phase_ok_step [OF assms(1)] ph show ?thesis by (auto simp: shutdown_ok_def c)
qed

lemma shutdown_ok_steps:
  assumes "(shutdown_step io S)\<^sup>*\<^sup>* c c'" and "shutdown_ok numCPU cfg D S pb c"
  shows "shutdown_ok numCPU cfg D S pb c'"
  using assms by (induction rule: rtranclp_induct) (auto intro: shutdown_ok_step)

lemma shutdown_ok_start:
  assumes "loop_ends numCPU cfg io dec S fr pb dn st" and "deltas_ok dec D fr"
  shows "shutdown_ok numCPU cfg D S pb (dn, StopWorkers n, st)"
proof -
  have ok: "router_run numCPU (ingest_router_config cfg) True D S pb dn (ig_router st0) \<and> phase_ok (StopWorkers n) st0"
    if "ingest_run numCPU cfg io dec S fr pb dn st0" for st0
    using ingest_run_ok [OF that assms(2)] ingest_run_open [OF that] by (simp add: ingest_ok_def)
  from assms(1) consider "ingest_run numCPU cfg io dec S fr pb dn st"
    | st0 ev cx e where "ingest_run numCPU cfg io dec S fr pb dn st0" "ingest_route cx ev st0 = Inl (st, e)"
    by (auto simp: loop_ends_def)
  then show ?thesis
  proof cases
    case (2 st0 ev cx e)
    then have "ig_router st = ig_router st0" "ig_pub st = ig_pub st0" "ig_recorder st = ig_recorder st0"
      by (auto simp: ingest_route_def split: sum.splits option.splits)
    with ok [OF 2(1)] show ?thesis by (simp add: shutdown_ok_def phase_ok_def)
  qed (simp add: ok shutdown_ok_def)
qed

section \<open>Nothing is left behind, and nothing waits for ever\<close>

interpretation closing_daemon: closing_stage
  "\<lambda>dn r. shutdown_ok numCPU cfg D S pb (dn, DrainRouter, st\<lparr>ig_router := r\<rparr>) \<and> (shutdown_step io S)\<^sup>*\<^sup>* c (dn, DrainRouter, st\<lparr>ig_router := r\<rparr>)"
  for numCPU cfg D S pb st io c
proof (unfold_locales, goal_cases)
  case (1 dn r i ev rest now)
  then have "shutdown_step io S (dn, DrainRouter, st\<lparr>ig_router := r\<rparr>)
      (dn @ [ev], DrainRouter, st\<lparr>ig_router := update_shard r i (\<lambda>s. handle now ev (s\<lparr>inq := rest\<rparr>))\<rparr>)"
    using sd_event [of i "st\<lparr>ig_router := r\<rparr>" ev rest io S dn DrainRouter now] by simp
  with 1(1) show ?case by (meson rtranclp.rtrancl_into_rtrancl shutdown_ok_step)
next
  case (2 dn r i)
  then have "shutdown_step io S (dn, DrainRouter, st\<lparr>ig_router := r\<rparr>)
      (dn, DrainRouter, st\<lparr>ig_router := update_shard r i (\<lambda>s. s\<lparr>quit := True\<rparr>)\<rparr>)"
    using sd_exit [of i "st\<lparr>ig_router := r\<rparr>" io S dn DrainRouter] by simp
  with 2(1) show ?case by (meson rtranclp.rtrancl_into_rtrancl shutdown_ok_step)
next
  case (3 dn r i k)
  then have "shutdown_step io S (dn, DrainRouter, st\<lparr>ig_router := r\<rparr>)
      (dn, DrainRouter, st\<lparr>ig_router := update_shard r i (\<lambda>s. s\<lparr>inflight := remove1 k (inflight s)\<rparr>)\<rparr>)"
    using sd_abandon [of i "st\<lparr>ig_router := r\<rparr>" k io S dn DrainRouter] by simp
  with 3(1) show ?case by (meson rtranclp.rtrancl_into_rtrancl shutdown_ok_step)
next
  case (4 dn r i)
  then show ?case
    using router_invD(1) [OF router_run_inv [of numCPU "ingest_router_config cfg" True D S pb dn r]]
    by (auto simp: shutdown_ok_def shard_ok_def)
qed

lemma drain_router:
  assumes "shutdown_ok numCPU cfg D S pb (dn, DrainRouter, st)"
  shows "\<exists>dn' st'. (shutdown_step io S)\<^sup>*\<^sup>* (dn, DrainRouter, st) (dn', DrainPublisher, st')"
proof -
  have "all_closed (ig_router st)" using assms by (simp add: shutdown_ok_def phase_ok_def)
  then obtain dn' r' where r': "(shutdown_step io S)\<^sup>*\<^sup>* (dn, DrainRouter, st) (dn', DrainRouter, st\<lparr>ig_router := r'\<rparr>)"
    "\<forall>s\<in>set (shards r'). quit s \<and> inq s = [] \<and> inflight s = []"
    using closing_daemon.close_completes [where c = "(dn, DrainRouter, st)" and st = st and dn = dn and r = "ig_router st" and io = io and S = S
        and numCPU = numCPU and cfg = cfg and D = D and pb = pb] assms by auto
  then have "router_done (ig_router (st\<lparr>ig_router := r'\<rparr>))" by (simp add: router_done_def)
  from sd_close_publisher [OF this] r'(1) show ?thesis by (meson rtranclp.rtrancl_into_rtrancl)
qed

lemma drain_publisher:
  assumes "phase_ok DrainPublisher st"
  shows "\<exists>st'. (shutdown_step io S)\<^sup>*\<^sup>* (dn, DrainPublisher, st) (dn, DrainRecorder, st')"
  using assms
proof (induction "sum_list (map (\<lambda>s. length (ch s)) (subs (ig_pub st)))" arbitrary: st rule: less_induct)
  case less
  let ?p = "ig_pub st"
  show ?case
  proof (cases "\<forall>s\<in>set (subs ?p). ch s = []")
    case True
    have "set (map ch_closed (subs ?p)) \<subseteq> {True}"
      using less.prems by (auto simp: phase_ok_def publisher_closed_def pub_flags_def set_replicate_conv_if)
    then have "publisher_done ?p" using True by (auto simp: publisher_done_def)
    then show ?thesis by (meson r_into_rtranclp sd_close_recorder)
  next
    case False
    then obtain j where j: "j < length (subs ?p)" "ch (subs ?p ! j) \<noteq> []" by (metis in_set_conv_nth)
    let ?st = "st\<lparr>ig_pub := receive j ?p\<rparr>"
    have step: "shutdown_step io S (dn, DrainPublisher, st) (dn, DrainPublisher, ?st)" by (rule sd_receive [OF j])
    then have "phase_ok DrainPublisher ?st" using phase_ok_step less.prems by fastforce
    moreover have "sum_list (map (\<lambda>s. length (ch s)) (subs (ig_pub ?st))) + length (ch (subs ?p ! j))
        = sum_list (map (\<lambda>s. length (ch s)) (subs ?p)) + length (tl (ch (subs ?p ! j)))"
      using sum_list_map_update [OF j(1), of "\<lambda>s. length (ch s)" "delivery_turn (subs ?p ! j)"] by (simp add: receive_def)
    then have "sum_list (map (\<lambda>s. length (ch s)) (subs (ig_pub ?st))) < sum_list (map (\<lambda>s. length (ch s)) (subs ?p))"
      using j(2) by (cases "ch (subs ?p ! j)") simp_all
    ultimately show ?thesis using less.hyps [of ?st] step by (meson converse_rtranclp_into_rtranclp)
  qed
qed

lemma drain_recorder:
  assumes "phase_ok DrainRecorder st"
  shows "\<exists>st'. (shutdown_step io S)\<^sup>*\<^sup>* (dn, DrainRecorder, st) (dn, Returned, st')"
  using assms
proof (induction "case ig_recorder st of None \<Rightarrow> 0 | Some rc \<Rightarrow> length (rec_in rc)" arbitrary: st rule: less_induct)
  case less
  show ?case
  proof (cases "recorder_done (ig_recorder st)")
    case True
    then show ?thesis by (meson r_into_rtranclp sd_return)
  next
    case False
    then obtain rc where rc: "ig_recorder st = Some rc" by (cases "ig_recorder st") (auto simp: recorder_done_def)
    with False less.prems have q: "rec_in rc \<noteq> []"
      by (auto simp: recorder_done_def phase_ok_def recorder_closed_def rec_flags_def)
    let ?st = "st\<lparr>ig_recorder := Some (run_step io rc)\<rparr>"
    have step: "shutdown_step io S (dn, DrainRecorder, st) (dn, DrainRecorder, ?st)" by (rule sd_write [OF rc])
    then have "phase_ok DrainRecorder ?st" using phase_ok_step less.prems by fastforce
    then show ?thesis using less.hyps [of ?st] step q by (simp add: rc) (meson converse_rtranclp_into_rtranclp)
  qed
qed

lemma drain_all:
  assumes "shutdown_ok numCPU cfg D S pb (dn, ph, st)"
  shows "\<exists>dn' st'. (shutdown_step io S)\<^sup>*\<^sup>* (dn, ph, st) (dn', Returned, st')"
proof -
  let ?to = "\<lambda>c p. \<exists>dn' st'. (shutdown_step io S)\<^sup>*\<^sup>* c (dn', p, st')"
  have chain: "?to c p'" if s: "?to c p" and ok: "shutdown_ok numCPU cfg D S pb c"
    and D: "\<And>dn st. shutdown_ok numCPU cfg D S pb (dn, p, st) \<Longrightarrow> ?to (dn, p, st) p'" for c p p'
  proof -
    obtain dn' st' where s: "(shutdown_step io S)\<^sup>*\<^sup>* c (dn', p, st')" using s by blast
    from D [OF shutdown_ok_steps [OF s ok]] s show ?thesis by (meson rtranclp_trans)
  qed
  have R: "?to (dn, DrainRecorder, st) Returned" if "shutdown_ok numCPU cfg D S pb (dn, DrainRecorder, st)" for dn st
    using drain_recorder [of st io S dn] that by (auto simp: shutdown_ok_def)
  have P: "?to (dn, DrainPublisher, st) Returned" if "shutdown_ok numCPU cfg D S pb (dn, DrainPublisher, st)" for dn st
    using drain_publisher [of st io S dn] that by (intro chain [OF _ that R]) (auto simp: shutdown_ok_def)
  have B: "?to (dn, DrainRouter, st) Returned" if "shutdown_ok numCPU cfg D S pb (dn, DrainRouter, st)" for dn st
    by (rule chain [OF drain_router [OF that] that P])
  have "(shutdown_step io S)\<^sup>*\<^sup>* (dn, StopWorkers n, st) (dn, StopWorkers 0, st)" for dn n st
    by (induction n) (auto intro: converse_rtranclp_into_rtranclp sd_worker)
  then have W: "?to (dn, StopWorkers n, st) Returned" if "shutdown_ok numCPU cfg D S pb (dn, StopWorkers n, st)" for dn n st
    by (intro chain [OF _ that B]) (meson rtranclp.rtrancl_into_rtrancl sd_close_router)
  show ?thesis using R P B W assms by (cases ph) blast+
qed

section \<open>Properties\<close>

text \<open>
  C9. The deferred calls stop the stages in an order that is safe and always can complete. However the loop ended and however the
  goroutines are scheduled from there: as long as a snapshot request is in flight, whose goroutine may
  hand its result to the recorder, the recorder's channel is not closed; no subscriber's channel is
  closed before every shard has returned with its queue empty; the recorder is closed only when the
  subscribers have read everything. When \<open>run\<close> has returned, no goroutine of the book stage is left,
  every event that was published has been handled by its book, each symbol's in order, the subscribers
  have been given everything that was in their channels, and the recorder has taken every entry. And from
  every state on the way the goroutines have steps that bring \<open>run\<close> to its return: no wait in a
  deferred call, for the workers, the shards, the requests in flight, the subscribers or the recorder, is a deadlock.
\<close>

theorem shutdown_in_order:
  assumes "loop_ends numCPU cfg io dec S fr pb dn0 st0" and "deltas_ok dec D fr"
    and "(shutdown_step io S)\<^sup>*\<^sup>* (dn0, StopWorkers n, st0) (dn, ph, st)"
  shows "(\<forall>rc. ig_recorder st = Some rc \<longrightarrow> rec_closed rc \<longrightarrow> router_done (ig_router st) \<and> publisher_done (ig_pub st))
    \<and> (\<forall>s\<in>set (subs (ig_pub st)). ch_closed s \<longrightarrow> router_done (ig_router st) \<and> (\<forall>sh\<in>set (shards (ig_router st)). inq sh = []))
    \<and> (ph = Returned \<longrightarrow> router_done (ig_router st) \<and> publisher_done (ig_pub st) \<and> recorder_done (ig_recorder st)
        \<and> (\<forall>sy. filter (\<lambda>ev. eventSymbol ev = Some sy) dn = filter (\<lambda>ev. eventSymbol ev = Some sy) pb))
    \<and> (\<exists>dn' st'. (shutdown_step io S)\<^sup>*\<^sup>* (dn, ph, st) (dn', Returned, st'))"
proof -
  have ok: "shutdown_ok numCPU cfg D S pb (dn, ph, st)"
    by (rule shutdown_ok_steps [OF assms(3) shutdown_ok_start [OF assms(1,2)]])
  then have run: "router_run numCPU (ingest_router_config cfg) True D S pb dn (ig_router st)" and ph: "phase_ok ph st"
    by (simp_all add: shutdown_ok_def)
  have empty: "inq sh = []" if "router_done (ig_router st)" "sh \<in> set (shards (ig_router st))" for sh
    using that router_invD(1) [OF router_run_inv [OF run]] unfolding router_done_def shard_ok_def by (metis in_set_conv_nth)
  have closed: "publisher_closed ph" if s: "s \<in> set (subs (ig_pub st))" "ch_closed s" for s
  proof -
    have "map ch_closed (subs (ig_pub st)) = replicate (length (subs (ig_pub st))) (publisher_closed ph)"
      using ph by (simp add: phase_ok_def pub_flags_def)
    then have "ch_closed ` set (subs (ig_pub st)) \<subseteq> {publisher_closed ph}" by (metis list.set_map set_replicate_conv_if subset_refl empty_subsetI)
    then show ?thesis using s by auto
  qed
  have "filter (\<lambda>ev. eventSymbol ev = Some sy) dn = filter (\<lambda>ev. eventSymbol ev = Some sy) pb" if "router_done (ig_router st)" for sy
    using routed_split [OF run, of sy] empty [OF that] router_invD(2) [OF router_run_inv [OF run]] by simp
  then show ?thesis
    using ph closed empty drain_all [OF ok, of io] by (auto simp: phase_ok_def rec_flags_def publisher_closed_def recorder_closed_def)
qed

section \<open>A concrete shutdown\<close>

lemma ex_loop_ends:
  "\<exists>st. loop_ends 1 ex_config ex_io ex_decoder (\<lambda>_ _. True) [ex_frame] [ex_decoded] [ex_decoded] st \<and> inflight (shards (ig_router st) ! 0) = [''BTC-USDT'']"
  using ex_daemon [of "\<lambda>_ _. True"] by (auto simp: loop_ends_def ex_stage_handled_facts(3))

lemma ex_deltas_ok: "deltas_ok ex_decoder (\<lambda>_ _. True) [ex_frame]"
  by (simp add: deltas_ok_def)

text \<open>C9 on a recording daemon that is stopped with a snapshot request in flight.\<close>

theorem shutdown_in_order_witness:
  "\<exists>st0 dn st. inflight (shards (ig_router st0) ! 0) \<noteq> []
    \<and> (shutdown_step ex_io (\<lambda>_ _. True))\<^sup>*\<^sup>* ([ex_decoded], StopWorkers 2, st0) (dn, Returned, st)
    \<and> router_done (ig_router st) \<and> publisher_done (ig_pub st) \<and> recorder_done (ig_recorder st)"
proof -
  obtain st0 where st0: "loop_ends 1 ex_config ex_io ex_decoder (\<lambda>_ _. True) [ex_frame] [ex_decoded] [ex_decoded] st0"
    "inflight (shards (ig_router st0) ! 0) = [''BTC-USDT'']" using ex_loop_ends by blast
  obtain dn st where st: "(shutdown_step ex_io (\<lambda>_ _. True))\<^sup>*\<^sup>* ([ex_decoded], StopWorkers 2, st0) (dn, Returned, st)"
    using drain_all [OF shutdown_ok_start [OF st0(1) ex_deltas_ok]] by blast
  with shutdown_in_order [OF st0(1) ex_deltas_ok st] st0(2) show ?thesis by (intro exI [of _ st0] exI [of _ dn] exI [of _ st]) simp
qed

end
