(* ===== verification/Float64.thy ===== *)
theory Float64
  imports Complex_Main "HOL-Library.Log_Nat"
begin

text \<open>
  Go's float64 arithmetic as \<^verbatim>\<open>internal/metrics/histogram.go\<close> uses it. A finite float64 is a rational
  number, and an operation is the exact result rounded to the nearest float64, ties to the even one
  (\<open>fl64\<close>): 53 significant bits, and no bit below \<open>2\<close> to the \<open>-1074\<close>. The range is not cut off at the
  top: the values here stay far below the largest float64. Each operation is rounded on its own, which
  is what the compiler does on amd64; fusing a product into a sum is left out.
\<close>

section \<open>Rounding\<close>

text \<open>To the nearest integer, ties to even.\<close>

definition rne :: "rat \<Rightarrow> int" where
  "rne x = (let f = \<lfloor>x\<rfloor>; d = x - of_int f in if d < 1 / 2 \<or> d = 1 / 2 \<and> even f then f else f + 1)"

text \<open>The binary exponent of a positive number, from the lengths of its numerator and denominator.\<close>

definition ilog2 :: "rat \<Rightarrow> int" where
  "ilog2 x =
    (let (p, q) = quotient_of x; k = int (floorlog 2 (nat p)) - int (floorlog 2 (nat q))
     in if 2 powi k \<le> x then k else k - 1)"

definition fl64 :: "rat \<Rightarrow> rat" where
  "fl64 x =
    (if x = 0 then 0
     else let e = max (- 1074) (ilog2 \<bar>x\<bar> - 52) in of_int (rne (x / 2 powi e)) * 2 powi e)"

text \<open>The conversion of a float64 to an integer truncates.\<close>

definition trunc :: "rat \<Rightarrow> int" where
  "trunc x = (if 0 \<le> x then \<lfloor>x\<rfloor> else \<lceil>x\<rceil>)"

section \<open>Facts\<close>

lemma rne_int [simp]: "rne (of_int k) = k"
  by (simp add: rne_def)

lemma rne_near: "rne x = \<lfloor>x\<rfloor> \<or> rne x = \<lfloor>x\<rfloor> + 1"
  by (simp add: rne_def Let_def)

lemma rne_mono:
  assumes "x \<le> y"
  shows "rne x \<le> rne y"
proof (cases "\<lfloor>x\<rfloor> = \<lfloor>y\<rfloor>")
  case True
  then show ?thesis using assms by (auto simp: rne_def Let_def)
next
  case False
  then have "\<lfloor>x\<rfloor> + 1 \<le> \<lfloor>y\<rfloor>" using floor_mono [OF assms] by simp
  then show ?thesis using rne_near [of x] rne_near [of y] by auto
qed

lemma two_powi_pos [simp]: "0 < (2 :: rat) powi e"
  by (rule zero_less_power_int) simp

lemma two_powi_add: "(2 :: rat) powi (a + b) = 2 powi a * 2 powi b"
  by (rule power_int_add) simp

lemma two_powi_less: "(2 :: rat) powi a < 2 powi b \<longleftrightarrow> a < b"
  by (metis linorder_not_less one_less_numeral_iff order_less_irrefl power_int_increasing power_int_strict_increasing less_imp_le semiring_norm(76))

lemma two_powi_le: "(2 :: rat) powi a \<le> 2 powi b \<longleftrightarrow> a \<le> b"
  by (simp add: linorder_not_less [symmetric] two_powi_less)

lemma floorlog2_bounds:
  assumes "0 < p"
  shows "2 powi (int (floorlog 2 (nat p)) - 1) \<le> (of_int p :: rat)" and "(of_int p :: rat) < 2 powi int (floorlog 2 (nat p))"
proof -
  have b: "2 ^ (floorlog 2 (nat p) - 1) \<le> nat p" "nat p < 2 ^ floorlog 2 (nat p)" "0 < floorlog 2 (nat p)"
    using floorlog_bounds [of "nat p" 2] assms by (simp_all add: floorlog_def)
  have "(of_nat (2 ^ (floorlog 2 (nat p) - 1)) :: rat) \<le> of_nat (nat p)" "(of_nat (nat p) :: rat) < of_nat (2 ^ floorlog 2 (nat p))"
    using b(1,2) by (simp_all only: of_nat_le_iff of_nat_less_iff)
  moreover have "int (floorlog 2 (nat p)) - 1 = int (floorlog 2 (nat p) - 1)" using b(3) by simp
  ultimately show "2 powi (int (floorlog 2 (nat p)) - 1) \<le> (of_int p :: rat)" and "(of_int p :: rat) < 2 powi int (floorlog 2 (nat p))"
    using assms by (simp_all only: power_int_of_nat) simp_all
qed

lemma ilog2_bounds:
  assumes "0 < x"
  shows "2 powi ilog2 x \<le> x" and "x < 2 powi (ilog2 x + 1)"
proof -
  obtain p q where pq: "quotient_of x = (p, q)" by (cases "quotient_of x")
  have x: "x = of_int p / of_int q" and q: "0 < q" using quotient_of_div [OF pq] quotient_of_denom_pos [OF pq] by simp_all
  then have p: "0 < p" using assms by (simp add: zero_less_divide_iff)
  let ?a = "int (floorlog 2 (nat p))" and ?b = "int (floorlog 2 (nat q))"
  note bp = floorlog2_bounds [OF p] and bq = floorlog2_bounds [OF q]
  have "x * of_int q = of_int p" using q by (simp add: x)
  have "2 powi (?a - ?b - 1) * (of_int q :: rat) \<le> 2 powi (?a - ?b - 1) * 2 powi ?b"
    by (rule mult_left_mono [OF less_imp_le [OF bq(2)]]) (simp add: less_imp_le)
  also have "\<dots> = 2 powi (?a - 1)" by (simp only: two_powi_add [symmetric]) simp
  also have "\<dots> \<le> x * of_int q" using bp(1) \<open>x * of_int q = of_int p\<close> by simp
  finally have lo: "2 powi (?a - ?b - 1) \<le> x" using q by simp
  have "x * of_int q < 2 powi ?a" using bp(2) \<open>x * of_int q = of_int p\<close> by simp
  also have "\<dots> = 2 powi (?a - ?b + 1) * 2 powi (?b - 1)" by (simp only: two_powi_add [symmetric]) simp
  also have "\<dots> \<le> 2 powi (?a - ?b + 1) * of_int q" by (rule mult_left_mono [OF bq(1)]) (simp add: less_imp_le)
  finally have "x < 2 powi (?a - ?b + 1)" using q by simp
  with lo show "2 powi ilog2 x \<le> x" and "x < 2 powi (ilog2 x + 1)" by (auto simp: ilog2_def pq Let_def)
qed

lemma ilog2_mono: "0 < x \<Longrightarrow> x \<le> y \<Longrightarrow> ilog2 x \<le> ilog2 y"
  using ilog2_bounds [of x] ilog2_bounds [of y] two_powi_less [of "ilog2 x" "ilog2 y + 1"] by linarith

lemma fl64_0 [simp]: "fl64 0 = 0"
  by (simp add: fl64_def)

lemma fl64_nonneg: "0 \<le> x \<Longrightarrow> 0 \<le> fl64 x"
  using rne_mono [of 0] by (auto simp: fl64_def Let_def rne_def intro!: mult_nonneg_nonneg)

text \<open>Rounding at a fixed exponent.\<close>

definition round_at :: "int \<Rightarrow> rat \<Rightarrow> rat" where
  "round_at e x = of_int (rne (x / 2 powi e)) * 2 powi e"

definition exponent :: "rat \<Rightarrow> int" where
  "exponent x = max (- 1074) (ilog2 x - 52)"

lemma fl64_pos: "0 < x \<Longrightarrow> fl64 x = round_at (exponent x) x"
  by (simp add: fl64_def round_at_def exponent_def Let_def)

lemma round_at_mono: "x \<le> y \<Longrightarrow> round_at e x \<le> round_at e y"
  unfolding round_at_def
  by (intro mult_right_mono) (simp_all add: rne_mono divide_right_mono less_imp_le)

lemma round_at_exact: "round_at e (of_int k * 2 powi e) = of_int k * 2 powi e"
  by (simp add: round_at_def)

lemma round_at_le:
  assumes "x \<le> of_int k * 2 powi e"
  shows "round_at e x \<le> of_int k * 2 powi e"
  using round_at_mono [OF assms, of e] by (simp add: round_at_exact)

lemma round_at_ge:
  assumes "of_int k * 2 powi e \<le> x"
  shows "of_int k * 2 powi e \<le> round_at e x"
  using round_at_mono [OF assms, of e] by (simp add: round_at_exact)

lemma fl64_mono:
  assumes "0 \<le> x" and "x \<le> y"
  shows "fl64 x \<le> fl64 y"
proof (cases "x = 0")
  case True
  then show ?thesis using fl64_nonneg assms by simp
next
  case False
  then have x: "0 < x" and y: "0 < y" using assms by simp_all
  have le: "exponent x \<le> exponent y" using ilog2_mono [OF x assms(2)] by (auto simp: exponent_def)
  show ?thesis
  proof (cases "exponent x = exponent y")
    case True
    then show ?thesis using round_at_mono [OF assms(2)] by (simp add: fl64_pos x y)
  next
    case False
    have split: "(of_int (2 ^ n) :: rat) * 2 powi e = 2 powi (int n + e)" for n e by (simp add: two_powi_add)
    have "x \<le> 2 powi (53 + exponent x)"
      using ilog2_bounds(2) [OF x] two_powi_le [of "ilog2 x + 1" "53 + exponent x"] by (auto simp: exponent_def)
    then have "fl64 x \<le> 2 powi (53 + exponent x)"
      using round_at_le [of x "2 ^ 53" "exponent x"] unfolding split by (simp add: fl64_pos x)
    also have "\<dots> \<le> 2 powi (52 + exponent y)" using le False by (simp only: two_powi_le)
    also have "2 powi (52 + exponent y) \<le> y"
      using ilog2_bounds(1) [OF y] le False by (auto simp: exponent_def)
    then have "2 powi (52 + exponent y) \<le> fl64 y"
      using round_at_ge [of "2 ^ 52" "exponent y" y] unfolding split by (simp add: fl64_pos y)
    finally show ?thesis .
  qed
qed

text \<open>Numbers of up to 53 bits are exact, so rounding twice is rounding once.\<close>

lemma fl64_exact:
  assumes "0 \<le> n" and "n \<le> 2 ^ 53" and "- 1074 \<le> e"
  shows "fl64 (of_int n * 2 powi e) = of_int n * 2 powi e"
proof -
  have small: "fl64 (of_int n * 2 powi e) = of_int n * 2 powi e" if n: "0 < n" "n < 2 ^ 53" and e: "- 1074 \<le> e" for n e
  proof -
    let ?x = "of_int n * 2 powi e :: rat"
    have x: "0 < ?x" using n(1) by (intro mult_pos_pos) simp_all
    have "(of_int n :: rat) < of_int (2 ^ 53)" using n(2) by (simp only: of_int_less_iff)
    then have "(of_int n :: rat) < 2 powi 53" by simp
    then have "?x < 2 powi (53 + e)" by (simp add: two_powi_add)
    then have "ilog2 ?x < 53 + e" using ilog2_bounds(1) [OF x] two_powi_less [of "ilog2 ?x" "53 + e"] by linarith
    then have "exponent ?x \<le> e" using e by (simp add: exponent_def)
    then obtain k where k: "e = exponent ?x + int k" using zle_iff_zadd by blast
    have "of_int (n * 2 ^ k) * 2 powi exponent ?x = ?x" by (subst (2) k) (simp add: two_powi_add)
    with round_at_exact [of "exponent ?x" "n * 2 ^ k"] show ?thesis by (simp only: fl64_pos [OF x])
  qed
  consider "n = 0" | "0 < n" "n < 2 ^ 53" | "n = 2 ^ 53" using assms(1,2) by linarith
  then show ?thesis
  proof cases
    case 3
    have "of_int n * 2 powi e = (of_int (2 ^ 52) * 2 powi (e + 1) :: rat)" by (simp add: 3 two_powi_add)
    with small [of "2 ^ 52" "e + 1"] assms(3) show ?thesis by simp
  qed (use small assms(3) in simp_all)
qed

lemma fl64_int: "0 \<le> n \<Longrightarrow> n \<le> 2 ^ 53 \<Longrightarrow> fl64 (of_int n) = of_int n"
  using fl64_exact [of n 0] by simp

lemma fl64_idem:
  assumes "0 \<le> x"
  shows "fl64 (fl64 x) = fl64 x"
proof (cases "x = 0")
  case False
  then have x: "0 < x" using assms by simp
  let ?m = "rne (x / 2 powi exponent x)"
  have "x \<le> 2 powi (53 + exponent x)"
    using ilog2_bounds(2) [OF x] two_powi_le [of "ilog2 x + 1" "53 + exponent x"] by (auto simp: exponent_def)
  then have "x / 2 powi exponent x \<le> of_int (2 ^ 53)" by (simp add: pos_divide_le_eq two_powi_add)
  then have "?m \<le> 2 ^ 53" using rne_mono [of _ "of_int (2 ^ 53)"] by (simp only: rne_int)
  moreover have "0 \<le> ?m" using rne_mono [of "of_int 0" "x / 2 powi exponent x"] x by (simp only: rne_int) simp
  ultimately show ?thesis using fl64_exact [of ?m "exponent x"] by (simp add: fl64_pos [OF x] round_at_def exponent_def)
qed simp

lemma fl64_le:
  assumes "0 \<le> x" and "x \<le> y" and "fl64 y = y"
  shows "fl64 x \<le> y"
  using fl64_mono [OF assms(1,2)] assms(3) by simp

end
