(* ===== verification/Quantile.thy ===== *)
theory Quantile
  imports Histogram Float64
begin

text \<open>
  \<open>Histogram.Quantile\<close> of \<^verbatim>\<open>internal/metrics/histogram.go\<close>, over the float64 arithmetic of \<open>Float64\<close>:
  the loop over the buckets, the interpolation inside the one the quantile falls in, and the two
  accesses to the largest bound, which panic when there is none.
\<close>

text \<open>\<open>None\<close> is the panic of \<open>h.bounds[len(h.bounds)-1]\<close>.\<close>

definition largest_bound :: "int list \<Rightarrow> int option" where
  "largest_bound bs = (if bs = [] then None else Some (bs ! (length bs - 1)))"

definition interpolate :: "int \<Rightarrow> int \<Rightarrow> rat \<Rightarrow> int" where
  "interpolate lower upper portion = wrap64 (lower + trunc (fl64 (fl64 (of_int (wrap64 (upper - lower))) * portion)))"

fun quantile_loop :: "rat \<Rightarrow> int list \<Rightarrow> u64 list \<Rightarrow> nat \<Rightarrow> rat \<Rightarrow> rat \<Rightarrow> int \<Rightarrow> int option" where
  "quantile_loop want bs [] i cum prevCum lower = largest_bound bs"
| "quantile_loop want bs (c # cs) i cum prevCum lower =
    (let cum = fl64 (cum + fl64 (of_nat (unat c)))
     in if cum < want
        then quantile_loop want bs cs (i + 1) cum cum (if i < length bs then bs ! i else lower)
        else if i \<ge> length bs then largest_bound bs
        else let upper = bs ! i; inBucket = fl64 (cum - prevCum)
          in if inBucket \<le> 0 then Some upper
             else Some (interpolate lower upper (fl64 (fl64 (want - prevCum) / inBucket))))"

definition Quantile :: "rat \<Rightarrow> Histogram \<Rightarrow> int option" where
  "Quantile q h =
    (let n = h_total h
     in if n = 0 then Some 0
        else let q = (if q \<le> 0 then 0 else if q \<ge> 1 then 1 else q); want = fl64 (q * fl64 (of_nat (unat n)))
          in quantile_loop want (bounds h) (counts h) 0 0 0 0)"

section \<open>Interpolation stays inside the bucket\<close>

lemma wrap64_small: "0 \<le> x \<Longrightarrow> x \<le> 2 ^ 53 \<Longrightarrow> wrap64 x = x"
  by (rule wrap64_id) (simp add: in_i64_def MinInt64_def MaxInt64_def)

lemma trunc_mono: "0 \<le> x \<Longrightarrow> x \<le> y \<Longrightarrow> trunc x \<le> trunc y"
  by (simp add: trunc_def floor_mono)

lemma interpolate_eq:
  assumes "0 \<le> lower" and "lower \<le> upper" and "upper \<le> 2 ^ 53" and "0 \<le> portion" and "portion \<le> 1"
  shows "interpolate lower upper portion = lower + trunc (fl64 (of_int (upper - lower) * portion))"
    and "0 \<le> fl64 (of_int (upper - lower) * portion)" and "trunc (fl64 (of_int (upper - lower) * portion)) \<le> upper - lower"
proof -
  let ?w = "of_int (upper - lower) :: rat" and ?x = "fl64 (of_int (upper - lower) * portion)"
  have w: "fl64 ?w = ?w" by (rule fl64_int) (use assms in simp_all)
  show x: "0 \<le> ?x" using assms by (intro fl64_nonneg mult_nonneg_nonneg) simp_all
  have "?x \<le> ?w" using assms by (intro fl64_le [OF _ _ w]) (simp_all add: mult_left_le)
  with x have t: "0 \<le> trunc ?x" "trunc ?x \<le> upper - lower" by (simp_all add: trunc_def floor_le_iff le_floor_iff)
  then show "trunc ?x \<le> upper - lower" by blast
  have "wrap64 (upper - lower) = upper - lower" using assms by (intro wrap64_small) simp_all
  moreover have "wrap64 (lower + trunc ?x) = lower + trunc ?x" using assms t by (intro wrap64_small) simp_all
  ultimately show "interpolate lower upper portion = lower + trunc ?x" using w by (simp add: interpolate_def)
qed

lemma interpolate_bounds:
  assumes "0 \<le> lower" and "lower \<le> upper" and "upper \<le> 2 ^ 53" and "0 \<le> portion" and "portion \<le> 1"
  shows "lower \<le> interpolate lower upper portion \<and> interpolate lower upper portion \<le> upper"
  using interpolate_eq [OF assms] trunc_mono [of 0 "fl64 (of_int (upper - lower) * portion)"] by (simp add: trunc_def)

lemma interpolate_mono:
  assumes "0 \<le> lower" and "lower \<le> upper" and "upper \<le> 2 ^ 53" and "0 \<le> a" and "a \<le> b" and "b \<le> 1"
  shows "interpolate lower upper a \<le> interpolate lower upper b"
proof -
  have "a \<le> 1" "0 \<le> b" using assms(4-6) by simp_all
  moreover have "of_int (upper - lower) * a \<le> of_int (upper - lower) * b" using assms(2,5) by (intro mult_left_mono) simp_all
  moreover have "0 \<le> of_int (upper - lower) * a" using assms(2,4) by (intro mult_nonneg_nonneg) simp_all
  ultimately show ?thesis
    using interpolate_eq [OF assms(1-3)] assms(4,6) by (simp only: add_le_cancel_left) (intro trunc_mono fl64_mono fl64_nonneg)
qed

section \<open>Where the loop stops\<close>

definition run :: "u64 list \<Rightarrow> nat" where
  "run cs = sum_list (map unat cs)"

lemma run_simps [simp]: "run [] = 0" "run (c # cs) = unat c + run cs" "run (cs @ ds) = run cs + run ds"
  by (simp_all add: run_def)

lemma fl64_nat: "n \<le> 2 ^ 53 \<Longrightarrow> fl64 (of_nat n) = of_nat n"
  using fl64_int [of "int n"] by simp

text \<open>
  While the counts add up to at most 53 bits the sums are exact, and the loop returns from the first
  bucket whose running count reaches \<open>want\<close>.
\<close>

lemma quantile_loop_stop:
  assumes "j < length cs" and "\<forall>k<j. of_nat (c0 + run (take (Suc k) cs)) < want"
    and "want \<le> of_nat (c0 + run (take (Suc j) cs))" and "c0 + run cs \<le> 2 ^ 53" and "i + length cs = length bs + 1"
  shows "quantile_loop want bs cs i (of_nat c0) (of_nat c0) lower =
    (if i + j \<ge> length bs then largest_bound bs
     else let lower = (if j = 0 then lower else bs ! (i + j - 1)); upper = bs ! (i + j); c = of_nat (unat (cs ! j))
       in if c \<le> 0 then Some upper
          else Some (interpolate lower upper (fl64 (fl64 (want - of_nat (c0 + run (take j cs))) / c))))"
  using assms
proof (induction cs arbitrary: i j c0 lower)
  case (Cons c cs)
  have "fl64 (of_nat (unat c)) = of_nat (unat c)" "fl64 (of_nat (c0 + unat c)) = of_nat (c0 + unat c)"
    using Cons.prems(4) by (intro fl64_nat; simp)+
  then have cum: "fl64 (of_nat c0 + fl64 (of_nat (unat c))) = of_nat (c0 + unat c)" by simp
  have c: "fl64 (of_nat (c0 + unat c) - of_nat c0) = of_nat (unat c)"
    using \<open>fl64 (of_nat (unat c)) = of_nat (unat c)\<close> by simp
  show ?case
  proof (cases j)
    case 0
    then have "\<not> of_nat (c0 + unat c) < want" using Cons.prems(3) by (simp add: not_less)
    then show ?thesis by (simp only: quantile_loop.simps cum c Let_def 0) simp
  next
    case (Suc k)
    have lt: "of_nat (c0 + unat c) < want" using Cons.prems(2) Suc by force
    have "\<forall>l<k. of_nat (c0 + unat c + run (take (Suc l) cs)) < want"
    proof (intro allI impI)
      fix l assume "l < k"
      then show "of_nat (c0 + unat c + run (take (Suc l) cs)) < want" using Cons.prems(2) [rule_format, of "Suc l"] Suc by (simp add: add.assoc)
    qed
    moreover have "want \<le> of_nat (c0 + unat c + run (take (Suc k) cs))" using Cons.prems(3) Suc by (simp add: add.assoc)
    moreover have "k < length cs" "c0 + unat c + run cs \<le> 2 ^ 53" "i + 1 + length cs = length bs + 1" using Cons.prems Suc by simp_all
    moreover from this have "i < length bs" by linarith
    ultimately have "quantile_loop want bs (c # cs) i (of_nat c0) (of_nat c0) lower =
      (if i + 1 + k \<ge> length bs then largest_bound bs
       else let lower = (if k = 0 then bs ! i else bs ! (i + 1 + k - 1)); upper = bs ! (i + 1 + k); c' = of_nat (unat (cs ! k))
         in if c' \<le> 0 then Some upper
            else Some (interpolate lower upper (fl64 (fl64 (want - of_nat (c0 + unat c + run (take k cs))) / c'))))"
      using Cons.IH [of k "c0 + unat c" "i + 1" "bs ! i"] lt by (simp only: quantile_loop.simps cum Let_def if_True simp_thms)
    then show ?thesis by (simp add: Suc Let_def add.assoc)
  qed
qed simp

section \<open>The bucket of the k-th observation\<close>

lemma sorted_nth_le:
  assumes "sorted xs" and "k < length xs"
  shows "xs ! k \<le> b \<longleftrightarrow> k < length (filter (\<lambda>x. x \<le> b) xs)"
  using assms
proof (induction xs arbitrary: k)
  case (Cons x xs)
  show ?case
  proof (cases "x \<le> b")
    case True
    then show ?thesis using Cons by (cases k) simp_all
  next
    case False
    then have "filter (\<lambda>y. y \<le> b) (x # xs) = []" using Cons.prems(1) by (auto simp: filter_empty_conv)
    moreover have "x \<le> (x # xs) ! k" using Cons.prems by (cases k) auto
    ultimately show ?thesis using False by auto
  qed
qed simp

lemma run_counts:
  assumes "counts_ok bs ds h" and "length ds \<le> 2 ^ 53" and "i \<le> length bs"
  shows "run (take (Suc i) (counts h)) = length (filter (\<lambda>d. 0 \<le> d \<and> bucket bs d \<le> i) ds)"
  using assms(3)
proof (induction i)
  case 0
  have "length (filter (\<lambda>d. 0 \<le> d \<and> bucket bs d = 0) ds) \<le> 2 ^ 53"
    by (rule order_trans [OF length_filter_le assms(2)])
  then show ?case using assms(1) by (cases "counts h") (auto simp: counts_ok_def unat_of_nat)
next
  case (Suc i)
  have "length (filter (\<lambda>d. 0 \<le> d \<and> bucket bs d = Suc i) ds) \<le> 2 ^ 53"
    by (rule order_trans [OF length_filter_le assms(2)])
  then have "unat (counts h ! Suc i) = length (filter (\<lambda>d. 0 \<le> d \<and> bucket bs d = Suc i) ds)"
    using assms(1) Suc.prems by (auto simp: counts_ok_def unat_of_nat)
  moreover have "Suc i < length (counts h)" using assms(1) Suc.prems by (simp add: counts_ok_def)
  ultimately show ?case using Suc by (simp add: take_Suc_conv_app_nth [of "Suc i"] filter_bucket_Suc)
qed

lemma filter_sort_length: "length (filter P (sort xs)) = length (filter P xs)" for xs :: "int list"
  by (metis filter_sort length_sort)

text \<open>
  The running count reaches \<open>k\<close> in the bucket of the \<open>k\<close>-th smallest observation and not before.
\<close>

lemma run_reaches:
  assumes "sorted_wrt (<) bs" and "counts_ok bs ds h" and "length ds \<le> 2 ^ 53" and "i \<le> length bs"
    and "k < length (filter (\<lambda>d. 0 \<le> d) ds)"
  shows "Suc k \<le> run (take (Suc i) (counts h)) \<longleftrightarrow> bucket bs (sort (filter (\<lambda>d. 0 \<le> d) ds) ! k) \<le> i"
proof (cases "i < length bs")
  case True
  have "(\<lambda>d. 0 \<le> d \<and> bucket bs d \<le> i) = (\<lambda>d. 0 \<le> d \<and> d \<le> bs ! i)"
    using bucket_spec(2) [OF assms(1) True] by auto
  then have "run (take (Suc i) (counts h)) = length (filter (\<lambda>d. d \<le> bs ! i) (sort (filter (\<lambda>d. 0 \<le> d) ds)))"
    using run_counts [OF assms(2,3,4)] by (simp add: filter_sort_length)
  then show ?thesis
    using sorted_nth_le [of "sort (filter (\<lambda>d. 0 \<le> d) ds)" k "bs ! i"] assms(5) bucket_spec(2) [OF assms(1) True] by (simp add: Suc_le_eq)
next
  case False
  then have "i = length bs" using assms(4) by simp
  then show ?thesis
    using run_counts [OF assms(2,3,4)] assms(5) bucket_spec(1) [OF assms(1)] by (simp add: Suc_le_eq)
qed

text \<open>The rank asked for.\<close>

definition rank :: "rat \<Rightarrow> nat \<Rightarrow> nat" where
  "rank q n = nat \<lceil>fl64 (min q 1 * of_nat n)\<rceil>"

lemma want_bounds:
  assumes "0 < q" and "fl64 q = q" and "0 < n" and "n \<le> 2 ^ 53"
  shows "0 < fl64 (min q 1 * of_nat n)" and "fl64 (min q 1 * of_nat n) \<le> of_nat n"
proof -
  have "fl64 (min q 1) = min q 1" using assms(2) fl64_nat [of 1] by (simp add: min_def)
  moreover have "min q 1 \<le> min q 1 * of_nat n" using assms(1,3) by (simp add: min_def)
  ultimately have "min q 1 \<le> fl64 (min q 1 * of_nat n)" using fl64_mono [of "min q 1" "min q 1 * of_nat n"] assms(1) by simp
  then show "0 < fl64 (min q 1 * of_nat n)" using assms(1) by (simp add: min_def split: if_splits)
  show "fl64 (min q 1 * of_nat n) \<le> of_nat n"
    using assms(1) by (intro fl64_le fl64_nat assms(4)) (auto simp: min_def mult_left_le_one_le)
qed

lemma nat_ceiling_le: "0 < w \<Longrightarrow> nat \<lceil>w\<rceil> \<le> n \<longleftrightarrow> w \<le> of_nat n" for w :: rat
  by (simp add: nat_le_iff ceiling_le_iff)

lemma portion_bounds:
  assumes "0 \<le> w" and "w \<le> of_nat c" and "0 < c" and "c \<le> 2 ^ 53"
  shows "0 \<le> fl64 (fl64 w / of_nat c)" and "fl64 (fl64 w / of_nat c) \<le> 1"
proof -
  have w: "0 \<le> fl64 w" "fl64 w \<le> of_nat c" using assms by (auto intro: fl64_nonneg fl64_le [OF _ _ fl64_nat])
  then show "0 \<le> fl64 (fl64 w / of_nat c)" by (intro fl64_nonneg) simp
  show "fl64 (fl64 w / of_nat c) \<le> 1" using w assms(3) fl64_nat [of 1] by (intro fl64_le) simp_all
qed

text \<open>
  \<open>want\<close> falls in bucket \<open>j\<close>: the counts before it do not reach it and with the bucket's they do. The
  estimate there is the largest bound in the last bucket and an interpolation in any other.
\<close>

definition lands :: "int list \<Rightarrow> u64 list \<Rightarrow> rat \<Rightarrow> nat \<Rightarrow> bool" where
  "lands bs cs w j \<longleftrightarrow> j \<le> length bs \<and> length cs = length bs + 1 \<and> run cs \<le> 2 ^ 53
    \<and> of_nat (run (take j cs)) < w \<and> w \<le> of_nat (run (take (Suc j) cs))"

definition lower_bound :: "int list \<Rightarrow> nat \<Rightarrow> int" where
  "lower_bound bs j = (if j = 0 then 0 else bs ! (j - 1))"

definition estimate :: "int list \<Rightarrow> u64 list \<Rightarrow> rat \<Rightarrow> nat \<Rightarrow> int" where
  "estimate bs cs w j =
    (if j = length bs then bs ! (j - 1)
     else interpolate (lower_bound bs j) (bs ! j) (fl64 (fl64 (w - of_nat (run (take j cs))) / of_nat (unat (cs ! j)))))"

lemma run_take_mono: "i \<le> k \<Longrightarrow> run (take i cs) \<le> run (take k cs)"
proof -
  assume "i \<le> k"
  then have "take k cs = take i cs @ take (k - i) (drop i cs)" by (simp flip: take_add)
  then show ?thesis by simp
qed

lemma lands_count:
  assumes "lands bs cs w j"
  shows "0 < unat (cs ! j)" and "unat (cs ! j) \<le> 2 ^ 53" and "0 \<le> w - of_nat (run (take j cs))"
    and "w - of_nat (run (take j cs)) \<le> of_nat (unat (cs ! j))"
proof -
  have R: "run (take (Suc j) cs) = run (take j cs) + unat (cs ! j)" using assms by (simp add: lands_def take_Suc_conv_app_nth)
  have lt: "of_nat (run (take j cs)) < w" "w \<le> of_nat (run (take j cs)) + of_nat (unat (cs ! j))"
    using assms R by (simp_all add: lands_def)
  then show "0 < unat (cs ! j)" "0 \<le> w - of_nat (run (take j cs))" "w - of_nat (run (take j cs)) \<le> of_nat (unat (cs ! j))"
    by (auto intro!: gr0I simp del: unat_gt_0 simp: unat_eq_zero)
  have "run cs \<le> 2 ^ 53" "run (take (Suc j) cs) \<le> run cs"
    using assms run_take_mono [of "Suc j" "length cs" cs] by (simp_all add: lands_def)
  with R show "unat (cs ! j) \<le> 2 ^ 53" by linarith
qed

lemma loop_estimate:
  assumes "lands bs cs w j" and "bs \<noteq> []"
  shows "quantile_loop w bs cs 0 0 0 0 = Some (estimate bs cs w j)"
proof -
  have "of_nat (0 + run (take (Suc k) cs)) < w" if "k < j" for k
  proof -
    have "(of_nat (run (take (Suc k) cs)) :: rat) \<le> of_nat (run (take j cs))" using run_take_mono [of "Suc k" j cs] that by simp
    then show ?thesis using assms(1) by (simp add: lands_def)
  qed
  moreover have "w \<le> of_nat (0 + run (take (Suc j) cs))" "j < length cs" "0 + run cs \<le> 2 ^ 53" "0 + length cs = length bs + 1"
    using assms(1) by (simp_all add: lands_def)
  ultimately have "quantile_loop w bs cs 0 (of_nat 0) (of_nat 0) 0 = (if 0 + j \<ge> length bs then largest_bound bs
     else let lower = (if j = 0 then 0 else bs ! (0 + j - 1)); upper = bs ! (0 + j); c = of_nat (unat (cs ! j))
       in if c \<le> 0 then Some upper
          else Some (interpolate lower upper (fl64 (fl64 (w - of_nat (0 + run (take j cs))) / c))))"
    by (intro quantile_loop_stop) simp_all
  moreover have "length bs \<le> 0 + j \<longleftrightarrow> j = length bs" using assms(1) by (auto simp: lands_def)
  moreover have "\<not> (of_nat (unat (cs ! j)) :: rat) \<le> 0" using lands_count(1) [OF assms(1)] by (simp only: not_le of_nat_0_less_iff)
  moreover have "largest_bound bs = Some (bs ! (length bs - 1))" using assms(2) by (simp add: largest_bound_def)
  ultimately have "quantile_loop w bs cs 0 (of_nat 0) (of_nat 0) 0 = Some (estimate bs cs w j)"
    by (cases "j = length bs") (simp_all only: Let_def if_False if_True add_0 estimate_def lower_bound_def simp_thms)
  then show ?thesis by simp
qed

lemma bounds_mono: "sorted_wrt (<) bs \<Longrightarrow> k \<le> l \<Longrightarrow> l < length bs \<Longrightarrow> bs ! k \<le> bs ! l" for bs :: "int list"
  by (cases "k = l") (auto simp: sorted_wrt_iff_nth_less intro: less_imp_le)

lemma bucket_bounds:
  assumes "sorted_wrt (<) bs" and "\<forall>b\<in>set bs. 0 \<le> b \<and> b \<le> 2 ^ 53" and "j < length bs"
  shows "0 \<le> lower_bound bs j" and "lower_bound bs j \<le> bs ! j" and "bs ! j \<le> 2 ^ 53"
  using assms(2,3) bounds_mono [OF assms(1), of "j - 1" j] by (auto simp: lower_bound_def)

lemma estimate_bounds:
  assumes "lands bs cs w j" and "sorted_wrt (<) bs" and "\<forall>b\<in>set bs. 0 \<le> b \<and> b \<le> 2 ^ 53" and "j < length bs"
  shows "lower_bound bs j \<le> estimate bs cs w j \<and> estimate bs cs w j \<le> bs ! j"
  using interpolate_bounds [OF bucket_bounds [OF assms(2-4)] portion_bounds [OF lands_count(3,4,1,2) [OF assms(1)]]] assms(4)
  by (simp add: estimate_def del: unat_gt_0)

text \<open>A greater quantile lands in the same bucket or in a later one.\<close>

lemma lands_mono:
  assumes "lands bs cs w j" and "lands bs cs w' j'" and "w \<le> w'"
  shows "j \<le> j'"
proof (rule ccontr)
  assume "\<not> j \<le> j'"
  then have "(of_nat (run (take (Suc j') cs)) :: rat) \<le> of_nat (run (take j cs))" using run_take_mono [of "Suc j'" j cs] by simp
  then show False using assms by (simp add: lands_def)
qed

lemma estimate_mono:
  assumes "lands bs cs w j" and "lands bs cs w' j'" and "w \<le> w'" and "sorted_wrt (<) bs" and "\<forall>b\<in>set bs. 0 \<le> b \<and> b \<le> 2 ^ 53"
  shows "estimate bs cs w j \<le> estimate bs cs w' j'"
proof (cases "j = j'")
  case True
  show ?thesis
  proof (cases "j < length bs")
    case jl: True
    let ?c = "unat (cs ! j)" and ?P = "\<lambda>w. fl64 (fl64 (w - of_nat (run (take j cs))) / of_nat (unat (cs ! j)))"
    have "fl64 (w - of_nat (run (take j cs))) \<le> fl64 (w' - of_nat (run (take j cs)))"
      using lands_count(3) [OF assms(1)] assms(3) by (intro fl64_mono) simp_all
    moreover have "0 \<le> fl64 (w - of_nat (run (take j cs)))" by (rule fl64_nonneg [OF lands_count(3) [OF assms(1)]])
    ultimately have "?P w \<le> ?P w'"
      by (intro fl64_mono [OF divide_nonneg_nonneg divide_right_mono]) (assumption | rule of_nat_0_le_iff)+
    moreover have "0 \<le> ?P w" "?P w' \<le> 1"
      using portion_bounds [OF lands_count(3,4,1,2) [OF assms(1)]] portion_bounds [OF lands_count(3,4,1,2) [OF assms(2)]] True by simp_all
    ultimately show ?thesis
      using interpolate_mono [OF bucket_bounds [OF assms(4,5) jl]] True jl by (simp add: estimate_def)
  next
    case False
    then show ?thesis using assms(1,2) True by (simp add: estimate_def lands_def)
  qed
next
  case False
  then have lt: "j < j'" "j < length bs" "j' - 1 < length bs" using lands_mono [OF assms(1-3)] assms(2) by (auto simp: lands_def)
  have "estimate bs cs w j \<le> bs ! j" using estimate_bounds [OF assms(1,4,5) lt(2)] by blast
  also have "bs ! j \<le> bs ! (j' - 1)" using lt by (intro bounds_mono [OF assms(4)]) simp_all
  also have "bs ! (j' - 1) \<le> estimate bs cs w' j'"
    using estimate_bounds [OF assms(2,4,5)] lt(1) assms(2) by (cases "j' = length bs") (auto simp: estimate_def lower_bound_def lands_def)
  finally show ?thesis .
qed

text \<open>What \<open>Quantile\<close> returns, by the observation at the rank asked for.\<close>

lemma Quantile_lands:
  assumes "sorted_wrt (<) bs" and "counts_ok bs ds h" and "length ds \<le> 2 ^ 53" and "bs \<noteq> []" and "0 < q" and "fl64 q = q"
    and n: "n = length (filter (\<lambda>d. 0 \<le> d) ds)" and "0 < n"
  defines "j \<equiv> bucket bs (sort (filter (\<lambda>d. 0 \<le> d) ds) ! (rank q n - 1))" and "w \<equiv> fl64 (min q 1 * of_nat n)"
  shows "0 < rank q n" and "rank q n \<le> n" and "lands bs (counts h) w j" and "Quantile q h = Some (estimate bs (counts h) w j)"
proof -
  let ?R = "\<lambda>i. run (take i (counts h))"
  have n53: "n \<le> 2 ^ 53" unfolding n by (rule order_trans [OF length_filter_le assms(3)])
  note w = want_bounds [OF assms(5,6,8) n53, folded w_def]
  show k: "0 < rank q n" "rank q n \<le> n" using w by (simp_all add: rank_def nat_le_iff ceiling_le_iff flip: w_def)
  have j: "j \<le> length bs" unfolding j_def by (rule bucket_spec(1) [OF assms(1)])
  have len: "length (counts h) = length bs + 1" and bnd: "bounds h = bs" using assms(2) by (simp_all add: counts_ok_def)
  have kl: "rank q n - 1 < length (filter (\<lambda>d. 0 \<le> d) ds)" using k n by simp
  have reach: "w \<le> of_nat (?R (Suc i)) \<longleftrightarrow> j \<le> i" if "i \<le> length bs" for i
    using run_reaches [OF assms(1-3) that kl] k(1) nat_ceiling_le [OF w(1), of "?R (Suc i)"]
    by (simp add: j_def rank_def flip: w_def)
  have "run (counts h) = n"
    using run_counts [OF assms(2,3), of "length bs"] bucket_spec(1) [OF assms(1)] n len by simp
  moreover have "of_nat (?R j) < w" using reach [of "j - 1"] j w(1) by (cases j) simp_all
  ultimately show L: "lands bs (counts h) w j" using reach [OF j] j len n53 by (simp add: lands_def)
  have "h_total h = of_nat n" "unat (of_nat n :: u64) = n" using assms(2) n n53 by (auto simp: counts_ok_def unat_of_nat)
  then have "h_total h \<noteq> 0" "fl64 (of_nat (unat (h_total h))) = of_nat n" using \<open>0 < n\<close> fl64_nat [OF n53] by auto
  moreover have "(if q \<le> 0 then 0 else if q \<ge> 1 then 1 else q) = min q 1" using assms(5) by (simp add: min_def)
  ultimately have "Quantile q h = quantile_loop w bs (counts h) 0 0 0 0" by (simp add: Quantile_def Let_def bnd w_def)
  with loop_estimate [OF L assms(4)] show "Quantile q h = Some (estimate bs (counts h) w j)" by simp
qed

section \<open>Results exist and are ordered\<close>

lemma quantile_loop_total: "bs \<noteq> [] \<Longrightarrow> \<exists>v. quantile_loop w bs cs i cum prev lower = Some v"
  by (induction cs arbitrary: i cum prev lower) (auto simp: largest_bound_def Let_def)

lemma Quantile_total: "bounds h \<noteq> [] \<Longrightarrow> \<exists>v. Quantile q h = Some v"
  by (simp add: Quantile_def Let_def quantile_loop_total)

lemma Quantile_mono:
  assumes "bs \<noteq> []" and "\<forall>b\<in>set bs. 0 \<le> b \<and> b \<le> 2 ^ 53" and "length ds \<le> 2 ^ 53" and "\<exists>d\<in>set ds. 0 \<le> d"
    and "0 < q" and "q \<le> q'" and "fl64 q = q" and "fl64 q' = q'"
    and "Quantile q (observed (NewHistogram name help bs) ds) = Some v" and "Quantile q' (observed (NewHistogram name help bs) ds) = Some v'"
  shows "v \<le> v'"
proof -
  let ?bs = "remdups_adj (sort bs)" and ?h = "observed (NewHistogram name help bs) ds"
  have s: "sorted_wrt (<) ?bs" by (rule remdups_adj_strict) simp
  have ok: "counts_ok ?bs ds ?h" by (rule observed_counts_ok [OF s counts_ok_new])
  have bs: "?bs \<noteq> []" using assms(1) by (auto simp flip: set_empty)
  have n: "0 < length (filter (\<lambda>d. 0 \<le> d) ds)" using assms(4) by (auto simp: filter_empty_conv)
  have "0 < q'" using assms(5,6) by simp
  note Q = Quantile_lands [OF s ok assms(3) bs assms(5,7) refl n] and Q' = Quantile_lands [OF s ok assms(3) bs this assms(8) refl n]
  have "fl64 (min q 1 * of_nat (length (filter (\<lambda>d. 0 \<le> d) ds))) \<le> fl64 (min q' 1 * of_nat (length (filter (\<lambda>d. 0 \<le> d) ds)))"
    using assms(5,6) by (intro fl64_mono mult_right_mono mult_nonneg_nonneg) (auto simp: min_def)
  from estimate_mono [OF Q(3) Q'(3) this s] assms(2) show ?thesis using Q(4) Q'(4) assms(9,10) by simp
qed

section \<open>Properties\<close>

lemma bucket_neighbours:
  fixes x :: int
  assumes "sorted_wrt (<) bs" and "\<forall>b\<in>set bs. 0 \<le> b"
  defines "j \<equiv> bucket bs x"
  shows "j = length bs \<longleftrightarrow> (\<forall>b\<in>set bs. b < x)"
    and "j = length bs \<Longrightarrow> bs \<noteq> [] \<Longrightarrow> bs ! (j - 1) = Max (set bs)"
    and "j < length bs \<Longrightarrow> bs ! j = Min {b\<in>set bs. x \<le> b}"
    and "lower_bound bs j = Max (insert 0 {b\<in>set bs. b < x})"
proof -
  have B: "j \<le> length bs" "\<And>k. k < length bs \<Longrightarrow> x \<le> bs ! k \<longleftrightarrow> j \<le> k"
    unfolding j_def by (rule bucket_spec [OF assms(1)])+
  note mono = bounds_mono [OF assms(1)]
  show "j = length bs \<longleftrightarrow> (\<forall>b\<in>set bs. b < x)"
    using B by (auto simp: in_set_conv_nth not_le [symmetric]) (metis B le_neq_implies_less nth_mem order_refl)
  show "bs ! (j - 1) = Max (set bs)" if "j = length bs" "bs \<noteq> []"
    using that nth_mem [of "length bs - 1" bs] by (intro Max_eqI [symmetric]) (auto simp: in_set_conv_nth [of _ bs] intro: mono)
  show "bs ! j = Min {b\<in>set bs. x \<le> b}" if "j < length bs"
    using that B by (intro Min_eqI [symmetric]) (auto simp: in_set_conv_nth intro: mono)
  show "lower_bound bs j = Max (insert 0 {b\<in>set bs. b < x})"
  proof (cases j)
    case 0
    then have "{b\<in>set bs. b < x} = {}" using B by (auto simp: in_set_conv_nth not_le [symmetric])
    then have "Max (insert 0 {b\<in>set bs. b < x}) = 0" by (simp only: Max_singleton)
    then show ?thesis using 0 by (simp add: lower_bound_def)
  next
    case (Suc i)
    have i: "bs ! i \<in> set bs" "bs ! i < x" using Suc B(1) B(2) [of i] by (simp_all add: not_le [symmetric])
    have "b \<le> bs ! i" if b: "b \<in> set bs" "b < x" for b
    proof -
      obtain k where k: "k < length bs" "b = bs ! k" using b(1) by (metis in_set_conv_nth)
      then have "k \<le> i" using b(2) B(2) [OF k(1)] Suc by auto
      then show ?thesis using k mono [of k i] Suc B(1) by simp
    qed
    then have "Max (insert 0 {b\<in>set bs. b < x}) = bs ! i" using i assms(2) by (intro Max_eqI) auto
    then show ?thesis using Suc by (simp add: lower_bound_def)
  qed
qed

text \<open>
  C34. A quantile is as accurate as its bucket, rounding included. Observe any durations, no more than
  \<open>2\<close> to the 53 of them and not all negative, in a histogram over at least one bound, each between
  zero and \<open>2\<close> to the 53 nanoseconds, and ask for a quantile \<open>q\<close> above zero. Let \<open>x\<close> be the
  observation at the rank asked for: the \<open>\<lceil>q n\<rceil>\<close>-th smallest, with the product a float64, of the
  \<open>n\<close> that are not negative. Then \<open>Quantile\<close> returns, and what it returns lies between the greatest
  bound below \<open>x\<close>, or zero, and the least bound not below \<open>x\<close>; when every bound is below \<open>x\<close> it
  returns the largest bound. So no rounding of the sum, the quotient or the product moves the estimate
  to a wrong bucket.
\<close>

theorem Quantile_within_bucket:
  assumes "bs \<noteq> []" and "\<forall>b\<in>set bs. 0 \<le> b \<and> b \<le> 2 ^ 53" and "length ds \<le> 2 ^ 53" and "0 < q" and "fl64 q = q"
    and "pos = sort (filter (\<lambda>d. 0 \<le> d) ds)" and "pos \<noteq> []" and "x = pos ! (rank q (length pos) - 1)"
  shows "1 \<le> rank q (length pos) \<and> rank q (length pos) \<le> length pos
    \<and> (\<exists>v. Quantile q (observed (NewHistogram name help bs) ds) = Some v
      \<and> (if \<forall>b\<in>set bs. b < x then v = Max (set bs)
         else Max (insert 0 {b\<in>set bs. b < x}) \<le> v \<and> v \<le> Min {b\<in>set bs. x \<le> b}))"
proof -
  let ?bs = "remdups_adj (sort bs)" and ?h = "observed (NewHistogram name help bs) ds"
  have s: "sorted_wrt (<) ?bs" by (rule remdups_adj_strict) simp
  have ok: "counts_ok ?bs ds ?h" by (rule observed_counts_ok [OF s counts_ok_new])
  have bs: "set ?bs = set bs" "?bs \<noteq> []" using assms(1) by (auto simp flip: set_empty)
  have n: "length pos = length (filter (\<lambda>d. 0 \<le> d) ds)" "0 < length pos" using assms(6,7) by (simp, metis length_greater_0_conv)
  have b: "\<forall>b\<in>set ?bs. 0 \<le> b \<and> b \<le> 2 ^ 53" using assms(2) by simp
  note Q = Quantile_lands [OF s ok assms(3) bs(2) assms(4,5) n, folded assms(6), folded assms(8)]
  let ?v = "estimate ?bs (counts ?h) (fl64 (min q 1 * of_nat (length pos))) (bucket ?bs x)"
  have "\<forall>b\<in>set ?bs. 0 \<le> b" using b by simp
  note N = bucket_neighbours [OF s this, of x, unfolded bs(1)]
  have "if \<forall>b\<in>set bs. b < x then ?v = Max (set bs)
    else Max (insert 0 {b\<in>set bs. b < x}) \<le> ?v \<and> ?v \<le> Min {b\<in>set bs. x \<le> b}"
  proof (cases "bucket ?bs x = length ?bs")
    case True
    then have "\<forall>b\<in>set bs. b < x" "?v = Max (set bs)" using N(1) N(2) [OF True bs(2)] by (simp_all add: estimate_def)
    then show ?thesis by (rule iffD2 [OF if_P])
  next
    case False
    then have "bucket ?bs x < length ?bs" using bucket_spec(1) [OF s, of x] by simp
    from estimate_bounds [OF Q(3) s b this] N(3) [OF this] False N(1) show ?thesis unfolding N(4) by (simp only: if_False)
  qed
  with Q(4) have "\<exists>v. Quantile q ?h = Some v \<and> (if \<forall>b\<in>set bs. b < x then v = Max (set bs)
    else Max (insert 0 {b\<in>set bs. b < x}) \<le> v \<and> v \<le> Min {b\<in>set bs. x \<le> b})" by blast
  with Q(1,2) show ?thesis by (simp add: Suc_le_eq)
qed

text \<open>C34 on four durations, one of them negative, in three buckets.\<close>

theorem Quantile_within_bucket_witness:
  "1 \<le> rank (1 / 2) 3 \<and> rank (1 / 2) 3 \<le> 3
    \<and> (\<exists>v. Quantile (1 / 2) (observed (NewHistogram [] [] [20, 10, 20]) [- 5, 3, 40, 12]) = Some v \<and> 10 \<le> v \<and> v \<le> 20)"
proof -
  have "fl64 (1 / 2) = 1 / 2" by code_simp
  moreover have "rank (1 / 2) 3 = 2" by code_simp
  moreover have "sort (filter (\<lambda>d. 0 \<le> d) [- 5, 3, 40, 12]) = [3, 12, 40 :: int]" by code_simp
  moreover have "rank (1 / 2) (Suc (Suc (Suc 0))) = 2" by code_simp
  moreover have "{b. (b = 20 \<or> b = 10 \<or> b = 20) \<and> 12 \<le> b} = {20 :: int}" by auto
  ultimately show ?thesis
    using Quantile_within_bucket [of "[20, 10, 20]" "[- 5, 3, 40, 12]" "1 / 2" "[3, 12, 40]" 12 "[]" "[]"] by auto
qed

end
