(* ===== verification/RunLog.thy ===== *)
theory RunLog
  imports Ingest Quantile
begin

text \<open>
  What the daemon says about itself in \<^verbatim>\<open>cmd/ingestd/main.go\<close> and \<^verbatim>\<open>metrics.go\<close>: the attributes of the
  periodic summary and of the summary at the end of a run, with the percentiles of its histograms, and the
  two pages of its HTTP server. An attribute is a tree as \<open>log/slog\<close> has it; how it is printed is not
  modelled. A Go map has no order, so \<open>droppedAttr\<close> is given the order the iteration happened to take.
\<close>

datatype attr = Attr bytes attr_value
  and attr_value =
    VString bytes
  | VInt int
  | VUint64 u64
  | VBool bool
  | VDuration int
  | VFloat64 rat
  | VInts "int list"
  | VGroup "attr list"

section \<open>Figures\<close>

text \<open>\<open>Duration.Seconds\<close> and \<open>Duration.Round\<close>, for the unit of a second.\<close>

definition second :: int where
  "second = 1000000000"

definition Seconds :: "int \<Rightarrow> rat" where
  "Seconds d =
    (let sec = go_div d second; nsec = d - sec * second
     in fl64 (fl64 (of_int sec) + fl64 (of_int nsec / 1000000000)))"

definition Round_second :: "int \<Rightarrow> int" where
  "Round_second d =
    (let r = d - go_div d second * second
     in if d < 0
        then let r = - r
          in if r + r < second then d + r
             else let d1 = wrap64 (d - second + r) in if d1 < d then d1 else MinInt64
        else if r + r < second then d - r
        else let d1 = wrap64 (d + second - r) in if d1 > d then d1 else MaxInt64)"

definition round1 :: "rat \<Rightarrow> rat" where
  "round1 v = fl64 (fl64 (of_int (trunc (fl64 (fl64 (v * 10) + 1 / 2)))) / 10)"

section \<open>Attributes\<close>

text \<open>\<open>None\<close> is the panic of \<open>Quantile\<close>; the literals are the float64 nearest to them.\<close>

definition latencyAttr :: "bytes \<Rightarrow> Histogram \<Rightarrow> attr option" where
  "latencyAttr name h =
    (if Count h = 0 then Some (Attr name (VGroup [Attr ''observations'' (VString ''none'')]))
     else case (Quantile (fl64 (50 / 100)) h, Quantile (fl64 (95 / 100)) h, Quantile (fl64 (99 / 100)) h) of
         (Some p50, Some p95, Some p99) \<Rightarrow>
           Some (Attr name (VGroup
             [Attr ''count'' (VUint64 (Count h)), Attr ''mean'' (VDuration (Mean h)),
              Attr ''p50'' (VDuration p50), Attr ''p95'' (VDuration p95), Attr ''p99'' (VDuration p99),
              Attr ''negative'' (VUint64 (Negative h))]))
       | _ \<Rightarrow> None)"

definition recordAttr :: "Recorder option \<Rightarrow> attr" where
  "recordAttr rec =
    Attr ''recording'' (VGroup
      (case rec of
         None \<Rightarrow> []
       | Some r \<Rightarrow>
          let st = Recorder_Stats r
          in [Attr ''written'' (VUint64 (rst_Written st)), Attr ''dropped'' (VUint64 (rst_Dropped st)), Attr ''files'' (VUint64 (rst_Files st))]))"

definition droppedAttr :: "bytes list \<Rightarrow> Publisher \<Rightarrow> attr" where
  "droppedAttr order p =
    Attr ''dropped'' (VGroup (List.map_filter (\<lambda>name. map_option (\<lambda>n. Attr name (VUint64 n)) (Dropped p name)) order))"

definition checksAttr :: "instruments_t \<Rightarrow> attr" where
  "checksAttr i =
    Attr ''checks'' (VGroup [Attr ''run'' (VUint64 (in_checks i)), Attr ''diverged'' (VUint64 (in_divergences i)),
      Attr ''skewed'' (VUint64 (in_skewed i))])"

definition logSummary :: "bytes list \<Rightarrow> Router \<Rightarrow> Publisher \<Rightarrow> Recorder option \<Rightarrow> instruments_t \<Rightarrow> attr list" where
  "logSummary order router pub rec i =
    (let st = Router_Stats router
     in [Attr ''frames'' (VUint64 (in_frames i)), Attr ''decode_errors'' (VUint64 (in_decodeErrs i)),
         Attr ''book'' (VGroup
           [Attr ''applied'' (VUint64 (rs_Applied st)), Attr ''discarded'' (VUint64 (rs_Discarded st)),
            Attr ''buffered'' (VUint64 (rs_Buffered st)), Attr ''gaps'' (VUint64 (rs_Gaps st)),
            Attr ''snapshots'' (VUint64 (rs_Snapshots st)), Attr ''refetches'' (VUint64 (rs_Refetches st)),
            Attr ''fetch_failures'' (VUint64 (rs_FetchFails st)), Attr ''errors'' (VUint64 (rs_Errors st))]),
         checksAttr i, Attr ''queue_depth'' (VInts (QueueDepth router)), recordAttr rec, droppedAttr order pub])"

text \<open>\<open>elapsed\<close> is the time since the start; \<open>None\<close> when one of the histograms panics.\<close>

definition logFinal ::
  "bytes list \<Rightarrow> int \<Rightarrow> Router \<Rightarrow> Publisher \<Rightarrow> Recorder option \<Rightarrow> u64 \<Rightarrow> instruments_t \<Rightarrow> attr list option" where
  "logFinal order elapsed router pub rec recon i =
    (let frames = in_frames i;
         rate = (if elapsed > 0 then fl64 (fl64 (of_nat (unat frames)) / Seconds elapsed) else 0);
         st = Router_Stats router
     in case (latencyAttr ''tick_to_book'' (tickToBook_histogram router), latencyAttr ''decode'' (in_decode i),
              latencyAttr ''resync'' (resync_histogram router)) of
          (Some tick, Some dcd, Some rsn) \<Rightarrow>
            Some [Attr ''elapsed'' (VDuration (Round_second elapsed)), Attr ''frames'' (VUint64 frames),
              Attr ''frames_per_second'' (VFloat64 (round1 rate)), Attr ''decode_errors'' (VUint64 (in_decodeErrs i)),
              Attr ''route_errors'' (VUint64 (in_routeErrs i)), tick, dcd, rsn,
              Attr ''book'' (VGroup
                [Attr ''applied'' (VUint64 (rs_Applied st)), Attr ''gaps'' (VUint64 (rs_Gaps st)),
                 Attr ''resyncs'' (VUint64 (rs_Snapshots st)), Attr ''refetches'' (VUint64 (rs_Refetches st)),
                 Attr ''errors'' (VUint64 (rs_Errors st))]),
              checksAttr i, Attr ''reconnects'' (VUint64 recon), recordAttr rec, droppedAttr order pub,
              Attr ''percentiles'' (VString ''interpolated from bucket bounds; accurate to the width of the bucket'')]
        | _ \<Rightarrow> None)"

section \<open>Pages\<close>

record http_reply =
  content_type :: bytes
  http_body :: bytes

definition metrics_page ::
  "prom_floats \<Rightarrow> (bytes \<Rightarrow> bytes) \<Rightarrow> Router \<Rightarrow> Publisher \<Rightarrow> Recorder option \<Rightarrow> u64 option \<Rightarrow> instruments_t \<Rightarrow> http_reply" where
  "metrics_page fl fmt_q r p rc recon i =
    \<lparr>content_type = ''text/plain; version=0.0.4; charset=utf-8'', http_body = writeMetrics fl fmt_q r p rc recon i\<rparr>"

definition healthz_page :: http_reply where
  "healthz_page = \<lparr>content_type = ''text/plain; charset=utf-8'', http_body = ''ok'' @ newline\<rparr>"

section \<open>The summary of a run\<close>

lemma Observe_bounds [simp]: "bounds (Observe d h) = bounds h"
  by (simp add: Observe_def Let_def)

lemma observed_bounds [simp]: "bounds (observed h ds) = bounds h"
  by (induction ds rule: rev_induct) (simp_all add: observed_def)

lemma new_bounds: "bs \<noteq> [] \<Longrightarrow> bounds (NewHistogram name help bs) \<noteq> []"
  unfolding bounds_NewHistogram by (auto simp flip: set_empty)

lemma latencyAttr_total: "bounds h \<noteq> [] \<Longrightarrow> \<exists>a. latencyAttr name h = Some a"
proof -
  assume "bounds h \<noteq> []"
  then have "\<exists>v. Quantile q h = Some v" for q by (rule Quantile_total)
  then obtain p50 p95 p99 where "Quantile (fl64 (50 / 100)) h = Some p50" "Quantile (fl64 (95 / 100)) h = Some p95" "Quantile (fl64 (99 / 100)) h = Some p99"
    by blast
  then show ?thesis by (simp add: latencyAttr_def)
qed

text \<open>The percentiles of a summary are in order.\<close>

lemma float_literals:
  "0 < fl64 (50 / 100)" "fl64 (50 / 100) \<le> fl64 (95 / 100)" "fl64 (95 / 100) \<le> fl64 (99 / 100)"
  "fl64 (fl64 (50 / 100)) = fl64 (50 / 100)" "fl64 (fl64 (95 / 100)) = fl64 (95 / 100)" "fl64 (fl64 (99 / 100)) = fl64 (99 / 100)"
  using fl64_exact [of 1 "- 1"] by (simp_all add: fl64_mono fl64_idem)

lemma latencyAttr_ordered:
  assumes "bs \<noteq> []" and "\<forall>b\<in>set bs. 0 \<le> b \<and> b \<le> 2 ^ 53" and "length ds \<le> 2 ^ 53" and "\<exists>d\<in>set ds. 0 \<le> d"
    and "h = observed (NewHistogram n help bs) ds"
  shows "\<exists>p50 p95 p99. latencyAttr name h = Some (Attr name (VGroup
      [Attr ''count'' (VUint64 (Count h)), Attr ''mean'' (VDuration (Mean h)),
       Attr ''p50'' (VDuration p50), Attr ''p95'' (VDuration p95), Attr ''p99'' (VDuration p99),
       Attr ''negative'' (VUint64 (Negative h))])) \<and> p50 \<le> p95 \<and> p95 \<le> p99"
proof -
  have "bounds h \<noteq> []" using new_bounds [OF assms(1)] by (simp add: assms(5))
  then have "\<exists>v. Quantile q h = Some v" for q by (rule Quantile_total)
  then obtain p50 p95 p99 where p: "Quantile (fl64 (50 / 100)) h = Some p50" "Quantile (fl64 (95 / 100)) h = Some p95" "Quantile (fl64 (99 / 100)) h = Some p99"
    by blast
  have "p50 \<le> p95"
    by (rule Quantile_mono [OF assms(1-4) _ _ _ _ p(1,2) [unfolded assms(5)]]) (rule float_literals)+
  moreover have "p95 \<le> p99"
    by (rule Quantile_mono [OF assms(1-4) _ _ _ _ p(2,3) [unfolded assms(5)]])
       (rule float_literals order_less_le_trans [OF float_literals(1,2)])+
  moreover have "Count h \<noteq> 0"
  proof -
    have "counts_ok (remdups_adj (sort bs)) ds h" unfolding assms(5) by (rule observed_counts_ok [OF remdups_adj_strict counts_ok_new]) simp
    moreover have "0 < length (filter (\<lambda>d. 0 \<le> d) ds)" using assms(4) by (auto simp: filter_empty_conv)
    moreover have "length (filter (\<lambda>d. 0 \<le> d) ds) \<le> 2 ^ 53" by (rule order_trans [OF length_filter_le assms(3)])
    ultimately show ?thesis by (auto simp: Count_def counts_ok_def of_nat_eq_0_iff word_of_nat_eq_0_iff dest: dvd_imp_le)
  qed
  ultimately show ?thesis using p by (simp add: latencyAttr_def)
qed

lemma checkOne_decode: "in_decode (snd (checkOne cx fetched r i)) = in_decode i"
  by (simp add: checkOne_def Let_def split: sum.split prod.split reply.split)

lemma ingest_run_decode: "ingest_run numCPU cfg io dec S fr pb dn st \<Longrightarrow> bounds (in_decode (ig_inst st)) = bounds (in_decode newInstruments)"
proof (induction rule: ingest_run.induct)
  case (ig_new http marshal un_info cache url client st un_trade un_depth)
  then show ?case using ingest_setup_router(2) by simp
next
  case (ig_frame fr pb dn st f took)
  then show ?case by (simp add: ingest_frame_def Let_def split: sum.split)
next
  case (ig_route fr pb dn st ev cx st')
  then show ?case by (auto simp: ingest_route_def split: sum.splits option.splits)
next
  case (ig_check fr pb dn st fetched cx r' i')
  then show ?case using checkOne_decode [of cx fetched "ig_router st" "ig_inst st"] by simp
qed simp_all

text \<open>Writing the summary at the end of a run does not panic, whatever was observed.\<close>

lemma logFinal_returns:
  assumes "ingest_run numCPU cfg io dec S fr pb dn st"
  shows "\<exists>attrs. logFinal order elapsed (ig_router st) (ig_pub st) (ig_recorder st) recon (ig_inst st) = Some attrs"
proof -
  have "bounds (in_decode (ig_inst st)) \<noteq> []"
    unfolding ingest_run_decode [OF assms] newInstruments_def by (simp add: new_bounds decodeBounds_def)
  moreover have "bounds (tickToBook_histogram r) \<noteq> []" "bounds (resync_histogram r) \<noteq> []" for r
    by (simp_all add: tickToBook_histogram_def resync_histogram_def new_bounds tickToBookBounds_def resyncBounds_def)
  ultimately obtain a b c where "latencyAttr ''tick_to_book'' (tickToBook_histogram (ig_router st)) = Some a"
    "latencyAttr ''decode'' (in_decode (ig_inst st)) = Some b" "latencyAttr ''resync'' (resync_histogram (ig_router st)) = Some c"
    by (meson latencyAttr_total)
  then show ?thesis by (simp add: logFinal_def Let_def)
qed

end
