(* ===== verification/Settle.thy ===== *)
theory Settle
  imports History
begin

text \<open>
  The book stage left to itself: nothing more is routed, and the shards' loops (\<open>run\<close> of
  \<^verbatim>\<open>internal/pipeline/shard.go\<close>) take what is queued and what the fetch goroutines bring back,
  in any order. An answer that fails, or whose snapshot does not reach the deltas held for its
  book, is a setback: the shard asks again. Every other turn brings the stage nearer to
  the state \<open>waitSettled\<close> of \<^verbatim>\<open>cmd/replay\<close> waits for, by a potential that counts what is queued
  and what is in flight.
\<close>

section \<open>Turns of the loops\<close>

text \<open>
  A snapshot reaches a book: it is well formed and no update is missing between its id and the
  deltas held, or among them.
\<close>

definition reaches :: "Snapshot \<Rightarrow> Tracker \<Rightarrow> bool" where
  "reaches s t \<longleftrightarrow> snap_Symbol s = symbol (book t)
    \<and> (\<forall>l\<in>set (snap_Bids s) \<union> set (snap_Asks s). valid_level l)
    \<and> one_level_per_price (snap_Bids s) \<and> one_level_per_price (snap_Asks s)
    \<and> chained (snap_LastID s) (buf t)"

definition setback :: "fetchResult \<Rightarrow> shard \<Rightarrow> bool" where
  "setback res s =
    (case books s (res_symbol res) of
       None \<Rightarrow> False
     | Some t \<Rightarrow> \<not> Live t \<and> (case res_snapshot res of Inl e \<Rightarrow> True | Inr snap \<Rightarrow> \<not> reaches snap t))"

inductive turn :: "(Symbol \<Rightarrow> Snapshot \<Rightarrow> bool) \<Rightarrow> Router \<Rightarrow> nat \<Rightarrow> Router \<Rightarrow> bool" for S where
  turn_event: "started r \<Longrightarrow> i < length (shards r) \<Longrightarrow> \<not> quit (shards r ! i) \<Longrightarrow> inq (shards r ! i) = ev # rest \<Longrightarrow>
    turn S r 0 (update_shard r i (\<lambda>s. handle now ev (s\<lparr>inq := rest\<rparr>)))"
| turn_result: "i < length (shards r) \<Longrightarrow> \<not> quit (shards r ! i) \<Longrightarrow> res_symbol res \<in> set (inflight (shards r ! i)) \<Longrightarrow>
    (\<And>snap. res_snapshot res = Inr snap \<Longrightarrow> S (res_symbol res) snap) \<Longrightarrow>
    turn S r (of_bool (setback res (shards r ! i))) (update_shard r i (deliver now res))"

inductive_cases turnE: "turn S r u r'"

text \<open>A sequence of turns, with their number and the number of setbacks among them.\<close>

inductive turns :: "(Symbol \<Rightarrow> Snapshot \<Rightarrow> bool) \<Rightarrow> nat \<Rightarrow> nat \<Rightarrow> Router \<Rightarrow> Router \<Rightarrow> bool" for S where
  turns_none: "turns S 0 0 r r"
| turns_more: "turns S n u r r' \<Longrightarrow> turn S r' v r'' \<Longrightarrow> turns S (Suc n) (u + v) r r''"

definition potential :: "Router \<Rightarrow> nat" where
  "potential r = 3 * queued r + requested r"

section \<open>The deltas a tracker holds\<close>

lemma set_buf_buffer: "set (buf (buffer t d)) \<subseteq> insert d (set (buf t))"
  by (auto simp: buffer_def Let_def slice_delete_def dest: in_set_dropD)

lemma set_buf_Apply: "set (buf (fst (Tracker_Apply t d))) \<subseteq> insert d (set (buf t))"
  using set_buf_buffer
  by (auto simp: Tracker_Apply_def Let_def split: prod.splits Class.splits sum.splits) fastforce+

lemma set_buf_replay: "set (buf (fst (replay t i ds))) \<subseteq> set (buf t)"
  by (induction t i ds rule: replay.induct)
     (auto simp: Let_def clearBuffer_def keepBufferFrom_def slice_delete_def dest: in_set_dropD
       split: prod.splits Class.splits sum.splits)

lemma set_buf_Load: "set (buf (fst (Load t s))) \<subseteq> set (buf t)"
proof (cases rule: Load_cases [of t s])
  case (accepted b)
  then show ?thesis using set_buf_replay [of "anchored t b s" 0 "buf t"] by simp
qed simp

lemma tracker_run_held:
  assumes "tracker_run D S sy c t"
  shows "\<forall>d\<in>set (buf t). D d"
  using assms
proof induction
  case (run_apply t d)
  then show ?case using set_buf_Apply [of t d] by auto
next
  case (run_load t s)
  then show ?case using set_buf_Load [of t s] by auto
qed (auto simp: NewTracker_def BeginFetch_def FetchFailed_def)

section \<open>What a turn costs\<close>

lemma Load_live:
  assumes "tracker_inv t" and "Live t"
  shows "Live (fst (Load t s))"
proof (cases rule: Load_cases [of t s])
  case (refused e)
  with assms show ?thesis by (simp add: Live_iff)
next
  case (accepted b)
  with assms show ?thesis by (simp add: Live_iff tracker_inv_def clearBuffer_def)
qed

lemma Load_reaches:
  assumes "tracker_inv t" and "reaches s t" and "in_i64 (snap_LastID s)" and "\<forall>d\<in>set (buf t). valid_delta d"
  shows "Live (fst (Load t s))"
  using assms Load_live [OF assms(1)] Load_connects [OF assms(1), of s]
  by (cases "Live t") (auto simp: reaches_def)

lemma inflight_deliver:
  assumes fl: "res_symbol res \<in> set (inflight s)"
    and ok: "\<And>t. books s (res_symbol res) = Some t \<Longrightarrow> tracker_inv t \<and> (\<forall>d\<in>set (buf t). valid_delta d)"
    and S: "\<And>snap. res_snapshot res = Inr snap \<Longrightarrow> in_i64 (snap_LastID snap)"
  shows "length (inflight (deliver now res s)) + 1 \<le> length (inflight s) + of_bool (setback res s)"
proof -
  let ?k = "res_symbol res" and ?s = "s\<lparr>inflight := remove1 (res_symbol res) (inflight s)\<rparr>"
  have n: "length (inflight ?s) + 1 = length (inflight s)"
    using fl length_pos_if_in_set [OF fl] by (simp add: length_remove1)
  show ?thesis
  proof (cases "books s ?k")
    case None
    with n show ?thesis by (simp add: deliver_def complete_def)
  next
    case (Some t)
    note t = ok [OF Some]
    show ?thesis
    proof (cases "res_snapshot res")
      case (Inl e)
      with n Some show ?thesis by (simp add: deliver_def complete_def setback_def inflight_fetch)
    next
      case (Inr snap)
      have "Live (fst (Load t snap))" if "\<not> setback res s"
        using that Some Inr t S [OF Inr] Load_live Load_reaches by (auto simp: setback_def)
      with n Some Inr show ?thesis by (auto simp: deliver_def complete_def inflight_load)
    qed
  qed
qed

section \<open>Runs of turns\<close>

text \<open>What the stage is given: well-formed 64-bit deltas, and snapshots with 64-bit ids.\<close>

definition fed :: "(Symbol \<Rightarrow> BookDelta \<Rightarrow> bool) \<Rightarrow> (Symbol \<Rightarrow> Snapshot \<Rightarrow> bool) \<Rightarrow> bool" where
  "fed D S \<longleftrightarrow> (\<forall>sy d. D sy d \<longrightarrow> delta_i64 d \<and> valid_delta d) \<and> (\<forall>sy s. S sy s \<longrightarrow> in_i64 (snap_LastID s))"

lemma running_tracker:
  assumes "router_run numCPU cfg x D S rt dn r" and "fed D S" and "i < length (shards r)" and "\<not> quit (shards r ! i)"
    and "books (shards r ! i) k = Some t"
  shows "tracker_inv t \<and> (\<forall>d\<in>set (buf t). valid_delta d)"
proof -
  have run: "tracker_run (D k) (S k) k (BufferCap cfg) t" by (rule running_slot [OF assms(1,3,4,5)])
  then show ?thesis using tracker_run_inv tracker_run_held [OF run] assms(2) by (fastforce simp: fed_def)
qed

lemma turn_potential:
  assumes "router_run numCPU cfg x D S rt dn r" and "fed D S" and "turn S r u r'"
  shows "potential r' + 1 \<le> potential r + u"
  using assms(3)
proof cases
  case (turn_event i ev rest now)
  then show ?thesis
    using queued_update [of i r "\<lambda>s. handle now ev (s\<lparr>inq := rest\<rparr>)"] requested_update [of i r "\<lambda>s. handle now ev (s\<lparr>inq := rest\<rparr>)"]
      inflight_handle [of now ev "(shards r ! i)\<lparr>inq := rest\<rparr>"]
    by (simp add: potential_def)
next
  case (turn_result i res now)
  have "length (inflight (deliver now res (shards r ! i))) + 1 \<le> length (inflight (shards r ! i)) + u"
    unfolding turn_result(1)
    using turn_result assms(2) running_tracker [OF assms(1,2)] by (intro inflight_deliver) (auto simp: fed_def)
  then show ?thesis
    using turn_result queued_update [of i r "deliver now res"] requested_update [of i r "deliver now res"]
    by (simp add: potential_def)
qed

lemma turn_run:
  assumes "router_run numCPU cfg x D S rt dn r" and "turn S r u r'" and "open_router r"
  shows "\<exists>dn'. router_run numCPU cfg x D S rt dn' r' \<and> open_router r'"
  using assms(2)
proof cases
  case (turn_event i ev rest now)
  then show ?thesis
    using st_event [OF assms(1), of i ev rest now] open_router_update [OF assms(3)] by (fastforce simp: handle_lifecycle)
next
  case (turn_result i res now)
  then show ?thesis
    using st_result [OF assms(1), of i res now] open_router_update [OF assms(3)] by (fastforce simp: deliver_lifecycle)
qed

lemma turns_run:
  assumes "turns S n u r r'" and "router_run numCPU cfg x D S rt dn r" and "fed D S" and "open_router r"
  shows "(\<exists>dn'. router_run numCPU cfg x D S rt dn' r' \<and> open_router r') \<and> n + potential r' \<le> potential r + u"
  using assms
proof induction
  case (turns_more n u r r' v r'')
  then obtain dn' where r': "router_run numCPU cfg x D S rt dn' r'" "open_router r'" and n: "n + potential r' \<le> potential r + u" by blast
  with turn_run [OF r'(1) turns_more.hyps(2) r'(2)] turn_potential [OF r'(1) turns_more.prems(2) turns_more.hyps(2)]
  show ?case by auto
qed auto

text \<open>Where no turn is left, the stage has settled; everywhere else the scheduler has one to take.\<close>

lemma turn_enabled:
  assumes "open_router r" and "potential r \<noteq> 0"
  shows "\<exists>u r'. turn S r u r'"
proof (cases "queued r = 0")
  case False
  then obtain i ev rest where "i < length (shards r)" "inq (shards r ! i) = ev # rest"
    by (auto simp: queued_def in_set_conv_nth neq_Nil_conv)
  then show ?thesis using assms(1) turn_event [of r i ev rest S 0] by (auto simp: open_router_def)
next
  case True
  then obtain s where "s \<in> set (shards r)" "inflight s \<noteq> []"
    using assms(2) by (auto simp: potential_def requested_def)
  then obtain i k where i: "i < length (shards r)" "k \<in> set (inflight (shards r ! i))"
    by (metis in_set_conv_nth list.set_sel(1))
  then show ?thesis
    using assms(1) turn_result [of i r "\<lparr>res_symbol = k, res_snapshot = Inl []\<rparr>" S 0] by (auto simp: open_router_def)
qed

lemma idle_settled:
  assumes "router_run numCPU cfg x D S rt dn r" and "open_router r" and "potential r = 0"
  shows "stage_settled r"
proof -
  have q: "inq s = []" "inflight s = []" if "s \<in> set (shards r)" for s
    using assms(3) that by (auto simp: potential_def queued_def requested_def)
  have "Live t" if "book_of r sy = Some t" for sy t
  proof -
    let ?i = "shardIndex sy (length (shards r))"
    have i: "?i < length (shards r)" by (rule router_invD(2) [OF router_run_inv [OF assms(1)]])
    with running_slot(2) [OF assms(1) i, of sy t] that assms(2) q(2) [OF nth_mem [OF i]] show ?thesis
      by (auto simp: book_of_def open_router_def in_flight_def)
  qed
  with q show ?thesis by (simp add: stage_settled_def)
qed

section \<open>A concrete run of turns\<close>

lemma ex_no_setback: "\<not> setback \<lparr>res_symbol = ''A-B'', res_snapshot = Inr ex_snap\<rparr> (shards ex_handled ! 0)"
  by code_simp

lemma ex_turns: "turn (\<lambda>sy s. s = ex_snap) ex_routed 0 ex_handled" "turn (\<lambda>sy s. s = ex_snap) ex_handled 0 ex_synced"
proof -
  show "turn (\<lambda>sy s. s = ex_snap) ex_routed 0 ex_handled"
    unfolding ex_handled_def
    by (rule turn_event) (simp_all add: ex_routed_def update_shard_def ex_new_def new_shard_def)
  show "turn (\<lambda>sy s. s = ex_snap) ex_handled 0 ex_synced"
    using turn_result [of 0 ex_handled "\<lparr>res_symbol = ''A-B'', res_snapshot = Inr ex_snap\<rparr>" "\<lambda>sy s. s = ex_snap" 9]
      ex_no_setback ex_handled_facts(1-3)
    by (simp add: ex_synced_def)
qed

lemma ex_fed: "fed (\<lambda>sy d. d = ev_BookDelta ex_event) (\<lambda>sy s. s = ex_snap)"
  by (simp add: fed_def ex_event_def ex_snap_def valid_delta_def valid_level_def delta_i64_def in_i64_def
      MinInt64_def MaxInt64_def zero_BookDelta_def zero_Snapshot_def zero_Event_def)

lemma ex_synced_idle: "length (shards ex_synced) = 1" "inq (shards ex_synced ! 0) = []" "inflight (shards ex_synced ! 0) = []"
  by code_simp+

lemma ex_synced_final: "\<not> turn S ex_synced v r"
proof -
  have "inq s = []" "inflight s = []" if "s \<in> set (shards ex_synced)" for s
    using that ex_synced_idle by (auto simp: in_set_conv_nth)
  then show ?thesis by (auto elim!: turnE dest!: nth_mem)
qed

section \<open>Properties\<close>

text \<open>
  C14. The stage settles, in every interleaving. Feed it well-formed deltas and stop routing: from any
  reachable open state, however the scheduler mixes the queued events of all shards with the answers to
  the requests in flight, and whatever answers come back, it takes at most three turns per queued event
  and one per request in flight, plus one for each answer that fails or does not reach the deltas held.
  Wherever such a run has got to, the stage has settled (every queue empty, every tracked book live) or
  there is a turn to take: there is no deadlock and, with finitely many setbacks, no infinite run.
\<close>

theorem stage_settles:
  assumes "router_run numCPU cfg x D S rt dn r" and "open_router r" and "fed D S" and "turns S n u r r'"
  shows "n \<le> 3 * queued r + requested r + u \<and> (stage_settled r' \<or> (\<exists>v r''. turn S r' v r''))"
proof -
  obtain dn' where r': "router_run numCPU cfg x D S rt dn' r'" "open_router r'" and n: "n + potential r' \<le> potential r + u"
    using turns_run [OF assms(4,1,3,2)] by blast
  moreover have "stage_settled r' \<or> (\<exists>v r''. turn S r' v r'')"
    using turn_enabled [OF r'(2)] idle_settled [OF r'] by blast
  ultimately show ?thesis by (simp add: potential_def)
qed

text \<open>
  C14 on the stage with one delta queued, which asks for a snapshot and is given one that reaches the
  delta: two turns without a setback, after which no turn is left.
\<close>

theorem stage_settles_witness:
  "turns (\<lambda>sy s. s = ex_snap) 2 0 ex_routed ex_synced \<and> 2 \<le> 3 * queued ex_routed + requested ex_routed + 0
    \<and> stage_settled ex_synced"
proof -
  let ?D = "\<lambda>(sy :: Symbol) d. d = ev_BookDelta ex_event" and ?S = "\<lambda>(sy :: Symbol) s. s = ex_snap"
  have run: "router_run 4 ex_cfg True ?D ?S [ex_event] [] ex_routed"
    by (rule ex_routed_run) (simp add: event_ok_def, simp add: ex_event_def)
  have opn: "open_router ex_routed"
    by (simp add: open_router_def ex_routed_def ex_new_def new_shard_def update_shard_def)
  have ts: "turns ?S 2 0 ex_routed ex_synced"
    using turns_more [OF turns_more [OF turns_none ex_turns(1)] ex_turns(2)] by (simp add: numeral_2_eq_2)
  with stage_settles [OF run opn ex_fed ts] ex_synced_final show ?thesis by blast
qed

end
