(* ===== verification/ReplayCmd.thy ===== *)
theory ReplayCmd
  imports Replay Settle Decode
begin

text \<open>
  \<^verbatim>\<open>cmd/replay/main.go\<close>: a recording run through the pipeline and dumped as text. \<open>replay_setup\<close>
  builds the stage from the recording, \<open>replay_handle\<close> takes one frame, the step relation
  \<open>replay_run\<close> interleaves the frames with the goroutines of the stage, \<open>waitSettled\<close> polls until
  the stage is idle, \<open>dumpViews\<close> reads every book and \<open>renderDump\<close> writes them out. The set of
  symbols is a list in the order of insertion, which stands for the unspecified order of a Go map.
\<close>

section \<open>Reading the books\<close>

definition zero_BookView :: BookView where
  "zero_BookView =
    \<lparr>view_Symbol = [], view_Live = False, view_LastID = 0, view_Crossed = False, view_Bids = [], view_Asks = [],
     view_BidDepth = 0, view_AskDepth = 0, view_Buffered = 0,
     view_Stats = \<lparr>st_Applied = 0, st_Discarded = 0, st_Buffered = 0, st_Gaps = 0, st_Dropped = 0, st_Resyncs = 0, st_Refetches = 0\<rparr>\<rparr>"

text \<open>The view of an answer: a \<open>queryResult\<close> that carries no view has the zero one.\<close>

definition Query_view :: "ask_ctx \<Rightarrow> Symbol \<Rightarrow> int \<Rightarrow> Router \<Rightarrow> Router \<times> (query_error + BookView)" where
  "Query_view cx sy depth r =
    (case Query cx sy depth r of
       (r', Inl e) \<Rightarrow> (r', Inl e)
     | (r', Inr (View v)) \<Rightarrow> (r', Inr v)
     | (r', Inr (Checked d)) \<Rightarrow> (r', Inr zero_BookView))"

definition queuesEmpty :: "Router \<Rightarrow> bool" where
  "queuesEmpty r = list_all (\<lambda>n. n = 0) (QueueDepth r)"

fun allLive :: "(Symbol \<Rightarrow> ask_ctx) \<Rightarrow> Symbol list \<Rightarrow> Router \<Rightarrow> Router \<times> bool" where
  "allLive cx [] r = (r, True)"
| "allLive cx (sy # sys) r =
    (case Query_view (cx sy) sy 0 r of
       (r', Inl e) \<Rightarrow> (r', False)
     | (r', Inr v) \<Rightarrow> if \<not> view_Live v then (r', False) else allLive cx sys r')"

text \<open>The states the loop of \<open>waitSettled\<close> sees, one per poll before the deadline or the cancellation.\<close>

fun wait_loop :: "(Symbol \<Rightarrow> ask_ctx) \<Rightarrow> Symbol list \<Rightarrow> RouterStats \<Rightarrow> Router list \<Rightarrow> bool" where
  "wait_loop cx symbols prev [] = False"
| "wait_loop cx symbols prev (r # polls) =
    (let st = Router_Stats r
     in if st = prev \<and> queuesEmpty r \<and> snd (allLive cx symbols r) then True else wait_loop cx symbols st polls)"

definition zero_RouterStats :: RouterStats where
  "zero_RouterStats = \<lparr>rs_Events = 0, rs_Applied = 0, rs_Discarded = 0, rs_Buffered = 0, rs_Gaps = 0,
      rs_Snapshots = 0, rs_Refetches = 0, rs_FetchFails = 0, rs_Errors = 0, rs_Queries = 0\<rparr>"

definition waitSettled :: "(Symbol \<Rightarrow> ask_ctx) \<Rightarrow> Symbol list \<Rightarrow> Router list \<Rightarrow> bool" where
  "waitSettled cx symbols polls = wait_loop cx symbols zero_RouterStats polls"

fun dump_loop :: "(Symbol \<Rightarrow> ask_ctx) \<Rightarrow> int \<Rightarrow> Symbol list \<Rightarrow> Router \<Rightarrow> Router \<times> (Symbol \<times> query_error + BookView list)" where
  "dump_loop cx depth [] r = (r, Inr [])"
| "dump_loop cx depth (sy # sys) r =
    (case Query_view (cx sy) sy (if depth \<le> 0 then MaxInt64 else depth) r of
       (r', Inl e) \<Rightarrow> (r', Inl (sy, e))
     | (r', Inr v) \<Rightarrow>
        (case dump_loop cx depth sys r' of
           (r'', Inl e) \<Rightarrow> (r'', Inl e)
         | (r'', Inr vs) \<Rightarrow> (r'', Inr (v # vs))))"

definition dumpViews :: "(Symbol \<Rightarrow> ask_ctx) \<Rightarrow> Symbol list \<Rightarrow> int \<Rightarrow> Router \<Rightarrow> Router \<times> (Symbol \<times> query_error + BookView list)" where
  "dumpViews cx symbols depth r = dump_loop cx depth (sort symbols) r"

section \<open>The dump\<close>

definition nl :: bytes where
  "nl = [CHR 0x0A]"

definition fmt_bool :: "bool \<Rightarrow> bytes" where
  "fmt_bool b = (if b then ''true'' else ''false'')"

definition render_level :: "bytes \<Rightarrow> Level \<Rightarrow> bytes" where
  "render_level tag l = tag @ '' '' @ FormatInt (Price l) @ '' '' @ FormatInt (Qty l) @ nl"

definition render_view :: "BookView \<Rightarrow> bytes" where
  "render_view v =
    ''symbol '' @ view_Symbol v @ '' live='' @ fmt_bool (view_Live v) @ '' last_id='' @ FormatInt (view_LastID v)
    @ '' crossed='' @ fmt_bool (view_Crossed v) @ '' bids='' @ FormatInt (view_BidDepth v)
    @ '' asks='' @ FormatInt (view_AskDepth v) @ nl
    @ concat (map (render_level ''B'') (view_Bids v)) @ concat (map (render_level ''A'') (view_Asks v))"

definition renderDump :: "BookView list \<Rightarrow> bytes" where
  "renderDump views = ''market-stream replay dump v1'' @ nl @ concat (map render_view views)"

text \<open>The loop over the repeats: every dump must be the first one.\<close>

datatype 'e repeat_error = ReplayErr 'e | Differs nat

fun repeat_loop :: "nat \<Rightarrow> bytes option \<Rightarrow> ('e + BookView list) list \<Rightarrow> 'e repeat_error + bytes option" where
  "repeat_loop i fst_dump [] = Inr fst_dump"
| "repeat_loop i fst_dump (Inl e # outs) = Inl (ReplayErr e)"
| "repeat_loop i fst_dump (Inr views # outs) =
    (case fst_dump of
       None \<Rightarrow> repeat_loop (i + 1) (Some (renderDump views)) outs
     | Some d \<Rightarrow> if d \<noteq> renderDump views then Inl (Differs i) else repeat_loop (i + 1) (Some d) outs)"

section \<open>One replay\<close>

record replay_st =
  rp_router :: Router
  rp_symbols :: "Symbol list"
  rp_decodeErrs :: u64
  rp_routed :: u64

datatype 'n setup_error = SourceErr "('n, unit) source_error" | MetaErr info_error | RouterErr router_error

definition replay_router_config :: "int \<Rightarrow> RouterConfig" where
  "replay_router_config n = \<lparr>Shards = n, QueueCap = 4096, BufferCap = 0, has_Snapshots = True, RetryDelay = 0,
     has_TickToBook = False, has_Resync = False\<rparr>"

definition replay_setup ::
  "'n opener \<Rightarrow> (bytes \<Rightarrow> bytes + Snapshot) \<Rightarrow> (bytes \<Rightarrow> bytes + symbol_info list) \<Rightarrow> int \<Rightarrow> int \<Rightarrow> 'n list
    \<Rightarrow> 'n setup_error + 'n ReplaySource \<times> InstrumentCache \<times> replay_st" where
  "replay_setup opn un un_info numCPU n files =
    (case NewReplaySource opn un files of
       Inl e \<Rightarrow> Inl (SourceErr e)
     | Inr src \<Rightarrow>
        (case ParseExchangeInfo un_info (Meta src) of
           Inl e \<Rightarrow> Inl (MetaErr e)
         | Inr cache \<Rightarrow>
            (case NewRouter numCPU (replay_router_config n) of
               Inl e \<Rightarrow> Inl (RouterErr e)
             | Inr r \<Rightarrow>
                (case Router_Start r of
                   Inl e \<Rightarrow> Inl (RouterErr e)
                 | Inr r' \<Rightarrow> Inr (src, cache, \<lparr>rp_router = r', rp_symbols = [], rp_decodeErrs = 0, rp_routed = 0\<rparr>)))))"

text \<open>\<open>handle\<close>; \<open>Inr None\<close> while \<open>Route\<close> waits for room.\<close>

definition replay_handle ::
  "bytes option \<Rightarrow> (Frame \<Rightarrow> decode_error + Event) \<Rightarrow> Frame \<Rightarrow> replay_st \<Rightarrow> route_error + replay_st option" where
  "replay_handle cx dec f st =
    (case dec f of
       Inl e \<Rightarrow> Inr (Some (st\<lparr>rp_decodeErrs := rp_decodeErrs st + 1\<rparr>))
     | Inr ev \<Rightarrow>
        (case Route cx ev (rp_router st) of
           Inl e \<Rightarrow> Inl e
         | Inr None \<Rightarrow> Inr None
         | Inr (Some r) \<Rightarrow>
            Inr (Some (st\<lparr>rp_router := r, rp_routed := rp_routed st + 1,
              rp_symbols := (case Kind ev of
                  KindBookDelta \<Rightarrow> List.insert (delta_Symbol (ev_BookDelta ev)) (rp_symbols st)
                | KindSnapshot \<Rightarrow> List.insert (snap_Symbol (ev_Snapshot ev)) (rp_symbols st)
                | _ \<Rightarrow> rp_symbols st)\<rparr>))))"

text \<open>
  Every interleaving of a replay: the frames handled so far, the events the shards have taken, and
  the state. \<open>S\<close> says what snapshots the recording serves for a symbol.
\<close>

inductive replay_run ::
  "int \<Rightarrow> RouterConfig \<Rightarrow> (Frame \<Rightarrow> decode_error + Event) \<Rightarrow> (Symbol \<Rightarrow> Snapshot \<Rightarrow> bool) \<Rightarrow> Frame list \<Rightarrow> Event list \<Rightarrow> replay_st \<Rightarrow> bool"
  for numCPU cfg dec S where
  rp_new: "NewRouter numCPU cfg = Inr r \<Longrightarrow> 0 < numCPU \<Longrightarrow> in_i64 numCPU \<Longrightarrow> in_i64 (Shards cfg) \<Longrightarrow> Router_Start r = Inr r' \<Longrightarrow>
    replay_run numCPU cfg dec S [] [] \<lparr>rp_router = r', rp_symbols = [], rp_decodeErrs = 0, rp_routed = 0\<rparr>"
| rp_frame: "replay_run numCPU cfg dec S fr dn st \<Longrightarrow> replay_handle cx dec f st = Inr (Some st') \<Longrightarrow>
    replay_run numCPU cfg dec S (fr @ [f]) dn st'"
| rp_event: "replay_run numCPU cfg dec S fr dn st \<Longrightarrow> i < length (shards (rp_router st)) \<Longrightarrow>
    \<not> quit (shards (rp_router st) ! i) \<Longrightarrow> inq (shards (rp_router st) ! i) = ev # rest \<Longrightarrow>
    replay_run numCPU cfg dec S fr (dn @ [ev]) (st\<lparr>rp_router := update_shard (rp_router st) i (\<lambda>s. handle now ev (s\<lparr>inq := rest\<rparr>))\<rparr>)"
| rp_result: "replay_run numCPU cfg dec S fr dn st \<Longrightarrow> i < length (shards (rp_router st)) \<Longrightarrow> \<not> quit (shards (rp_router st) ! i) \<Longrightarrow>
    res_symbol res \<in> set (inflight (shards (rp_router st) ! i)) \<Longrightarrow>
    (\<And>snap. res_snapshot res = Inr snap \<Longrightarrow> S (res_symbol res) snap) \<Longrightarrow>
    replay_run numCPU cfg dec S fr dn (st\<lparr>rp_router := update_shard (rp_router st) i (deliver now res)\<rparr>)"
| rp_query: "replay_run numCPU cfg dec S fr dn st \<Longrightarrow> replay_run numCPU cfg dec S fr dn (st\<lparr>rp_router := fst (ask cx q (rp_router st))\<rparr>)"

section \<open>A replay is a run of the stage\<close>

text \<open>What \<open>replay_setup\<close> builds is where a run starts.\<close>

lemma replay_setup_run:
  assumes "replay_setup opn un un_info numCPU n files = Inr (src, cache, st)" and "0 < numCPU" and "in_i64 numCPU" and "in_i64 n"
  shows "replay_run numCPU (replay_router_config n) dec S [] [] st \<and> NewReplaySource opn un files = Inr src
    \<and> ParseExchangeInfo un_info (Meta src) = Inr cache"
  using assms rp_new [of numCPU "replay_router_config n"]
  by (auto simp: replay_setup_def replay_router_config_def split: sum.splits)

definition delta_symbols :: "Event list \<Rightarrow> Symbol set" where
  "delta_symbols evs = {delta_Symbol (ev_BookDelta ev) |ev. ev \<in> set evs \<and> Kind ev = KindBookDelta}"

lemma delta_symbols_snoc:
  "delta_symbols (evs @ [ev]) = (if Kind ev = KindBookDelta then insert (delta_Symbol (ev_BookDelta ev)) (delta_symbols evs) else delta_symbols evs)"
  by (auto simp: delta_symbols_def)

definition replay_ok :: "int \<Rightarrow> RouterConfig \<Rightarrow> (Frame \<Rightarrow> decode_error + Event) \<Rightarrow> (Symbol \<Rightarrow> BookDelta \<Rightarrow> bool) \<Rightarrow> (Symbol \<Rightarrow> Snapshot \<Rightarrow> bool)
    \<Rightarrow> Frame list \<Rightarrow> Event list \<Rightarrow> replay_st \<Rightarrow> bool" where
  "replay_ok numCPU cfg dec D S fr dn st \<longleftrightarrow>
    router_run numCPU cfg True D S (decoded dec fr) dn (rp_router st) \<and> open_router (rp_router st)
    \<and> rp_routed st = of_nat (length (decoded dec fr))
    \<and> rp_decodeErrs st = of_nat (length (filter (\<lambda>f. \<not> is_ok (dec f)) fr))
    \<and> set (rp_symbols st) = delta_symbols (decoded dec fr) \<and> distinct (rp_symbols st)"

lemma replay_ok_frame:
  assumes "replay_ok numCPU cfg dec D S fr dn st" and "replay_handle cx dec f st = Inr (Some st')"
    and "\<And>ev. dec f = Inr ev \<Longrightarrow> event_ok True D S ev"
  shows "replay_ok numCPU cfg dec D S (fr @ [f]) dn st'"
proof (cases "dec f")
  case (Inl e)
  then have "st' = st\<lparr>rp_decodeErrs := rp_decodeErrs st + 1\<rparr>" "decoded dec (fr @ [f]) = decoded dec fr"
    using assms(2) by (simp_all add: replay_handle_def decoded_def)
  with assms(1) Inl show ?thesis by (simp add: replay_ok_def)
next
  case (Inr ev)
  then obtain r where r: "Route cx ev (rp_router st) = Inr (Some r)"
    and st': "rp_router st' = r" "rp_routed st' = rp_routed st + 1" "rp_decodeErrs st' = rp_decodeErrs st"
      "rp_symbols st' = (case Kind ev of KindBookDelta \<Rightarrow> List.insert (delta_Symbol (ev_BookDelta ev)) (rp_symbols st)
        | KindSnapshot \<Rightarrow> List.insert (snap_Symbol (ev_Snapshot ev)) (rp_symbols st) | _ \<Rightarrow> rp_symbols st)"
    using assms(2) by (auto simp: replay_handle_def split: sum.splits option.splits)
  have d: "decoded dec (fr @ [f]) = decoded dec fr @ [ev]" by (simp add: decoded_def Inr)
  have ok: "event_ok True D S ev" using assms(3) Inr by blast
  then have "set (rp_symbols st') = delta_symbols (decoded dec fr @ [ev]) \<and> distinct (rp_symbols st')"
    using assms(1) st'(4) unfolding replay_ok_def delta_symbols_snoc
    by (cases "Kind ev") (simp_all add: event_ok_def)
  moreover have "router_run numCPU cfg True D S (decoded dec fr @ [ev]) dn r"
    using assms(1) ok r by (intro st_route) (auto simp: replay_ok_def)
  ultimately show ?thesis
    using assms(1) open_router_Route [OF _ r] unfolding replay_ok_def d st' by (simp add: Inr)
qed

lemma replay_run_ok:
  assumes "replay_run numCPU cfg dec S fr dn st" and "\<And>f ev. f \<in> set fr \<Longrightarrow> dec f = Inr ev \<Longrightarrow> event_ok True D S ev"
  shows "replay_ok numCPU cfg dec D S fr dn st"
  using assms
proof induction
  case (rp_new r r')
  have "router_run numCPU cfg True D S [] [] r'" using rp_new by (intro st_start [OF st_new])
  moreover have "open_router r'" by (rule open_router_start [OF rp_new(1,5)])
  ultimately show ?case by (simp add: replay_ok_def decoded_def delta_symbols_def)
next
  case (rp_frame fr dn st cx f st')
  then show ?case by (intro replay_ok_frame [of _ _ _ _ _ fr dn st]) auto
next
  case (rp_event fr dn st i ev rest now)
  then have ok: "replay_ok numCPU cfg dec D S fr dn st" by blast
  have "router_run numCPU cfg True D S (decoded dec fr) (dn @ [ev]) (update_shard (rp_router st) i (\<lambda>s. handle now ev (s\<lparr>inq := rest\<rparr>)))"
    using ok rp_event(2-4) by (intro st_event) (auto simp: replay_ok_def open_router_def)
  with ok show ?case by (auto simp: replay_ok_def intro: open_router_update)
next
  case (rp_result fr dn st i res now)
  then have ok: "replay_ok numCPU cfg dec D S fr dn st" by blast
  have "router_run numCPU cfg True D S (decoded dec fr) dn (update_shard (rp_router st) i (deliver now res))"
    using ok rp_result(2-5) by (intro st_result) (auto simp: replay_ok_def)
  with ok show ?case by (auto simp: replay_ok_def intro: open_router_update)
next
  case (rp_query fr dn st cx q)
  then have ok: "replay_ok numCPU cfg dec D S fr dn st" by blast
  have "router_run numCPU cfg True D S (decoded dec fr) dn (fst (ask cx q (rp_router st)))"
    using ok by (intro st_query) (auto simp: replay_ok_def open_router_def)
  with ok show ?case by (auto simp: replay_ok_def intro: open_router_ask)
qed

section \<open>The views of tracked books\<close>

definition view_of :: "Symbol \<Rightarrow> int \<Rightarrow> Tracker \<Rightarrow> BookView" where
  "view_of sy depth t =
    \<lparr>view_Symbol = sy, view_Live = Live t, view_LastID = Tracker_LastID t, view_Crossed = Crossed (book t),
     view_Bids = Bids (book t) depth, view_Asks = Asks (book t) depth, view_BidDepth = BidDepth (book t),
     view_AskDepth = AskDepth (book t), view_Buffered = Buffered t, view_Stats = stats t\<rparr>"

lemma Query_view_ask: "fst (Query_view cx sy depth r) = fst (ask cx \<lparr>q_symbol = sy, q_depth = depth, q_check = None\<rparr> r)"
  by (auto simp: Query_view_def Query_def split: prod.split sum.split reply.split)

lemma Query_view_tracked:
  assumes "serving r" and "book_of r sy = Some t"
  shows "snd (Query_view patient sy depth r) = Inr (view_of sy depth t)"
proof -
  have "\<not> quit (shards r ! shardIndex sy (length (shards r)))"
    using assms(1) shardIndex_less [of "length (shards r)" sy] by (auto simp: serving_def open_router_def)
  with assms(2) show ?thesis
    by (simp add: Query_view_def Query_def ask_def answer_def Let_def book_of_def view_of_def)
qed

lemma Query_view_live:
  assumes "serving r" and "snd (Query_view cx sy depth r) = Inr v" and "view_Live v"
  shows "\<exists>t. book_of r sy = Some t \<and> Live t"
proof (cases "book_of r sy")
  case None
  then have "books (shards r ! shardIndex sy (length (shards r))) sy = None" by (simp add: book_of_def)
  with assms(2) show ?thesis by (simp add: Query_view_def Query_def ask_def answer_def Let_def split: if_splits option.splits)
next
  case (Some t)
  have "fst cx = None" "snd cx = None"
    using assms(2) by (auto simp: Query_view_def Query_def ask_def Let_def split: if_splits option.splits)
  with Query_view_tracked [OF assms(1) Some, of depth] assms(2,3) Some show ?thesis by (cases cx) (auto simp: view_of_def)
qed

lemma allLive_tracked:
  assumes "serving r" and "snd (allLive cx sys r)"
  shows "\<forall>sy\<in>set sys. \<exists>t. book_of r sy = Some t \<and> Live t"
  using assms
proof (induction sys arbitrary: r)
  case (Cons sy sys)
  obtain r' v where q: "Query_view (cx sy) sy 0 r = (r', Inr v)" "view_Live v" and rest: "snd (allLive cx sys r')"
    using Cons.prems(2) by (auto split: prod.splits sum.splits if_splits)
  have r': "r' = fst (ask (cx sy) \<lparr>q_symbol = sy, q_depth = 0, q_check = None\<rparr> r)"
    using Query_view_ask [of "cx sy" sy 0 r] q(1) by simp
  have "\<forall>sy\<in>set sys. \<exists>t. book_of r' sy = Some t \<and> Live t"
    by (rule Cons.IH [OF _ rest]) (simp add: r' serving_ask Cons.prems(1))
  with Query_view_live [OF Cons.prems(1), of "cx sy" sy 0 v] q show ?case by (simp add: r' book_of_ask [OF Cons.prems(1)])
qed simp

lemma allLive_settled:
  assumes "serving r" and "\<forall>sy\<in>set sys. \<exists>t. book_of r sy = Some t \<and> Live t"
  shows "snd (allLive (\<lambda>_. patient) sys r)"
  using assms
proof (induction sys arbitrary: r)
  case (Cons sy sys)
  then obtain t where t: "book_of r sy = Some t" "Live t" by auto
  obtain r' where q: "Query_view patient sy 0 r = (r', Inr (view_of sy 0 t))"
    using Query_view_tracked [OF Cons.prems(1) t(1), of 0] by (metis prod.collapse)
  then have r': "r' = fst (ask patient \<lparr>q_symbol = sy, q_depth = 0, q_check = None\<rparr> r)"
    using Query_view_ask [of patient sy 0 r] by simp
  have "snd (allLive (\<lambda>_. patient) sys r')"
    using Cons.prems by (intro Cons.IH) (simp_all add: r' serving_ask book_of_ask)
  with q t(2) show ?case by (simp add: view_of_def)
qed simp

lemma wait_loop_iff:
  "wait_loop cx symbols prev polls \<longleftrightarrow> (\<exists>i<length polls. Router_Stats (polls ! i) = (if i = 0 then prev else Router_Stats (polls ! (i - 1)))
    \<and> queuesEmpty (polls ! i) \<and> snd (allLive cx symbols (polls ! i)))"
proof (induction polls arbitrary: prev)
  case (Cons r polls)
  define P where "P = (\<lambda>polls prev i. Router_Stats (polls ! i) = (if i = 0 then prev else Router_Stats (polls ! (i - 1)))
    \<and> queuesEmpty (polls ! i) \<and> snd (allLive cx symbols (polls ! i)))"
  have next_poll: "P (r # polls) prev (Suc i) \<longleftrightarrow> P polls (Router_Stats r) i" for i by (cases i) (simp_all add: P_def)
  have "wait_loop cx symbols prev (r # polls) \<longleftrightarrow> P (r # polls) prev 0 \<or> wait_loop cx symbols (Router_Stats r) polls"
    by (auto simp: P_def Let_def)
  also have "\<dots> \<longleftrightarrow> (\<exists>i<length (r # polls). P (r # polls) prev i)"
    unfolding Cons.IH P_def [symmetric] list.size Ex_less_Suc2 next_poll add_0_right add_Suc_right by (simp add: P_def)
  finally show ?case by (simp only: P_def)
qed simp

lemma dump_loop_tracked:
  assumes "serving r" and "\<forall>sy\<in>set sys. book_of r sy = Some (T sy)"
  shows "snd (dump_loop (\<lambda>_. patient) depth sys r) = Inr (map (\<lambda>sy. view_of sy (if depth \<le> 0 then MaxInt64 else depth) (T sy)) sys)"
  using assms
proof (induction sys arbitrary: r)
  case (Cons sy sys)
  let ?d = "if depth \<le> 0 then MaxInt64 else depth"
  obtain r' where q: "Query_view patient sy ?d r = (r', Inr (view_of sy ?d (T sy)))"
    using Query_view_tracked [OF Cons.prems(1), of sy "T sy" ?d] Cons.prems(2) by (metis list.set_intros(1) prod.collapse)
  have r': "r' = fst (ask patient \<lparr>q_symbol = sy, q_depth = ?d, q_check = None\<rparr> r)"
    using Query_view_ask [of patient sy ?d r] q by simp
  have "snd (dump_loop (\<lambda>_. patient) depth sys r') = Inr (map (\<lambda>sy. view_of sy ?d (T sy)) sys)"
    by (rule Cons.IH) (use Cons.prems in \<open>simp_all add: r' serving_ask book_of_ask [OF Cons.prems(1)]\<close>)
  with q show ?case by (cases "dump_loop (\<lambda>_. patient) depth sys r'") simp
qed simp

section \<open>Reading a dump back\<close>

lemma digits10_inj: "digits10 m = digits10 n \<Longrightarrow> m = n"
  by (metis digits10_ok(3))

lemma FormatInt_inj: "FormatInt a = FormatInt b \<Longrightarrow> a = b"
proof -
  have "CHR ''-'' \<notin> set (digits10 n)" for n
    using digits10_ok(1) [of n] by (auto simp: is_digits_def)
  then have "digits10 m \<noteq> CHR ''-'' # ds" for m ds by (metis list.set_intros(1))
  then show "FormatInt a = FormatInt b \<Longrightarrow> a = b"
    by (auto simp: FormatInt_def dest!: digits10_inj split: if_splits) (metis)+
qed

definition plain :: "bytes \<Rightarrow> bool" where
  "plain s \<longleftrightarrow> CHR '' '' \<notin> set s \<and> CHR 0x0A \<notin> set s"

lemma plain_FormatInt [simp]: "plain (FormatInt v)"
proof -
  have "plain (digits10 n)" for n
    using digits10_ok(1) [of n] by (auto simp: is_digits_def plain_def is_digit_def)
  then show ?thesis by (simp add: FormatInt_def plain_def)
qed

lemma plain_fmt_bool [simp]: "plain (fmt_bool b)"
  by (simp add: fmt_bool_def plain_def)

lemma fmt_bool_inj [simp]: "fmt_bool a = fmt_bool b \<longleftrightarrow> a = b"
  by (simp add: fmt_bool_def)

lemma FormatInt_eq [simp]: "FormatInt a = FormatInt b \<longleftrightarrow> a = b"
  using FormatInt_inj by blast

text \<open>A field that has no space ends at the first one, a line at its newline.\<close>

lemma sep_eq: "c \<notin> set x \<Longrightarrow> c \<notin> set y \<Longrightarrow> x @ c # u = y @ c # v \<longleftrightarrow> x = y \<and> u = v"
proof (induction x arbitrary: y)
  case Nil
  then show ?case by (cases y) auto
next
  case (Cons a x)
  then show ?case by (cases y) auto
qed

lemma field_eq: "plain x \<Longrightarrow> plain y \<Longrightarrow> x @ CHR '' '' # u = y @ CHR '' '' # v \<longleftrightarrow> x = y \<and> u = v"
  by (rule sep_eq) (simp_all add: plain_def)

lemma line_eq: "plain x \<Longrightarrow> plain y \<Longrightarrow> x @ CHR 0x0A # u = y @ CHR 0x0A # v \<longleftrightarrow> x = y \<and> u = v"
  by (rule sep_eq) (simp_all add: plain_def)

lemma render_level_eq:
  "render_level tag l @ u = render_level tag m @ v \<longleftrightarrow> Price l = Price m \<and> Qty l = Qty m \<and> u = v"
  by (simp add: render_level_def nl_def field_eq line_eq)

text \<open>What follows the levels of a tag does not start with it.\<close>

lemma levels_eq:
  assumes "u = [] \<or> hd u \<noteq> c" and "v = [] \<or> hd v \<noteq> c"
  shows "concat (map (render_level [c]) ls) @ u = concat (map (render_level [c]) ms) @ v \<longleftrightarrow> ls = ms \<and> u = v"
proof (induction ls arbitrary: ms)
  case Nil
  show ?case using assms(1) by (cases ms) (auto simp: render_level_def)
next
  case (Cons l ls)
  show ?case
  proof (cases ms)
    case Nil
    then show ?thesis using assms(2) by (auto simp: render_level_def)
  next
    case ms: (Cons m ms')
    then show ?thesis using Cons.IH [of ms'] by (simp add: render_level_eq) (auto intro: Level.equality)
  qed
qed

text \<open>What a dump says of a view.\<close>

definition dumped :: "BookView \<Rightarrow> Symbol \<times> bool \<times> int \<times> bool \<times> int \<times> int \<times> Level list \<times> Level list" where
  "dumped v = (view_Symbol v, view_Live v, view_LastID v, view_Crossed v, view_BidDepth v, view_AskDepth v, view_Bids v, view_Asks v)"

lemma views_head: "concat (map render_view vs) = [] \<or> hd (concat (map render_view vs)) = CHR ''s''"
  by (cases vs) (simp_all add: render_view_def)

lemma views_eq:
  assumes "\<forall>v\<in>set vs \<union> set ws. plain (view_Symbol v)"
  shows "concat (map render_view vs) = concat (map render_view ws) \<longleftrightarrow> map dumped vs = map dumped ws"
  using assms
proof (induction vs arbitrary: ws)
  case Nil
  show ?case by (cases ws) (simp_all add: render_view_def)
next
  case (Cons v vs)
  show ?case
  proof (cases ws)
    case Nil
    then show ?thesis by (simp add: render_view_def)
  next
    case ws: (Cons w ws')
    let ?u = "concat (map render_view vs)" and ?u' = "concat (map render_view ws')"
    have asks: "concat (map (render_level ''A'') as) @ ?u = concat (map (render_level ''A'') as') @ ?u' \<longleftrightarrow> as = as' \<and> ?u = ?u'" for as as'
      by (rule levels_eq) (use views_head [of vs] views_head [of ws'] in auto)
    have "concat (map (render_level ''A'') as) @ x = [] \<or> hd (concat (map (render_level ''A'') as) @ x) \<noteq> CHR ''B''"
      if "x = [] \<or> hd x = CHR ''s''" for as x
      using that by (cases as) (auto simp: render_level_def)
    then have bids: "concat (map (render_level ''B'') bs) @ concat (map (render_level ''A'') as) @ ?u =
        concat (map (render_level ''B'') bs') @ concat (map (render_level ''A'') as') @ ?u'
      \<longleftrightarrow> bs = bs' \<and> concat (map (render_level ''A'') as) @ ?u = concat (map (render_level ''A'') as') @ ?u'" for bs bs' as as'
      by (intro levels_eq) (use views_head [of vs] views_head [of ws'] in blast)+
    have pl: "plain (view_Symbol v)" "plain (view_Symbol w)" using Cons.prems ws by simp_all
    have IH: "?u = ?u' \<longleftrightarrow> map dumped vs = map dumped ws'" using Cons.prems ws by (intro Cons.IH) simp
    show ?thesis
      unfolding ws using pl
      by (simp add: render_view_def [of v] render_view_def [of w] dumped_def [of v] dumped_def [of w] nl_def
          field_eq line_eq bids asks IH)
  qed
qed

section \<open>Properties\<close>

text \<open>
  A dump is the state of the books and nothing else. For views of symbols without spaces or newlines
  two dumps are the same bytes exactly when the views agree, in the same order, on the symbol, on being
  live, on the update id, on being crossed, on both depths and on every level of both sides. So
  comparing two runs byte for byte, as the repeats do, compares their books.
\<close>

lemma renderDump_exact:
  assumes "\<forall>v\<in>set vs \<union> set ws. plain (view_Symbol v)"
  shows "renderDump vs = renderDump ws \<longleftrightarrow> map dumped vs = map dumped ws"
  using views_eq [OF assms] by (simp add: renderDump_def)

lemma replay_serving:
  assumes "replay_ok numCPU cfg dec D S fr dn st"
  shows "serving (rp_router st)"
proof -
  have "router_inv cfg True D S (decoded dec fr) dn (rp_router st)"
    using router_run_inv assms by (auto simp: replay_ok_def)
  with assms show ?thesis by (simp add: serving_def replay_ok_def router_inv_def)
qed

lemma replay_book_run:
  assumes "replay_ok numCPU cfg dec D S fr dn st" and "book_of (rp_router st) sy = Some t"
  shows "tracker_run (D sy) (S sy) sy (BufferCap cfg) t"
proof (rule running_slot(1))
  let ?r = "rp_router st" and ?i = "shardIndex sy (length (shards (rp_router st)))"
  show "router_run numCPU cfg True D S (decoded dec fr) dn ?r" using assms(1) by (simp add: replay_ok_def)
  show i: "?i < length (shards ?r)" using replay_serving [OF assms(1)] shardIndex_less by (simp add: serving_def)
  then show "\<not> quit (shards ?r ! ?i)" using replay_serving [OF assms(1)] by (simp add: serving_def open_router_def)
  show "books (shards ?r ! ?i) sy = Some t" using assms(2) by (simp add: book_of_def)
qed

lemma replay_symbols_sorted:
  assumes "replay_ok numCPU cfg dec D S fr dn st"
  shows "sort (rp_symbols st) = sorted_list_of_set (delta_symbols (decoded dec fr))"
  using assms unfolding replay_ok_def
  by (metis distinct_remdups_id sorted_list_of_set_sort_remdups)

text \<open>
  A replay accounts for every frame. In every interleaving of the command with the goroutines of the
  stage, the events routed are exactly the decoded frames in the order they were read, every frame is
  counted as routed or as a decoding error, and the symbols collected are those of the routed deltas,
  so a settled replay dumps a book for each of them. Per symbol, the events handled so far are a prefix
  of those routed.
\<close>

lemma replay_accounts:
  assumes "replay_run numCPU cfg dec S fr dn st"
    and "\<And>f ev. f \<in> set fr \<Longrightarrow> dec f = Inr ev \<Longrightarrow> event_ok True D S ev"
  shows "router_run numCPU cfg True D S (decoded dec fr) dn (rp_router st)
    \<and> rp_routed st + rp_decodeErrs st = of_nat (length fr)
    \<and> set (rp_symbols st) = delta_symbols (decoded dec fr)
    \<and> rs_Events (Router_Stats (rp_router st)) = of_nat (length dn)"
proof -
  have ok: "replay_ok numCPU cfg dec D S fr dn st" by (rule replay_run_ok [OF assms(1)]) (rule assms(2))
  then have cnt: "rp_routed st = of_nat (length (decoded dec fr))" "rp_decodeErrs st = of_nat (length (filter (\<lambda>f. \<not> is_ok (dec f)) fr))"
    and run: "router_run numCPU cfg True D S (decoded dec fr) dn (rp_router st)"
    and syms: "set (rp_symbols st) = delta_symbols (decoded dec fr)"
    by (simp_all add: replay_ok_def)
  have "length (decoded dec fr) + length (filter (\<lambda>f. \<not> is_ok (dec f)) fr) = length fr"
    by (induction fr) (auto simp: decoded_def split: sum.split)
  then have "rp_routed st + rp_decodeErrs st = of_nat (length fr)"
    unfolding cnt of_nat_add [symmetric] by simp
  moreover have "rs_Events (Router_Stats (rp_router st)) = of_nat (length dn)"
    by (rule Router_Stats_events [OF run])
  ultimately show ?thesis using run syms by blast
qed

section \<open>A replay that has settled\<close>

lemma delta_symbols_iff: "sy \<in> delta_symbols evs \<longleftrightarrow> deltas_of sy evs \<noteq> []"
  by (auto simp: delta_symbols_def deltas_of_def filter_empty_conv)

lemma replay_settled:
  assumes ok: "replay_ok numCPU cfg dec D S fr dn st" and empty: "queuesEmpty (rp_router st)"
    and live: "snd (allLive cx (rp_symbols st) (rp_router st))"
  shows "stage_settled (rp_router st)" and "sy \<in> delta_symbols (decoded dec fr) \<longleftrightarrow> (\<exists>t. book_of (rp_router st) sy = Some t)"
proof -
  have run: "router_run numCPU cfg True D S (decoded dec fr) dn (rp_router st)"
    and syms: "set (rp_symbols st) = delta_symbols (decoded dec fr)" using ok by (simp_all add: replay_ok_def)
  note all = allLive_tracked [OF replay_serving [OF ok] live, unfolded syms]
  have book: "sy \<in> delta_symbols (decoded dec fr)" if "book_of (rp_router st) sy = Some t" for sy t
    using book_has_delta [OF run that] by (simp add: delta_symbols_iff)
  then show "sy \<in> delta_symbols (decoded dec fr) \<longleftrightarrow> (\<exists>t. book_of (rp_router st) sy = Some t)" using all by blast
  have "Live t" if "book_of (rp_router st) sy = Some t" for sy t using all book [OF that] that by fastforce
  then show "stage_settled (rp_router st)" using empty by (auto simp: stage_settled_def queuesEmpty_def QueueDepth_def list_all_iff)
qed

text \<open>
  C8. What \<open>waitSettled\<close> waits for is the end. Take any interleaving of a replay in which every queue is
  found empty and every book of the symbols seen is found live. Then every routed event has been
  handled, no event is queued and no snapshot request is in flight, so no goroutine of the stage has
  anything left to do; there is a book for each symbol that had a delta and for no other; and reading
  the books changes none of them. The state dumped is the final one.
\<close>

theorem settled_is_final:
  assumes "replay_run numCPU cfg dec S fr dn st"
    and "\<And>f ev. f \<in> set fr \<Longrightarrow> dec f = Inr ev \<Longrightarrow> event_ok True (\<lambda>_. delta_i64) S ev" and "\<And>sy s. S sy s \<Longrightarrow> in_i64 (snap_LastID s)"
    and "queuesEmpty (rp_router st)" and "snd (allLive cx (rp_symbols st) (rp_router st))"
  shows "(\<forall>s\<in>set (shards (rp_router st)). inq s = [] \<and> inflight s = [])
    \<and> (\<forall>sy. filter (\<lambda>ev. eventSymbol ev = Some sy) dn = filter (\<lambda>ev. eventSymbol ev = Some sy) (decoded dec fr))
    \<and> (\<forall>sy. sy \<in> delta_symbols (decoded dec fr) \<longleftrightarrow> (\<exists>t. book_of (rp_router st) sy = Some t \<and> Live t))
    \<and> (\<forall>c q. book_of (fst (ask c q (rp_router st))) = book_of (rp_router st))"
proof -
  have ok: "replay_ok numCPU cfg dec (\<lambda>_. delta_i64) S fr dn st" using replay_run_ok [OF assms(1)] assms(2) by blast
  then have run: "router_run numCPU cfg True (\<lambda>_. delta_i64) S (decoded dec fr) dn (rp_router st)" and opn: "open_router (rp_router st)"
    by (simp_all add: replay_ok_def)
  note set = replay_settled [OF ok assms(4,5)]
  have "inflight s = []" if "s \<in> set (shards (rp_router st))" for s
    using that settled_no_request [OF run opn set(1) _ assms(3)] by (auto simp: in_set_conv_nth)
  moreover have "book_of (fst (ask c q (rp_router st))) = book_of (rp_router st)" for c q
    using book_of_ask [OF replay_serving [OF ok]] by blast
  moreover have "sy \<in> delta_symbols (decoded dec fr) \<longleftrightarrow> (\<exists>t. book_of (rp_router st) sy = Some t \<and> Live t)" for sy
    using set(2) [of sy] set(1) by (auto simp: stage_settled_def)
  ultimately show ?thesis using set(1) settled_handled(1) [OF run set(1)] by (simp add: stage_settled_def)
qed

lemma replay_idle:
  assumes ok: "replay_ok numCPU cfg dec (\<lambda>_. delta_i64) S fr dn st" and S: "\<And>sy s. S sy s \<Longrightarrow> in_i64 (snap_LastID s)"
    and syms: "set symbols = delta_symbols (decoded dec fr)"
  shows "queuesEmpty (rp_router st) \<and> snd (allLive (\<lambda>_. patient) symbols (rp_router st)) \<longleftrightarrow> (\<nexists>v r'. turn S (rp_router st) v r')"
proof -
  let ?r = "rp_router st"
  have run: "router_run numCPU cfg True (\<lambda>_. delta_i64) S (decoded dec fr) dn ?r" and opn: "open_router ?r" using ok by (simp_all add: replay_ok_def)
  have "\<nexists>v r'. turn S ?r v r'" if idle: "queuesEmpty ?r" "snd (allLive (\<lambda>_. patient) symbols ?r)"
  proof -
    have "Live t" if "book_of ?r sy = Some t" for sy t
      using allLive_tracked [OF replay_serving [OF ok] idle(2), unfolded syms] book_has_delta [OF run that] that
      by (metis delta_symbols_iff option.inject)
    then have set: "stage_settled ?r" using idle(1) by (auto simp: stage_settled_def queuesEmpty_def QueueDepth_def list_all_iff)
    have "inq s = [] \<and> inflight s = []" if "s \<in> set (shards ?r)" for s
      using that set settled_no_request [OF run opn set _ S] by (auto simp: in_set_conv_nth stage_settled_def)
    then show ?thesis by (auto elim!: turnE dest!: nth_mem)
  qed
  moreover have "queuesEmpty ?r \<and> snd (allLive (\<lambda>_. patient) symbols ?r)" if "\<nexists>v r'. turn S ?r v r'"
  proof -
    have set: "stage_settled ?r" using that turn_enabled [OF opn] idle_settled [OF run opn] by blast
    then have "\<forall>sy\<in>set symbols. \<exists>t. book_of ?r sy = Some t \<and> Live t"
      using delta_has_book [OF run set] unfolding syms stage_settled_def Ball_def delta_symbols_iff by blast
    moreover have "queuesEmpty ?r" using set by (simp add: stage_settled_def queuesEmpty_def QueueDepth_def list_all_iff)
    ultimately show ?thesis using allLive_settled [OF replay_serving [OF ok]] by blast
  qed
  ultimately show ?thesis by blast
qed

text \<open>
  C15. \<open>waitSettled\<close> reports exactly that the stage is idle. Let it poll any states of a replay, with the context not
  cancelled, in whatever order the symbols are visited. It answers true exactly when some poll
  finds the counters as the poll before it found them and no goroutine of the stage with anything to do:
  no event to handle and no answer to a snapshot request to come. So it never reports a
  replay that still has work, and reports an idle one at the second poll that sees it, whatever the earlier
  polls saw; a replay whose recording has no snapshot left that anchors a book always waits for an
  answer, and is never reported.
\<close>

theorem waitSettled_exact:
  assumes "\<forall>st\<in>set polls. \<exists>dn. replay_run numCPU cfg dec S fr dn st"
    and "\<And>f ev. f \<in> set fr \<Longrightarrow> dec f = Inr ev \<Longrightarrow> event_ok True (\<lambda>_. delta_i64) S ev" and "\<And>sy s. S sy s \<Longrightarrow> in_i64 (snap_LastID s)"
    and "set symbols = delta_symbols (decoded dec fr)"
  shows "waitSettled (\<lambda>_. patient) symbols (map rp_router polls) \<longleftrightarrow>
    (\<exists>i<length polls.
        Router_Stats (rp_router (polls ! i)) = (if i = 0 then zero_RouterStats else Router_Stats (rp_router (polls ! (i - 1))))
      \<and> (\<nexists>v r'. turn S (rp_router (polls ! i)) v r'))"
proof -
  have idle: "queuesEmpty (rp_router st) \<and> snd (allLive (\<lambda>_. patient) symbols (rp_router st)) \<longleftrightarrow> (\<nexists>v r'. turn S (rp_router st) v r')"
    if mem: "st \<in> set polls" for st
  proof -
    obtain dn where run: "replay_run numCPU cfg dec S fr dn st" using assms(1) mem by blast
    have "replay_ok numCPU cfg dec (\<lambda>_. delta_i64) S fr dn st" by (rule replay_run_ok [OF run]) (rule assms(2))
    then show ?thesis by (rule replay_idle) (rule assms(3), assumption, rule assms(4))
  qed
  show ?thesis
    unfolding waitSettled_def wait_loop_iff length_map
  proof (rule ex_cong1, rule conj_cong [OF refl])
    fix i
    assume i: "i < length polls"
    then have nth: "map rp_router polls ! i = rp_router (polls ! i)" "map rp_router polls ! (i - 1) = rp_router (polls ! (i - 1))"
      by simp_all
    from idle [OF nth_mem [OF i]]
    show "(Router_Stats (map rp_router polls ! i) = (if i = 0 then zero_RouterStats else Router_Stats (map rp_router polls ! (i - 1)))
        \<and> queuesEmpty (map rp_router polls ! i) \<and> snd (allLive (\<lambda>_. patient) symbols (map rp_router polls ! i))) \<longleftrightarrow>
      (Router_Stats (rp_router (polls ! i)) = (if i = 0 then zero_RouterStats else Router_Stats (rp_router (polls ! (i - 1))))
        \<and> (\<nexists>v r'. turn S (rp_router (polls ! i)) v r'))"
      unfolding nth by (simp only:)
  qed
qed

lemma settled_dump:
  assumes ok: "replay_ok numCPU cfg dec (\<lambda>sy. update_ok (vb sy) (va sy) (last_update sy (decoded dec fr)))
      (\<lambda>sy. anchor_ok (vb sy) (va sy) (last_update sy (decoded dec fr))) fr dn st"
    and empty: "queuesEmpty (rp_router st)" and live: "snd (allLive cx (rp_symbols st) (rp_router st))"
  shows "snd (dumpViews (\<lambda>_. patient) (rp_symbols st) depth (rp_router st)) =
    Inr (map (\<lambda>sy. view_of sy (if depth \<le> 0 then MaxInt64 else depth) (the (book_of (rp_router st) sy)))
      (sorted_list_of_set (delta_symbols (decoded dec fr))))"
proof -
  note set = replay_settled [OF ok empty live]
  have "finite (delta_symbols (decoded dec fr))" using ok unfolding replay_ok_def by (metis List.finite_set)
  then have "book_of (rp_router st) sy = Some (the (book_of (rp_router st) sy))"
    if "sy \<in> set (sorted_list_of_set (delta_symbols (decoded dec fr)))" for sy using set(2) that by force
  then show ?thesis
    unfolding dumpViews_def replay_symbols_sorted [OF ok] by (intro dump_loop_tracked [OF replay_serving [OF ok]]) blast
qed

text \<open>
  C6. Two replays of one recording dump the same bytes. Take two runs over the same frames, on any
  machines, with any numbers of shards, buffer sizes and schedules, each served complete snapshots
  of one venue taken no later than the last delta of their symbol, the deltas being that venue's.
  Once both have settled, both dumps succeed, hold a live book at the last recorded update for each
  symbol that had a delta, in order, and are equal byte for byte, at every depth.
\<close>

theorem replay_dump_deterministic:
  assumes "replay_run n1 cfg1 dec (\<lambda>sy. anchor_ok (vb sy) (va sy) (last_update sy (decoded dec fr))) fr dn1 st1"
    and "replay_run n2 cfg2 dec (\<lambda>sy. anchor_ok (vb sy) (va sy) (last_update sy (decoded dec fr))) fr dn2 st2"
    and "\<And>f ev. f \<in> set fr \<Longrightarrow> dec f = Inr ev \<Longrightarrow> event_ok True (\<lambda>sy. update_ok (vb sy) (va sy) (last_update sy (decoded dec fr)))
        (\<lambda>sy. anchor_ok (vb sy) (va sy) (last_update sy (decoded dec fr))) ev"
    and "queuesEmpty (rp_router st1)" and "snd (allLive cx1 (rp_symbols st1) (rp_router st1))"
    and "queuesEmpty (rp_router st2)" and "snd (allLive cx2 (rp_symbols st2) (rp_router st2))"
  shows "\<exists>vs1 vs2. snd (dumpViews (\<lambda>_. patient) (rp_symbols st1) depth (rp_router st1)) = Inr vs1
    \<and> snd (dumpViews (\<lambda>_. patient) (rp_symbols st2) depth (rp_router st2)) = Inr vs2
    \<and> map view_Symbol vs1 = sorted_list_of_set (delta_symbols (decoded dec fr))
    \<and> (\<forall>v\<in>set vs1. view_Live v \<and> view_LastID v = last_update (view_Symbol v) (decoded dec fr))
    \<and> renderDump vs1 = renderDump vs2"
proof -
  let ?evs = "decoded dec fr"
  let ?D = "\<lambda>sy. update_ok (vb sy) (va sy) (last_update sy ?evs)" and ?S = "\<lambda>sy. anchor_ok (vb sy) (va sy) (last_update sy ?evs)"
  have ok1: "replay_ok n1 cfg1 dec ?D ?S fr dn1 st1" and ok2: "replay_ok n2 cfg2 dec ?D ?S fr dn2 st2"
    using replay_run_ok [OF assms(1)] replay_run_ok [OF assms(2)] assms(3) by blast+
  note s1 = replay_settled [OF ok1 assms(4,5)] and s2 = replay_settled [OF ok2 assms(6,7)]
  have r1: "router_run n1 cfg1 True ?D ?S ?evs dn1 (rp_router st1)" "open_router (rp_router st1)"
    and r2: "router_run n2 cfg2 True ?D ?S ?evs dn2 (rp_router st2)" "open_router (rp_router st2)"
    using ok1 ok2 by (simp_all add: replay_ok_def)
  let ?T = "\<lambda>st sy. the (book_of (rp_router st) sy)" and ?d = "if depth \<le> 0 then MaxInt64 else depth"
  have books: "book (?T st1 sy) = book (?T st2 sy) \<and> Tracker_LastID (?T st1 sy) = last_update sy ?evs \<and> Tracker_LastID (?T st2 sy) = last_update sy ?evs
      \<and> Live (?T st1 sy) \<and> Live (?T st2 sy)" if sy: "sy \<in> delta_symbols ?evs" for sy
  proof -
    obtain t1 t2 where t: "book_of (rp_router st1) sy = Some t1" "book_of (rp_router st2) sy = Some t2" using sy s1(2) s2(2) by blast
    show ?thesis
      using settled_same_book [OF r1 s1(1) t(1) r2 s2(1) t(2)] sy t s1(1) s2(1) by (simp add: delta_symbols_iff stage_settled_def)
  qed
  let ?vs = "\<lambda>st. map (\<lambda>sy. view_of sy ?d (?T st sy)) (sorted_list_of_set (delta_symbols ?evs))"
  have fin: "set (sorted_list_of_set (delta_symbols ?evs)) \<subseteq> delta_symbols ?evs"
    by (cases "finite (delta_symbols ?evs)") simp_all
  then have "map render_view (?vs st1) = map render_view (?vs st2)"
    using books by (auto simp: render_view_def view_of_def)
  then have "renderDump (?vs st1) = renderDump (?vs st2)" by (simp only: renderDump_def)
  moreover have "\<forall>v\<in>set (?vs st1). view_Live v \<and> view_LastID v = last_update (view_Symbol v) ?evs"
    using books fin by (auto simp: view_of_def)
  moreover have "map view_Symbol (?vs st1) = sorted_list_of_set (delta_symbols ?evs)" by (simp add: view_of_def comp_def)
  ultimately show ?thesis
    using settled_dump [OF ok1 assms(4,5), of depth] settled_dump [OF ok2 assms(6,7), of depth] by blast
qed

section \<open>A concrete replay\<close>

definition ex_replay_frame :: Frame where
  "ex_replay_frame = \<lparr>Data = ''{}'', frame_ReceivedAt = 5\<rparr>"

definition ex_replayed :: "Router \<Rightarrow> replay_st" where
  "ex_replayed r = \<lparr>rp_router = r, rp_symbols = [''A-B''], rp_decodeErrs = 0, rp_routed = 1\<rparr>"

definition ex_retried :: Router where
  "ex_retried = update_shard (update_shard ex_handled 0 (deliver 8 \<lparr>res_symbol = ''A-B'', res_snapshot = Inl ''timeout''\<rparr>)) 0
     (deliver 9 \<lparr>res_symbol = ''A-B'', res_snapshot = Inr ex_snap\<rparr>)"

abbreviation ex_replay_run :: "(Symbol \<Rightarrow> Snapshot \<Rightarrow> bool) \<Rightarrow> Event list \<Rightarrow> replay_st \<Rightarrow> bool" where
  "ex_replay_run S \<equiv> replay_run 4 ex_cfg (\<lambda>_. Inr ex_event) S [ex_replay_frame]"

lemma ex_replay_handled: "ex_replay_run S [ex_event] (ex_replayed ex_handled)"
proof -
  let ?run = "replay_run 4 ex_cfg (\<lambda>_. Inr ex_event) S"
  have "?run [] [] \<lparr>rp_router = ex_new, rp_symbols = [], rp_decodeErrs = 0, rp_routed = 0\<rparr>"
    by (rule rp_new [of _ _ "ex_new\<lparr>started := False\<rparr>"])
       (simp_all add: NewRouter_def ex_cfg_def ex_new_def Router_Start_def in_i64_def MinInt64_def MaxInt64_def)
  then have "?run ([] @ [ex_replay_frame]) [] (ex_replayed ex_routed)"
    by (rule rp_frame [where cx = None])
       (simp add: replay_handle_def Route_def eventSymbol_def ex_event_def ex_new_def new_shard_def ex_cfg_def
         ex_routed_def update_shard_def zero_Event_def zero_BookDelta_def ex_replayed_def)
  then have "?run ([] @ [ex_replay_frame]) ([] @ [ex_event]) (ex_replayed ex_handled)"
    using rp_event [of 4 ex_cfg "\<lambda>_. Inr ex_event" S "[] @ [ex_replay_frame]" "[]" "ex_replayed ex_routed" 0 ex_event "[]" 7]
    by (simp add: ex_replayed_def ex_routed_def update_shard_def ex_new_def new_shard_def ex_handled_def)
  then show ?thesis by simp
qed

text \<open>The snapshot comes at the first request in one run and after a failed one in the other.\<close>

lemma ex_replay:
  assumes "S ''A-B'' ex_snap"
  shows "ex_replay_run S [ex_event] (ex_replayed ex_synced)" and "ex_replay_run S [ex_event] (ex_replayed ex_retried)"
proof -
  show "ex_replay_run S [ex_event] (ex_replayed ex_synced)"
    using rp_result [OF ex_replay_handled, of 0 "\<lparr>res_symbol = ''A-B'', res_snapshot = Inr ex_snap\<rparr>" S 9] assms
    by (simp add: ex_replayed_def ex_handled_facts ex_synced_def)
  let ?r = "update_shard ex_handled 0 (deliver 8 \<lparr>res_symbol = ''A-B'', res_snapshot = Inl ''timeout''\<rparr>)"
  have "ex_replay_run S [ex_event] (ex_replayed ?r)"
    using rp_result [OF ex_replay_handled, of 0 "\<lparr>res_symbol = ''A-B'', res_snapshot = Inl ''timeout''\<rparr>" S 8]
    by (simp add: ex_replayed_def ex_handled_facts)
  moreover have "0 < length (shards ?r) \<and> \<not> quit (shards ?r ! 0) \<and> ''A-B'' \<in> set (inflight (shards ?r ! 0))" by code_simp
  ultimately show "ex_replay_run S [ex_event] (ex_replayed ex_retried)"
    using rp_result [of 4 ex_cfg "\<lambda>_. Inr ex_event" S "[ex_replay_frame]" "[ex_event]" "ex_replayed ?r" 0
        "\<lparr>res_symbol = ''A-B'', res_snapshot = Inr ex_snap\<rparr>" 9] assms
    by (simp add: ex_replayed_def ex_retried_def)
qed

lemma ex_replay_settled:
  "queuesEmpty ex_synced" "snd (allLive (\<lambda>_. patient) [''A-B''] ex_synced)" "queuesEmpty ex_retried" "snd (allLive (\<lambda>_. patient) [''A-B''] ex_retried)"
  by code_simp+

lemma ex_replay_venue:
  "last_update sy (decoded (\<lambda>_. Inr ex_event) [ex_replay_frame]) = (if sy = ''A-B'' then 6 else 0)"
  by (simp add: decoded_def last_update_def deltas_of_def ex_event_def zero_Event_def zero_BookDelta_def)

lemma ex_replay_event_ok:
  "event_ok True (\<lambda>sy. update_ok (ex_bids sy) (ex_asks sy) (last_update sy (decoded (\<lambda>_. Inr ex_event) [ex_replay_frame]))) S ex_event"
  using ex_feed(1) [of "''A-B''"] unfolding ex_replay_venue
  by (simp add: event_ok_def update_ok_def) (simp add: ex_event_def zero_BookDelta_def)

lemma ex_replay_anchor: "anchor_ok (ex_bids sy) (ex_asks sy) 6 ex_snap"
  using ex_feed(2) by (simp add: anchor_ok_def) (simp add: ex_snap_def zero_Snapshot_def)

text \<open>C8 on the second of these replays.\<close>

theorem settled_is_final_witness:
  "inflight (shards ex_retried ! 0) = [] \<and> (\<exists>t. book_of ex_retried ''A-B'' = Some t \<and> Live t)"
proof -
  let ?S = "\<lambda>(sy :: Symbol) s. s = ex_snap"
  have sy: "rp_symbols (ex_replayed ex_retried) = [''A-B'']" "rp_router (ex_replayed ex_retried) = ex_retried" by (simp_all add: ex_replayed_def)
  have run: "ex_replay_run ?S [ex_event] (ex_replayed ex_retried)" by (rule ex_replay(2)) simp
  have ev: "event_ok True (\<lambda>_. delta_i64) ?S ex_event"
    by (simp add: event_ok_def ex_event_def zero_BookDelta_def delta_i64_def in_i64_def MinInt64_def MaxInt64_def)
  have i: "in_i64 (snap_LastID ex_snap)" by (simp add: ex_snap_def zero_Snapshot_def in_i64_def MinInt64_def MaxInt64_def)
  have "''A-B'' \<in> delta_symbols (decoded (\<lambda>_. Inr ex_event) [ex_replay_frame])"
    by (simp add: delta_symbols_def decoded_def ex_event_def zero_BookDelta_def)
  moreover have "shards ex_retried ! 0 \<in> set (shards ex_retried)" by (rule nth_mem) code_simp
  ultimately show ?thesis
    using settled_is_final [OF run, of "\<lambda>_. patient"] ev i ex_replay_settled(3,4) unfolding sy by blast
qed

text \<open>C15 on the first replay: two polls that find it waiting for its snapshot, and two that find it idle.\<close>

theorem waitSettled_exact_witness:
  "\<not> waitSettled (\<lambda>_. patient) [''A-B''] [ex_handled, ex_handled] \<and> waitSettled (\<lambda>_. patient) [''A-B''] [ex_handled, ex_synced, ex_synced]"
proof -
  let ?S = "\<lambda>(sy :: Symbol) s. s = ex_snap"
  have run: "ex_replay_run ?S [ex_event] (ex_replayed ex_handled)" "ex_replay_run ?S [ex_event] (ex_replayed ex_synced)"
    by (rule ex_replay_handled, rule ex_replay(1)) simp
  have r: "rp_router (ex_replayed r) = r" for r by (simp add: ex_replayed_def)
  have ev: "event_ok True (\<lambda>_. delta_i64) ?S ex_event"
    by (simp add: event_ok_def ex_event_def zero_BookDelta_def delta_i64_def in_i64_def MinInt64_def MaxInt64_def)
  have i: "in_i64 (snap_LastID ex_snap)" by (simp add: ex_snap_def zero_Snapshot_def in_i64_def MinInt64_def MaxInt64_def)
  have sy: "set [''A-B''] = delta_symbols (decoded (\<lambda>_. Inr ex_event) [ex_replay_frame])"
    by (simp add: delta_symbols_def decoded_def ex_event_def zero_BookDelta_def)
  have exact: "waitSettled (\<lambda>_. patient) [''A-B''] (map rp_router polls) \<longleftrightarrow> (\<exists>i<length polls.
      Router_Stats (rp_router (polls ! i)) = (if i = 0 then zero_RouterStats else Router_Stats (rp_router (polls ! (i - 1))))
      \<and> (\<nexists>v r'. turn ?S (rp_router (polls ! i)) v r'))" if "set polls \<subseteq> {ex_replayed ex_handled, ex_replayed ex_synced}" for polls
    by (rule waitSettled_exact [where dec = "\<lambda>_. Inr ex_event" and fr = "[ex_replay_frame]" and numCPU = 4 and cfg = ex_cfg])
       (use that run ev i sy in auto)
  have "\<exists>v r'. turn ?S ex_handled v r'" using ex_turns(2) by blast
  then have "\<not> waitSettled (\<lambda>_. patient) [''A-B''] [ex_handled, ex_handled]"
    using exact [of "[ex_replayed ex_handled, ex_replayed ex_handled]"] by (auto simp: r less_Suc_eq)
  moreover have "waitSettled (\<lambda>_. patient) [''A-B''] [ex_handled, ex_synced, ex_synced]"
    using exact [of "[ex_replayed ex_handled, ex_replayed ex_synced, ex_replayed ex_synced]"] ex_synced_final [of ?S]
    by (auto simp: r intro!: exI [of _ 2])
  ultimately show ?thesis by blast
qed

text \<open>C6 on both replays.\<close>

theorem replay_dump_deterministic_witness:
  "\<exists>vs1 vs2. snd (dumpViews (\<lambda>_. patient) [''A-B''] 0 ex_synced) = Inr vs1
    \<and> snd (dumpViews (\<lambda>_. patient) [''A-B''] 0 ex_retried) = Inr vs2 \<and> renderDump vs1 = renderDump vs2"
proof -
  let ?S = "\<lambda>sy. anchor_ok (ex_bids sy) (ex_asks sy) (last_update sy (decoded (\<lambda>_. Inr ex_event) [ex_replay_frame]))"
  have sy: "rp_symbols (ex_replayed r) = [''A-B'']" "rp_router (ex_replayed r) = r" for r by (simp_all add: ex_replayed_def)
  have "?S ''A-B'' ex_snap" by (simp add: ex_replay_venue ex_replay_anchor)
  note runs = ex_replay [of ?S, OF this]
  from replay_dump_deterministic [OF runs, unfolded sy, OF _ ex_replay_settled, where depth = 0] ex_replay_event_ok
  show ?thesis by auto
qed

end
