(* ===== verification/ReplayOnce.thy ===== *)
theory ReplayOnce
  imports ReplayCmd
begin

text \<open>
  \<open>replayOnce\<close> and \<open>run\<close> of \<^verbatim>\<open>cmd/replay/main.go\<close> around the stage: the goroutine of the source sends the
  frames of the recording through a bounded channel and reports its error on another; the loop takes
  frames until it sees that report, which a \<open>select\<close> may pick while frames are still waiting, and then
  drains the channel. \<open>once_run\<close> is every interleaving of the two with the stage. What the source does is
  what \<open>Replay_Run\<close> computes, frame by frame.
\<close>

datatype 'r once_phase = LoopRouting | LoopDraining 'r | LoopStopped 'r | LoopFailed route_error

definition replay_frameCap :: nat where
  "replay_frameCap = 4096"

record 'r once_st =
  on_todo :: "Frame list"
  on_ret :: 'r
  on_returned :: bool
  on_frames :: "Frame list"
  on_errc :: "'r option"
  on_phase :: "'r once_phase"
  on_st :: replay_st

definition taking :: "'r once_phase \<Rightarrow> bool" where
  "taking ph = (case ph of LoopRouting \<Rightarrow> True | LoopDraining r \<Rightarrow> True | _ \<Rightarrow> False)"

inductive once_run ::
  "'n opener \<Rightarrow> (bytes \<Rightarrow> bytes + Snapshot) \<Rightarrow> (bytes \<Rightarrow> bytes + symbol_info list) \<Rightarrow> int \<Rightarrow> int \<Rightarrow> 'n list
    \<Rightarrow> (Frame \<Rightarrow> decode_error + Event) \<Rightarrow> (Symbol \<Rightarrow> Snapshot \<Rightarrow> bool)
    \<Rightarrow> Frame list \<Rightarrow> Event list \<Rightarrow> ('n, ctx_error) replay_error option once_st \<Rightarrow> bool"
  for opn un un_info numCPU n files dec S where
  on_start: "replay_setup opn un un_info numCPU n files = Inr (src, cache, st) \<Longrightarrow> dec = Decode un_trade un_depth cache \<Longrightarrow>
    0 < numCPU \<Longrightarrow> in_i64 numCPU \<Longrightarrow> in_i64 n \<Longrightarrow> Replay_Run opn un scale cs src = (src', out, ws, err) \<Longrightarrow>
    once_run opn un un_info numCPU n files dec S [] []
      \<lparr>on_todo = out, on_ret = err, on_returned = False, on_frames = [], on_errc = None, on_phase = LoopRouting, on_st = st\<rparr>"
| on_send: "once_run opn un un_info numCPU n files dec S fr dn s \<Longrightarrow> on_todo s = f # later \<Longrightarrow> length (on_frames s) < replay_frameCap \<Longrightarrow>
    once_run opn un un_info numCPU n files dec S fr dn (s\<lparr>on_todo := later, on_frames := on_frames s @ [f]\<rparr>)"
| on_return: "once_run opn un un_info numCPU n files dec S fr dn s \<Longrightarrow> on_todo s = [] \<Longrightarrow> \<not> on_returned s \<Longrightarrow>
    once_run opn un un_info numCPU n files dec S fr dn (s\<lparr>on_returned := True, on_errc := Some (on_ret s)\<rparr>)"
| on_handle: "once_run opn un un_info numCPU n files dec S fr dn s \<Longrightarrow> taking (on_phase s) \<Longrightarrow> on_frames s = f # rest \<Longrightarrow>
    replay_handle cx dec f (on_st s) = Inr (Some st') \<Longrightarrow>
    once_run opn un un_info numCPU n files dec S (fr @ [f]) dn (s\<lparr>on_frames := rest, on_st := st'\<rparr>)"
| on_fail: "once_run opn un un_info numCPU n files dec S fr dn s \<Longrightarrow> taking (on_phase s) \<Longrightarrow> on_frames s = f # rest \<Longrightarrow>
    replay_handle cx dec f (on_st s) = Inl e \<Longrightarrow>
    once_run opn un un_info numCPU n files dec S fr dn (s\<lparr>on_frames := rest, on_phase := LoopFailed e\<rparr>)"
| on_report: "once_run opn un un_info numCPU n files dec S fr dn s \<Longrightarrow> on_phase s = LoopRouting \<Longrightarrow> on_errc s = Some r \<Longrightarrow>
    once_run opn un un_info numCPU n files dec S fr dn (s\<lparr>on_errc := None, on_phase := LoopDraining r\<rparr>)"
| on_stop: "once_run opn un un_info numCPU n files dec S fr dn s \<Longrightarrow> on_phase s = LoopDraining r \<Longrightarrow> on_frames s = [] \<Longrightarrow>
    once_run opn un un_info numCPU n files dec S fr dn (s\<lparr>on_phase := LoopStopped r\<rparr>)"
| on_event: "once_run opn un un_info numCPU n files dec S fr dn s \<Longrightarrow> i < length (shards (rp_router (on_st s))) \<Longrightarrow>
    \<not> quit (shards (rp_router (on_st s)) ! i) \<Longrightarrow> inq (shards (rp_router (on_st s)) ! i) = ev # rest \<Longrightarrow>
    once_run opn un un_info numCPU n files dec S fr (dn @ [ev])
      (s\<lparr>on_st := (on_st s)\<lparr>rp_router := update_shard (rp_router (on_st s)) i (\<lambda>s. handle now ev (s\<lparr>inq := rest\<rparr>))\<rparr>\<rparr>)"
| on_result: "once_run opn un un_info numCPU n files dec S fr dn s \<Longrightarrow> i < length (shards (rp_router (on_st s))) \<Longrightarrow>
    \<not> quit (shards (rp_router (on_st s)) ! i) \<Longrightarrow> res_symbol res \<in> set (inflight (shards (rp_router (on_st s)) ! i)) \<Longrightarrow>
    (\<And>snap. res_snapshot res = Inr snap \<Longrightarrow> S (res_symbol res) snap) \<Longrightarrow>
    once_run opn un un_info numCPU n files dec S fr dn
      (s\<lparr>on_st := (on_st s)\<lparr>rp_router := update_shard (rp_router (on_st s)) i (deliver now res)\<rparr>\<rparr>)"
| on_query: "once_run opn un un_info numCPU n files dec S fr dn s \<Longrightarrow>
    once_run opn un un_info numCPU n files dec S fr dn (s\<lparr>on_st := (on_st s)\<lparr>rp_router := fst (ask cx q (rp_router (on_st s)))\<rparr>\<rparr>)"

section \<open>The dump\<close>

text \<open>The dump goes to a file or to the standard output; \<open>ok\<close> says whether the write succeeds.\<close>

record dump_world =
  dw_stdout :: bytes
  dw_files :: "bytes \<rightharpoonup> bytes"

datatype 'e command_error = RepeatErr "'e repeat_error" | WriteDump bytes

definition writeDump :: "(bytes \<Rightarrow> bool) \<Rightarrow> bytes \<Rightarrow> bytes \<Rightarrow> dump_world \<Rightarrow> 'e command_error + dump_world" where
  "writeDump ok path dump w =
    (if \<not> ok path then Inl (WriteDump path)
     else if path = ''-'' then Inr (w\<lparr>dw_stdout := dw_stdout w @ dump\<rparr>)
     else Inr (w\<lparr>dw_files := (dw_files w)(path \<mapsto> dump)\<rparr>))"

text \<open>\<open>run\<close>, given what each repeat of \<open>replayOnce\<close> returns.\<close>

definition replay_command ::
  "int \<Rightarrow> bytes \<Rightarrow> (nat \<Rightarrow> 'e + BookView list) \<Rightarrow> (bytes \<Rightarrow> bool) \<Rightarrow> dump_world \<Rightarrow> 'e command_error + dump_world" where
  "replay_command repeat path once ok w =
    (let repeats = max repeat 1
     in case repeat_loop 0 None (map once [0..<nat repeats]) of
          Inl e \<Rightarrow> Inl (RepeatErr e)
        | Inr dump \<Rightarrow> writeDump ok path (case dump of None \<Rightarrow> [] | Some b \<Rightarrow> b) w)"

section \<open>Every frame is handled before a book is read\<close>

definition once_ok ::
  "'n opener \<Rightarrow> (bytes \<Rightarrow> bytes + Snapshot) \<Rightarrow> 'n list \<Rightarrow> Frame list \<Rightarrow> ('n, ctx_error) replay_error option once_st \<Rightarrow> bool" where
  "once_ok opn un files fr s \<longleftrightarrow>
    (\<exists>src scale cs src' out ws. NewReplaySource opn un files = Inr src \<and> Replay_Run opn un scale cs src = (src', out, ws, on_ret s)
      \<and> ((\<exists>e. on_phase s = LoopFailed e) \<or> out = fr @ on_frames s @ on_todo s))
    \<and> (on_returned s \<longrightarrow> on_todo s = []) \<and> (\<forall>r. on_errc s = Some r \<longrightarrow> on_returned s \<and> r = on_ret s)
    \<and> (\<forall>r. on_phase s = LoopDraining r \<or> on_phase s = LoopStopped r \<longrightarrow> on_returned s \<and> r = on_ret s)
    \<and> (\<forall>r. on_phase s = LoopStopped r \<longrightarrow> on_frames s = [])"

lemma once_ok_frame: "once_ok opn un files fr s \<Longrightarrow> once_ok opn un files fr (s\<lparr>on_st := st\<rparr>)"
  by (simp add: once_ok_def)

lemma once_run_ok: "once_run opn un un_info numCPU n files dec S fr dn s \<Longrightarrow> once_ok opn un files fr s"
proof (induction rule: once_run.induct)
  case (on_start src cache st un_trade un_depth scale cs src' out ws err)
  have "NewReplaySource opn un files = Inr src" using on_start(1) by (auto simp: replay_setup_def split: sum.splits)
  with on_start(6) show ?case unfolding once_ok_def by fastforce
next
  case (on_send fr dn s f later)
  then show ?case unfolding once_ok_def by simp (metis not_None_eq)
next
  case (on_return fr dn s)
  then show ?case unfolding once_ok_def by simp
next
  case (on_handle fr dn s f rest cx st')
  then have "on_phase s \<noteq> LoopStopped r" for r by (auto simp: taking_def)
  with on_handle show ?case unfolding once_ok_def by simp
next
  case (on_fail fr dn s f rest cx e)
  then show ?case unfolding once_ok_def by simp blast
next
  case (on_report fr dn s r)
  then show ?case unfolding once_ok_def by auto blast
next
  case (on_stop fr dn s r)
  then show ?case unfolding once_ok_def by auto blast
qed (simp_all add: once_ok_frame)

text \<open>The loop and the stage go through states of \<open>replay_run\<close>.\<close>

lemma once_run_replay:
  "once_run opn un un_info numCPU n files dec S fr dn s \<Longrightarrow> replay_run numCPU (replay_router_config n) dec S fr dn (on_st s)"
proof (induction rule: once_run.induct)
  case (on_start src cache st un_trade un_depth scale cs src' out ws err)
  then show ?case using replay_setup_run [OF on_start(1,3-5)] by simp
next
  case (on_handle fr dn s f rest cx st')
  then show ?case using rp_frame by simp
next
  case (on_event fr dn s i ev rest now)
  then show ?case using rp_event by simp
next
  case (on_result fr dn s i res now)
  then show ?case using rp_result by simp
next
  case (on_query fr dn s cx q)
  then show ?case using rp_query by simp
qed simp_all

lemma repeat_loop_same:
  "repeat_loop i d outs = Inr d' \<Longrightarrow> \<exists>b. (d = None \<or> d = Some b) \<and> (outs \<noteq> [] \<longrightarrow> d' = Some b) \<and> (outs = [] \<longrightarrow> d' = d)
    \<and> (\<forall>x\<in>set outs. \<exists>vs. x = Inr vs \<and> renderDump vs = b)"
proof (induction i d outs rule: repeat_loop.induct)
  case (3 i d vs outs)
  show ?case
  proof (cases d)
    case None
    then have "repeat_loop (i + 1) (Some (renderDump vs)) outs = Inr d'" using "3.prems" by simp
    from "3.IH"(1) [OF None this] show ?thesis using None by (cases "outs = []") auto
  next
    case (Some b)
    then have b: "b = renderDump vs" and r: "repeat_loop (i + 1) (Some b) outs = Inr d'" using "3.prems" by (auto split: if_splits)
    from "3.IH"(2) [OF Some _ r] b show ?thesis using Some by (cases "outs = []") auto
  qed
qed auto

text \<open>What \<open>run\<close> writes is the dump of every repeat.\<close>

lemma replay_command_writes:
  fixes once :: "nat \<Rightarrow> 'e + BookView list"
  assumes "replay_command repeat path once ok w = Inr w'"
  shows "\<exists>dump. (\<forall>i<nat (max repeat 1). \<exists>vs. once i = Inr vs \<and> renderDump vs = dump)
    \<and> w' = (if path = ''-'' then w\<lparr>dw_stdout := dw_stdout w @ dump\<rparr> else w\<lparr>dw_files := (dw_files w)(path \<mapsto> dump)\<rparr>)"
proof -
  obtain d where d: "repeat_loop 0 None (map once [0..<nat (max repeat 1)]) = Inr d"
    and w: "writeDump ok path (case d of None \<Rightarrow> [] | Some b \<Rightarrow> b) w = (Inr w' :: 'e command_error + dump_world)"
    using assms by (auto simp: replay_command_def Let_def split: sum.splits)
  have "map once [0..<nat (max repeat 1)] \<noteq> []" by simp
  then obtain b where "d = Some b" "\<forall>x\<in>set (map once [0..<nat (max repeat 1)]). \<exists>vs. x = Inr vs \<and> renderDump vs = b"
    using repeat_loop_same [OF d] by auto
  with w show ?thesis by (intro exI [of _ b]) (auto simp: writeDump_def split: if_splits)
qed

lemma NewReplaySource_files: "NewReplaySource opn un files = Inr src \<Longrightarrow> src_files src = files"
proof -
  assume new: "NewReplaySource opn un files = Inr src"
  let ?s = "\<lparr>src_files = files, src_meta = None, src_store = newSnapshotStore, src_frames = 0, src_drops = 0\<rparr>"
  have "src_files (fst (scan opn un ?s)) = files"
    using each_feed [of opn un scan_record files ?s] by (simp add: scan_def feed_scan)
  then show ?thesis using new by (auto simp: NewReplaySource_def split: if_splits prod.splits option.splits)
qed

lemma once_run_decoder: "once_run opn un un_info numCPU n files dec S fr dn s \<Longrightarrow> \<exists>ut ud cache. dec = Decode ut ud cache"
  by (induction rule: once_run.induct) blast+

text \<open>When the loop has ended, what it handled is what the source sent, and every frame is counted.\<close>

lemma once_stopped:
  assumes "once_run opn un un_info numCPU n files dec S fr dn s" and "on_phase s = LoopStopped err"
  shows "\<exists>src scale cs src' ws. NewReplaySource opn un files = Inr src \<and> Replay_Run opn un scale cs src = (src', fr, ws, err)"
    and "replay_ok numCPU (replay_router_config n) dec (\<lambda>_ _. True) S fr dn (on_st s)"
    and "rp_routed (on_st s) + rp_decodeErrs (on_st s) = of_nat (length fr)"
proof -
  have "on_ret s = err" "on_frames s = []" "on_todo s = []" "\<nexists>e. on_phase s = LoopFailed e"
    using once_run_ok [OF assms(1)] assms(2) by (auto simp: once_ok_def)
  then show "\<exists>src scale cs src' ws. NewReplaySource opn un files = Inr src \<and> Replay_Run opn un scale cs src = (src', fr, ws, err)"
    using once_run_ok [OF assms(1)] unfolding once_ok_def by auto
  obtain ut ud cache where "dec = Decode ut ud cache" using once_run_decoder [OF assms(1)] by blast
  then have ev: "event_ok True (\<lambda>_ _. True) S ev" if "dec f = Inr ev" for f ev
    using that Decode_kind [of ut ud cache f ev] by (auto simp: event_ok_def)
  have run: "replay_run numCPU (replay_router_config n) dec S fr dn (on_st s)" by (rule once_run_replay [OF assms(1)])
  show "replay_ok numCPU (replay_router_config n) dec (\<lambda>_ _. True) S fr dn (on_st s)" by (rule replay_run_ok [OF run ev])
  show "rp_routed (on_st s) + rp_decodeErrs (on_st s) = of_nat (length fr)" using replay_accounts [OF run, of "\<lambda>_ _. True"] ev by blast
qed

section \<open>Properties\<close>

text \<open>
  C7. A replay reads its books only after the whole recording has gone through them. However the source,
  the loop and the stage are interleaved, and wherever the \<open>select\<close> picks the source's report while
  frames are still in the channel: when the loop has ended, the frames handled are exactly those the
  source sent, in order, none lost in the channel, and the error it ends with is the source's. When
  that is nil, every file of the recording was read to a clean end and every frame in it was handled;
  each is counted as routed or as a decoding error. Once the queues are empty and the books live, every
  event decoded from the recording has been applied to its book, each symbol's in order.
\<close>

theorem replayOnce_complete:
  assumes "once_run opn un un_info numCPU n files dec S fr dn s" and "on_phase s = LoopStopped err"
  shows "(\<exists>src scale cs src' ws. NewReplaySource opn un files = Inr src \<and> Replay_Run opn un scale cs src = (src', fr, ws, err))
    \<and> (err = None \<longrightarrow> (\<exists>recss. list_all2 (reads opn un) files recss \<and> fr = frames_of (concat recss)))
    \<and> rp_routed (on_st s) + rp_decodeErrs (on_st s) = of_nat (length fr)
    \<and> (queuesEmpty (rp_router (on_st s)) \<longrightarrow> snd (allLive cx (rp_symbols (on_st s)) (rp_router (on_st s))) \<longrightarrow>
        (\<forall>sy. filter (\<lambda>ev. eventSymbol ev = Some sy) dn = filter (\<lambda>ev. eventSymbol ev = Some sy) (decoded dec fr)))"
proof -
  note stop = once_stopped [OF assms]
  obtain src scale cs src' ws where src: "NewReplaySource opn un files = Inr src" "Replay_Run opn un scale cs src = (src', fr, ws, err)"
    using stop(1) by blast
  have files: "\<exists>recss. list_all2 (reads opn un) files recss \<and> fr = frames_of (concat recss)" if "err = None"
    using Replay_Run_spec [OF src(2)] that NewReplaySource_files [OF src(1)] by simp
  have stage: "router_run numCPU (replay_router_config n) True (\<lambda>_ _. True) S (decoded dec fr) dn (rp_router (on_st s))"
    using stop(2) by (simp add: replay_ok_def)
  have "filter (\<lambda>ev. eventSymbol ev = Some sy) dn = filter (\<lambda>ev. eventSymbol ev = Some sy) (decoded dec fr)"
    if "queuesEmpty (rp_router (on_st s))" "snd (allLive cx (rp_symbols (on_st s)) (rp_router (on_st s)))" for sy
    by (rule settled_handled(1) [OF stage replay_settled(1) [OF stop(2) that]])
  then show ?thesis using src files stop(3) by blast
qed

section \<open>A concrete replay\<close>

text \<open>A recording of one delta.\<close>

definition ex_once_entry :: rec_entry where
  "ex_once_entry = \<lparr>e_kind = KFrame, e_at = 5, e_payload = Data ex_frame, e_snapshot = zero_Snapshot\<rparr>"

definition ex_once_opener :: "int opener" where
  "ex_once_opener = disk_opener (fs (take_entry ex_io ex_recorder (0, ex_once_entry)))"

lemma ex_once_source:
  "\<exists>src src' ws. NewReplaySource ex_once_opener (\<lambda>_. Inl []) [0] = Inr src \<and> Meta src = ''{}''
    \<and> Replay_Run ex_once_opener (\<lambda>_. Inl []) None [] src = (src', [ex_frame], ws, None)"
proof -
  let ?des = "[(0 :: u64, ex_once_entry)]"
  have "length (Data ex_frame) \<le> 300" by code_simp
  then have "length (Data ex_frame) \<le> MaxPayloadSize" by (simp add: MaxPayloadSize_def)
  then have "\<forall>p\<in>set ?des. entry_ok ex_io (\<lambda>_. Inl []) (snd p) \<and> 0 \<le> e_at (snd p)"
    by (simp add: entry_ok_def ex_once_entry_def entry_item_def item_ok_def in_i64_def MinInt64_def MaxInt64_def)
  moreover have "hours ?des = {0}" by (simp add: hours_def entry_hour_def hour_of_def ex_once_entry_def hour_ns_def)
  moreover have "map (\<lambda>e. \<lparr>Data = e_payload e, frame_ReceivedAt = e_at e\<rparr>) (entries_of KFrame ?des) = [ex_frame]"
    by (simp add: entries_of_def ex_once_entry_def ex_frame_def)
  ultimately show ?thesis
    using recording_plays_back [OF ex_io_ok(1) ex_recorder_new, of ?des "\<lambda>_. Inl []" None]
    by (auto simp: Let_def ex_once_opener_def)
qed

lemma ex_once:
  "\<exists>s. once_run ex_once_opener (\<lambda>_. Inl []) (\<lambda>_. Inr ex_info) 1 1 [0] (Decode (\<lambda>_. Inl []) (\<lambda>_. Inr ex_raw) ex_cache) S [ex_frame] [] s
    \<and> on_phase s = LoopStopped None"
proof -
  let ?run = "once_run ex_once_opener (\<lambda>_. Inl []) (\<lambda>_. Inr ex_info) 1 1 [0] (Decode (\<lambda>_. Inl []) (\<lambda>_. Inr ex_raw) ex_cache) S"
  obtain src src' ws where src: "NewReplaySource ex_once_opener (\<lambda>_. Inl []) [0] = Inr src" "Meta src = ''{}''"
    "Replay_Run ex_once_opener (\<lambda>_. Inl []) None [] src = (src', [ex_frame], ws, None)" using ex_once_source by blast
  let ?r = "\<lparr>shards = [new_shard (replay_router_config 1) 0], started = True, closeOnce = False\<rparr>"
  let ?st = "\<lparr>rp_router = ?r, rp_symbols = [], rp_decodeErrs = 0, rp_routed = 0\<rparr>"
  have "ParseExchangeInfo (\<lambda>_. Inr ex_info) ''{}'' = Inr ex_cache" using ex_cache_parsed by (simp add: ParseExchangeInfo_def)
  then have new: "replay_setup ex_once_opener (\<lambda>_. Inl []) (\<lambda>_. Inr ex_info) 1 1 [0] = Inr (src, ex_cache, ?st)"
    by (simp add: replay_setup_def src NewRouter_def replay_router_config_def Router_Start_def)
  obtain st' where h: "replay_handle None (Decode (\<lambda>_. Inl []) (\<lambda>_. Inr ex_raw) ex_cache) ex_frame ?st = Inr (Some st')"
    by (simp add: replay_handle_def ex_decode Route_def eventSymbol_def ex_decoded_def new_shard_def replay_router_config_def
        update_shard_def zero_Event_def)
  define s0 :: "(int, ctx_error) replay_error option once_st" where "s0 = \<lparr>on_todo = [ex_frame], on_ret = None, on_returned = False, on_frames = [], on_errc = None, on_phase = LoopRouting, on_st = ?st\<rparr>"
  have "?run [] [] s0" unfolding s0_def
    by (rule on_start [OF new refl _ _ _ src(3)]) (simp_all add: in_i64_def MinInt64_def MaxInt64_def)
  from on_send [OF this, of ex_frame "[]"] have "?run [] [] (s0\<lparr>on_todo := [], on_frames := [ex_frame]\<rparr>)"
    by (simp add: s0_def replay_frameCap_def)
  from on_return [OF this] have "?run [] [] (s0\<lparr>on_todo := [], on_frames := [ex_frame], on_returned := True, on_errc := Some None\<rparr>)"
    by (simp add: s0_def)
  from on_report [OF this, of None]
  have "?run [] [] (s0\<lparr>on_todo := [], on_frames := [ex_frame], on_returned := True, on_phase := LoopDraining None\<rparr>)" by (simp add: s0_def)
  from on_handle [OF this, of ex_frame "[]" None st'] h
  have "?run [ex_frame] [] (s0\<lparr>on_todo := [], on_returned := True, on_phase := LoopDraining None, on_st := st'\<rparr>)"
    by (simp add: s0_def taking_def)
  from on_stop [OF this, of None] show ?thesis by (auto simp: s0_def)
qed

text \<open>
  C7 on a recording of one delta, the source's report having been taken while its frame was still in the
  channel.
\<close>

theorem replayOnce_complete_witness:
  "\<exists>s recss. once_run ex_once_opener (\<lambda>_. Inl []) (\<lambda>_. Inr ex_info) 1 1 [0] (Decode (\<lambda>_. Inl []) (\<lambda>_. Inr ex_raw) ex_cache) (\<lambda>_ _. True) [ex_frame] [] s
    \<and> on_phase s = LoopStopped None \<and> list_all2 (reads ex_once_opener (\<lambda>_. Inl [])) [0] recss \<and> [ex_frame] = frames_of (concat recss)
    \<and> rp_routed (on_st s) + rp_decodeErrs (on_st s) = 1"
proof -
  obtain s where s: "once_run ex_once_opener (\<lambda>_. Inl []) (\<lambda>_. Inr ex_info) 1 1 [0] (Decode (\<lambda>_. Inl []) (\<lambda>_. Inr ex_raw) ex_cache) (\<lambda>_ _. True) [ex_frame] [] s"
    "on_phase s = LoopStopped None" using ex_once by blast
  from replayOnce_complete [OF s, of "\<lambda>_. patient"] s show ?thesis by (intro exI [of _ s]) auto
qed

end
