(* ===== verification/Flags.thy ===== *)
theory Flags
  imports Prelude
begin

text \<open>
  Command lines, as both commands read them through \<open>flag.Parse\<close>: \<open>parseOne\<close> takes one flag off the
  arguments, \<open>Parse\<close> takes flags until the first argument that is not one. A flag is the function that
  stores its value in the configuration of the command, with whether it is a boolean one, which
  takes its value only after an equals sign. The language of the command lines is stated apart, by how a
  setting may be spelled, and is shown to be exactly what \<open>Parse\<close> accepts.
\<close>

record ('c, 'e) flag =
  is_bool_flag :: bool
  flag_Set :: "bytes \<Rightarrow> 'c \<Rightarrow> 'e + 'c"

type_synonym ('c, 'e) flags = "bytes \<rightharpoonup> ('c, 'e) flag"

datatype 'e flag_failure =
    BadFlagSyntax bytes
  | FlagNotDefined bytes
  | HelpRequested
  | FlagNeedsArgument bytes
  | InvalidFlagValue bytes bytes 'e

datatype 'c flag_turn = NoFlag "bytes list" | Seen 'c "bytes list"

text \<open>The name ends at the first equals sign after its first character, which is not one.\<close>

definition name_part :: "bytes \<Rightarrow> bytes" where
  "name_part s = takeWhile (\<lambda>c. c \<noteq> CHR ''='') s"

definition value_part :: "bytes \<Rightarrow> bytes option" where
  "value_part s = (case dropWhile (\<lambda>c. c \<noteq> CHR ''='') s of [] \<Rightarrow> None | e # v \<Rightarrow> Some v)"

definition set_flag :: "('c, 'e) flag \<Rightarrow> bytes \<Rightarrow> bytes \<Rightarrow> bytes list \<Rightarrow> 'c \<Rightarrow> 'e flag_failure + 'c flag_turn" where
  "set_flag fl name v rest c =
    (case flag_Set fl v c of Inl e \<Rightarrow> Inl (InvalidFlagValue v name e) | Inr c' \<Rightarrow> Inr (Seen c' rest))"

definition take_flag :: "('c, 'e) flags \<Rightarrow> bytes \<Rightarrow> bytes list \<Rightarrow> 'c \<Rightarrow> 'e flag_failure + 'c flag_turn" where
  "take_flag formal s rest c =
    (let name = name_part s
     in case formal name of
          None \<Rightarrow> if name = ''help'' \<or> name = ''h'' then Inl HelpRequested else Inl (FlagNotDefined name)
        | Some fl \<Rightarrow>
           if is_bool_flag fl
           then set_flag fl name (case value_part s of None \<Rightarrow> ''true'' | Some v \<Rightarrow> v) rest c
           else (case value_part s of
                   Some v \<Rightarrow> set_flag fl name v rest c
                 | None \<Rightarrow> (case rest of [] \<Rightarrow> Inl (FlagNeedsArgument name) | v # rest' \<Rightarrow> set_flag fl name v rest' c)))"

definition parseOne :: "('c, 'e) flags \<Rightarrow> bytes list \<Rightarrow> 'c \<Rightarrow> 'e flag_failure + 'c flag_turn" where
  "parseOne formal args c =
    (case args of
       [] \<Rightarrow> Inr (NoFlag [])
     | s # rest \<Rightarrow>
        if length s < 2 \<or> s ! 0 \<noteq> CHR ''-'' then Inr (NoFlag args)
        else if s = ''--'' then Inr (NoFlag rest)
        else let name = drop (if s ! 1 = CHR ''-'' then 2 else 1) s
          in if name ! 0 = CHR ''-'' \<or> name ! 0 = CHR ''='' then Inl (BadFlagSyntax s)
             else take_flag formal name rest c)"

lemma parseOne_shorter: "parseOne formal args c = Inr (Seen c' rest) \<Longrightarrow> length rest < length args"
  by (auto simp: parseOne_def take_flag_def set_flag_def Let_def split: list.splits if_splits option.splits sum.splits)

function Parse :: "('c, 'e) flags \<Rightarrow> bytes list \<Rightarrow> 'c \<Rightarrow> 'e flag_failure + 'c \<times> bytes list" where
  "Parse formal args c =
    (case parseOne formal args c of
       Inl e \<Rightarrow> Inl e
     | Inr (NoFlag rest) \<Rightarrow> Inr (c, rest)
     | Inr (Seen c' rest) \<Rightarrow> Parse formal rest c')"
  by pat_completeness auto
termination by (relation "measure (\<lambda>(formal, args, c). length args)") (auto dest: parseOne_shorter)

declare Parse.simps [simp del]

section \<open>The language of command lines\<close>

datatype spelling = Joined | Separate | Bare

record setting =
  two_dashes :: bool
  how :: spelling
  set_name :: bytes
  set_value :: bytes

definition dashed :: "setting \<Rightarrow> bytes" where
  "dashed s = (if two_dashes s then ''--'' else ''-'') @ set_name s"

definition spell :: "setting \<Rightarrow> bytes list" where
  "spell s =
    (case how s of
       Joined \<Rightarrow> [dashed s @ ''='' @ set_value s]
     | Separate \<Rightarrow> [dashed s, set_value s]
     | Bare \<Rightarrow> [dashed s])"

text \<open>A boolean flag is bare for true or has its value joined; any other has a value either way.\<close>

definition setting_ok :: "('c, 'e) flags \<Rightarrow> setting \<Rightarrow> bool" where
  "setting_ok formal s =
    (case formal (set_name s) of
       None \<Rightarrow> False
     | Some fl \<Rightarrow> (case how s of
         Joined \<Rightarrow> True | Separate \<Rightarrow> \<not> is_bool_flag fl | Bare \<Rightarrow> is_bool_flag fl \<and> set_value s = ''true''))"

fun store :: "('c, 'e) flags \<Rightarrow> setting list \<Rightarrow> 'c \<Rightarrow> 'c option" where
  "store formal [] c = Some c"
| "store formal (s # ss) c =
    (case formal (set_name s) of
       None \<Rightarrow> None
     | Some fl \<Rightarrow> (case flag_Set fl (set_value s) c of Inl e \<Rightarrow> None | Inr c' \<Rightarrow> store formal ss c'))"

text \<open>What the flags stop at: the end, an argument that is not a flag, or two dashes, which are dropped.\<close>

definition ends_flags :: "bytes list \<Rightarrow> bytes list \<Rightarrow> bool" where
  "ends_flags tail rest \<longleftrightarrow> tail = ''--'' # rest
    \<or> tail = rest \<and> (case rest of [] \<Rightarrow> True | a # _ \<Rightarrow> length a < 2 \<or> a ! 0 \<noteq> CHR ''-'')"

definition flag_name :: "bytes \<Rightarrow> bool" where
  "flag_name n \<longleftrightarrow> n \<noteq> [] \<and> hd n \<noteq> CHR ''-'' \<and> CHR ''='' \<notin> set n"

section \<open>Parsing is exact\<close>

lemma parts_joined: "CHR ''='' \<notin> set n \<Longrightarrow> name_part (n @ CHR ''='' # v) = n \<and> value_part (n @ CHR ''='' # v) = Some v"
  by (induction n) (auto simp: name_part_def value_part_def)

lemma parts_plain: "CHR ''='' \<notin> set n \<Longrightarrow> name_part n = n \<and> value_part n = None"
  by (induction n) (auto simp: name_part_def value_part_def)

lemma parts_split: "s = name_part s @ (case value_part s of None \<Rightarrow> [] | Some v \<Rightarrow> CHR ''='' # v)"
proof -
  have "dropWhile (\<lambda>c. c \<noteq> CHR ''='') s = (case value_part s of None \<Rightarrow> [] | Some v \<Rightarrow> CHR ''='' # v)"
  proof (cases "dropWhile (\<lambda>c. c \<noteq> CHR ''='') s")
    case (Cons e v)
    then show ?thesis using hd_dropWhile [of "\<lambda>c. c \<noteq> CHR ''=''" s] by (simp add: value_part_def)
  next
    case Nil
    then show ?thesis unfolding value_part_def by (simp only: list.case option.case)
  qed
  then show ?thesis using takeWhile_dropWhile_id [of "\<lambda>c. c \<noteq> CHR ''=''" s] by (simp add: name_part_def)
qed

text \<open>An argument that starts a flag, and the text after its dashes.\<close>

lemma parseOne_flag:
  assumes "body \<noteq> []" and "hd body \<noteq> CHR ''-''" and "hd body \<noteq> CHR ''=''"
  shows "parseOne formal (((if two then ''--'' else ''-'') @ body) # rest) c = take_flag formal body rest c"
  using assms by (cases body) (auto simp: parseOne_def Let_def)

lemma parseOne_spelled:
  assumes "setting_ok formal s" and "flag_name (set_name s)"
  shows "parseOne formal (spell s @ rest) c =
    (case flag_Set (the (formal (set_name s))) (set_value s) c of
       Inl e \<Rightarrow> Inl (InvalidFlagValue (set_value s) (set_name s) e) | Inr c' \<Rightarrow> Inr (Seen c' rest))"
proof -
  obtain fl where fl: "formal (set_name s) = Some fl" using assms(1) by (auto simp: setting_ok_def split: option.splits)
  have n: "CHR ''='' \<notin> set (set_name s)" "set_name s \<noteq> []" "hd (set_name s) \<noteq> CHR ''-''" "hd (set_name s) \<noteq> CHR ''=''"
    using assms(2) hd_in_set [of "set_name s"] unfolding flag_name_def by (fast, fast, fast, metis)
  let ?d = "if two_dashes s then ''--'' else ''-''"
  have one: "parseOne formal ((?d @ set_name s @ v) # r) c = take_flag formal (set_name s @ v) r c" for v r
    using n parseOne_flag [of "set_name s @ v" formal "two_dashes s" r c] by simp
  have joined: "parseOne formal ((dashed s @ CHR ''='' # v) # r) c = take_flag formal (set_name s @ CHR ''='' # v) r c" for v r
    using one [of "CHR ''='' # v"] by (simp add: dashed_def)
  have plain: "parseOne formal (dashed s # r) c = take_flag formal (set_name s) r c" for r
    using one [of "[]"] by (simp add: dashed_def)
  show ?thesis
    using assms(1) fl parts_joined [OF n(1)] parts_plain [OF n(1)]
    by (cases "how s") (auto simp: spell_def setting_ok_def joined plain take_flag_def set_flag_def Let_def split: sum.split)
qed

lemma Parse_stop:
  assumes "ends_flags tail rest"
  shows "Parse formal tail c = Inr (c, rest)"
  using assms by (subst Parse.simps) (auto simp: ends_flags_def parseOne_def split: list.splits)

lemma Parse_spelled:
  assumes "\<forall>s\<in>set ss. setting_ok formal s" and "\<forall>n\<in>dom formal. flag_name n" and "ends_flags tail rest" and "store formal ss c = Some c'"
  shows "Parse formal (concat (map spell ss) @ tail) c = Inr (c', rest)"
  using assms(1,4)
proof (induction ss arbitrary: c)
  case Nil
  then show ?case using Parse_stop [OF assms(3)] by simp
next
  case (Cons s ss)
  have "flag_name (set_name s)" using Cons.prems(1) assms(2) by (auto simp: setting_ok_def split: option.splits)
  then have "parseOne formal (spell s @ concat (map spell ss) @ tail) c =
      (case flag_Set (the (formal (set_name s))) (set_value s) c of
        Inl e \<Rightarrow> Inl (InvalidFlagValue (set_value s) (set_name s) e) | Inr c' \<Rightarrow> Inr (Seen c' (concat (map spell ss) @ tail)))"
    using Cons.prems(1) by (intro parseOne_spelled) simp_all
  with Cons show ?case by (subst Parse.simps) (auto split: option.splits sum.splits)
qed

lemma parseOne_seen:
  assumes "parseOne formal args c = Inr (Seen c' rest)"
  shows "\<exists>s. setting_ok formal s \<and> args = spell s @ rest \<and> store formal [s] c = Some c'"
proof -
  obtain a r where args: "args = a # r" using assms by (cases args) (auto simp: parseOne_def)
  then have dash: "2 \<le> length a" "a ! 0 = CHR ''-''" "a \<noteq> ''--''" using assms by (auto simp: parseOne_def split: if_splits)
  define two where "two = (a ! 1 = CHR ''-'')"
  define b where "b = drop (if two then 2 else 1) a"
  have a: "a = (if two then ''--'' else ''-'') @ b"
    using dash by (cases a; cases "tl a") (auto simp: two_def b_def)
  have t: "take_flag formal b r c = Inr (Seen c' rest)"
    using assms dash by (auto simp: args parseOne_def Let_def b_def two_def split: if_splits)
  let ?s = "\<lambda>h v. \<lparr>two_dashes = two, how = h, set_name = name_part b, set_value = v\<rparr>"
  obtain fl where fl: "formal (name_part b) = Some fl" using t by (auto simp: take_flag_def Let_def split: option.splits if_splits)
  have ok: "flag_Set fl v c = Inr c' \<Longrightarrow> store formal [?s h v] c = Some c'" for h v by (simp add: fl)
  show ?thesis
  proof (cases "value_part b")
    case (Some v)
    then have "flag_Set fl v c = Inr c'" "rest = r" using t fl by (auto simp: take_flag_def set_flag_def Let_def split: if_splits sum.splits)
    moreover have "args = spell (?s Joined v) @ r" using Some parts_split [of b] by (simp add: args a spell_def dashed_def)
    ultimately show ?thesis using ok fl by (intro exI [of _ "?s Joined v"]) (simp add: setting_ok_def)
  next
    case None
    then have b: "name_part b = b" using parts_split [of b] by simp
    show ?thesis
    proof (cases "is_bool_flag fl")
      case True
      then have "flag_Set fl ''true'' c = Inr c'" "rest = r" using t fl None by (auto simp: take_flag_def set_flag_def Let_def split: sum.splits)
      then show ?thesis using ok fl True b
        by (intro exI [of _ "?s Bare ''true''"]) (simp add: setting_ok_def spell_def dashed_def args a)
    next
      case False
      then obtain v where "r = v # rest" "flag_Set fl v c = Inr c'"
        using t fl None by (auto simp: take_flag_def set_flag_def Let_def split: sum.splits list.splits)
      then show ?thesis using ok fl False b
        by (intro exI [of _ "?s Separate v"]) (simp add: setting_ok_def spell_def dashed_def args a)
    qed
  qed
qed

lemma take_flag_seen: "take_flag formal b r c \<noteq> Inr (NoFlag rest)"
  by (simp add: take_flag_def set_flag_def Let_def split: list.split option.split sum.split)

lemma parseOne_no_flag: "parseOne formal args c = Inr (NoFlag rest) \<Longrightarrow> ends_flags args rest"
  using take_flag_seen by (fastforce simp: parseOne_def ends_flags_def Let_def split: list.splits if_splits)

lemma store_append: "store formal (s # ss) c = (case store formal [s] c of None \<Rightarrow> None | Some c' \<Rightarrow> store formal ss c')"
  by (auto split: option.split sum.split)

lemma Parse_complete:
  assumes "Parse formal args c = Inr (c', rest)"
  shows "\<exists>ss tail. args = concat (map spell ss) @ tail \<and> (\<forall>s\<in>set ss. setting_ok formal s) \<and> ends_flags tail rest \<and> store formal ss c = Some c'"
  using assms
proof (induction formal args c rule: Parse.induct)
  case (1 formal args c)
  show ?case
  proof (cases "parseOne formal args c")
    case (Inl e)
    with "1.prems" show ?thesis by (subst (asm) Parse.simps) simp
  next
    case (Inr turn)
    show ?thesis
    proof (cases turn)
      case (NoFlag r)
      with Inr "1.prems" have "r = rest" "c' = c" by (subst (asm) Parse.simps; simp)+
      moreover have "ends_flags args r" by (rule parseOne_no_flag [of formal _ c]) (simp add: Inr NoFlag)
      ultimately show ?thesis by (intro exI [of _ "[]"] exI [of _ args]) simp
    next
      case (Seen c1 r)
      with Inr "1.prems" have "Parse formal r c1 = Inr (c', rest)" by (subst (asm) Parse.simps) simp
      from "1.IH" [OF Inr Seen this] obtain ss tail where ss: "r = concat (map spell ss) @ tail" "\<forall>s\<in>set ss. setting_ok formal s"
        "ends_flags tail rest" "store formal ss c1 = Some c'" by blast
      obtain s where s: "setting_ok formal s" "args = spell s @ r" "store formal [s] c = Some c1"
        using parseOne_seen [of formal args c c1 r] Inr Seen by auto
      have "store formal (s # ss) c = Some c'" by (subst store_append) (simp only: s(3) option.case ss(4))
      with ss s show ?thesis by (intro exI [of _ "s # ss"] exI [of _ tail]) simp
    qed
  qed
qed

text \<open>What every flag keeps of the configuration, the command line keeps.\<close>

lemma Parse_keeps:
  assumes "Parse formal args c = Inr (c', rest)" and "P c"
    and "\<And>n fl v c c'. formal n = Some fl \<Longrightarrow> P c \<Longrightarrow> flag_Set fl v c = Inr c' \<Longrightarrow> P c'"
  shows "P c'"
proof -
  have "store formal ss c = Some c' \<Longrightarrow> P c \<Longrightarrow> P c'" for ss c
    by (induction ss arbitrary: c) (auto split: option.splits sum.splits intro: assms(3))
  with Parse_complete [OF assms(1)] assms(2) show ?thesis by blast
qed

text \<open>
  Given flags whose names are not empty and have no leading dash and no equals sign, \<open>Parse\<close> succeeds
  with a configuration and the remaining arguments exactly on the command lines that are a sequence of
  settings followed by the remaining arguments, and the configuration is what storing the settings in that
  order gives.
\<close>

lemma Parse_exact:
  assumes "\<forall>n\<in>dom formal. flag_name n"
  shows "Parse formal args c = Inr (c', rest) \<longleftrightarrow>
    (\<exists>ss tail. args = concat (map spell ss) @ tail \<and> list_all (setting_ok formal) ss \<and> ends_flags tail rest \<and> store formal ss c = Some c')"
  using Parse_complete [of formal args c c' rest] Parse_spelled [OF _ assms, of _ _ rest c c'] by (auto simp: list_all_iff)

end
