(* ===== verification/Commands.thy ===== *)
theory Commands
  imports RunLog ReplayOnce Flags
begin

text \<open>
  The two \<open>main\<close> functions, from the command line to an exit status: \<^verbatim>\<open>cmd/ingestd/main.go\<close> with the
  flags of the daemon, the workers it starts and the point at which its loop begins, and
  \<^verbatim>\<open>cmd/replay/main.go\<close> with its flags, its profiles and the lines it logs. Reading a number or a
  duration from text is \<open>strconv\<close> and \<open>time.ParseDuration\<close>, the parameter \<open>num\<close>; a floating-point speed
  is an opaque value of type \<open>'f\<close>.
\<close>

record 'f numbers =
  int_of :: "bytes \<Rightarrow> bytes + int"
  duration_of :: "bytes \<Rightarrow> bytes + int"
  float_of :: "bytes \<Rightarrow> bytes + 'f"

datatype value_error = SymbolsFlag flag_error | BadValue bytes

definition ParseBool :: "bytes \<Rightarrow> value_error + bool" where
  "ParseBool v =
    (if v \<in> {''1'', ''t'', ''T'', ''true'', ''TRUE'', ''True''} then Inr True
     else if v \<in> {''0'', ''f'', ''F'', ''false'', ''FALSE'', ''False''} then Inr False
     else Inl (BadValue ''parse error''))"

text \<open>The values of the \<open>flag\<close> package: a parser, and the field it is stored in.\<close>

definition value_flag :: "(bytes \<Rightarrow> bytes + 'v) \<Rightarrow> ('v \<Rightarrow> 'c \<Rightarrow> 'c) \<Rightarrow> ('c, value_error) flag" where
  "value_flag parse put =
    \<lparr>is_bool_flag = False, flag_Set = (\<lambda>v c. case parse v of Inl e \<Rightarrow> Inl (BadValue e) | Inr x \<Rightarrow> Inr (put x c))\<rparr>"

definition text_flag :: "(bytes \<Rightarrow> 'c \<Rightarrow> 'c) \<Rightarrow> ('c, value_error) flag" where
  "text_flag put = value_flag Inr put"

definition bool_flag :: "(bool \<Rightarrow> 'c \<Rightarrow> 'c) \<Rightarrow> ('c, value_error) flag" where
  "bool_flag put =
    \<lparr>is_bool_flag = True, flag_Set = (\<lambda>v c. case ParseBool v of Inl e \<Rightarrow> Inl e | Inr b \<Rightarrow> Inr (put b c))\<rparr>"

text \<open>\<open>flag.Parse\<close> exits on an error: with 0 when help was asked for, with 2 otherwise.\<close>

definition flag_exit :: "'e flag_failure \<Rightarrow> int" where
  "flag_exit e = (case e of HelpRequested \<Rightarrow> 0 | _ \<Rightarrow> 2)"

section \<open>The daemon\<close>

record ingest_flags =
  if_symbols :: "Symbol list"
  if_endpoint :: bytes
  if_restEndpoint :: bytes
  if_shards :: int
  if_metricsAddr :: bytes
  if_summaryEvery :: int
  if_checkEvery :: int
  if_recordDir :: bytes

definition DefaultWSEndpoint :: bytes where
  "DefaultWSEndpoint = ''wss://stream.binance.com:9443''"

definition DefaultRESTEndpoint :: bytes where
  "DefaultRESTEndpoint = ''https://api.binance.com''"

definition ingest_defaults :: "int \<Rightarrow> ingest_flags" where
  "ingest_defaults numCPU =
    \<lparr>if_symbols = [], if_endpoint = DefaultWSEndpoint, if_restEndpoint = DefaultRESTEndpoint, if_shards = numCPU,
     if_metricsAddr = ''127.0.0.1:9090'', if_summaryEvery = 30 * second, if_checkEvery = 5 * 60 * second, if_recordDir = []\<rparr>"

definition symbols_flag :: "(bytes \<Rightarrow> bytes) \<Rightarrow> (ingest_flags, value_error) flag" where
  "symbols_flag uni =
    \<lparr>is_bool_flag = False,
     flag_Set = (\<lambda>v c. case symbolList_Set uni v (if_symbols c) of
       Inl e \<Rightarrow> Inl (SymbolsFlag e) | Inr l \<Rightarrow> Inr (c\<lparr>if_symbols := l\<rparr>))\<rparr>"

definition ingest_formal :: "'f numbers \<Rightarrow> (bytes \<Rightarrow> bytes) \<Rightarrow> (ingest_flags, value_error) flags" where
  "ingest_formal num uni =
    [''symbols'' \<mapsto> symbols_flag uni,
     ''endpoint'' \<mapsto> text_flag (\<lambda>v c. c\<lparr>if_endpoint := v\<rparr>),
     ''rest-endpoint'' \<mapsto> text_flag (\<lambda>v c. c\<lparr>if_restEndpoint := v\<rparr>),
     ''shards'' \<mapsto> value_flag (int_of num) (\<lambda>v c. c\<lparr>if_shards := v\<rparr>),
     ''metrics-addr'' \<mapsto> text_flag (\<lambda>v c. c\<lparr>if_metricsAddr := v\<rparr>),
     ''summary-interval'' \<mapsto> value_flag (duration_of num) (\<lambda>v c. c\<lparr>if_summaryEvery := v\<rparr>),
     ''check-interval'' \<mapsto> value_flag (duration_of num) (\<lambda>v c. c\<lparr>if_checkEvery := v\<rparr>),
     ''record-dir'' \<mapsto> text_flag (\<lambda>v c. c\<lparr>if_recordDir := v\<rparr>)]"

text \<open>The arguments after the flags are not looked at.\<close>

definition ingestd_flags :: "'f numbers \<Rightarrow> (bytes \<Rightarrow> bytes) \<Rightarrow> int \<Rightarrow> bytes list \<Rightarrow> value_error flag_failure + ingest_flags" where
  "ingestd_flags num uni numCPU args =
    (case Parse (ingest_formal num uni) args (ingest_defaults numCPU) of
       Inl e \<Rightarrow> Inl e
     | Inr (c, rest) \<Rightarrow> Inr (if if_symbols c = [] then c\<lparr>if_symbols := [''BTC-USDT'']\<rparr> else c))"

text \<open>What \<open>run\<close> reads of the flags; \<open>disk\<close> is whether a directory can be made and what it holds.\<close>

definition ingest_config_of :: "(bytes \<Rightarrow> bool \<times> (int \<rightharpoonup> bytes)) \<Rightarrow> ingest_flags \<Rightarrow> ingest_config" where
  "ingest_config_of disk c =
    \<lparr>ic_symbols = if_symbols c, ic_endpoint = if_endpoint c, ic_restEndpoint = if_restEndpoint c, ic_shards = if_shards c,
     ic_recording = (if if_recordDir c \<noteq> [] then Some (disk (if_recordDir c)) else None)\<rparr>"

datatype worker = MetricsServer bytes | Checker "Symbol list" int

definition workers :: "ingest_flags \<Rightarrow> worker list" where
  "workers c = MetricsServer (if_metricsAddr c) # (if if_checkEvery c > 0 then [Checker (if_symbols c) (if_checkEvery c)] else [])"

definition started_attrs :: "ingest_flags \<Rightarrow> Router \<Rightarrow> DepthClient \<Rightarrow> attr list" where
  "started_attrs c r client =
    [Attr ''symbols'' (VString (symbolList_String (if_symbols c))), Attr ''shards'' (VInt (int (length (shards r)))),
     Attr ''depth_limit'' (VInt (dc_limit client)), Attr ''metrics_addr'' (VString (if_metricsAddr c)),
     Attr ''record_dir'' (VString (if_recordDir c))]"

text \<open>
  \<open>run\<close> up to its loop: the stages, the workers, the line that says so, and the ticker, which
  \<open>time.NewTicker\<close> makes of a positive interval only.
\<close>

datatype ingest_start =
    NotStarted ingest_error
  | TickerPanic "attr list"
  | Looping InstrumentCache bytes DepthClient ingest_st "worker list" "attr list"

definition ingestd_start ::
  "http_get \<Rightarrow> (bytes list \<Rightarrow> bytes) \<Rightarrow> (bytes \<Rightarrow> bytes + symbol_info list) \<Rightarrow> int \<Rightarrow> (bytes \<Rightarrow> bool \<times> (int \<rightharpoonup> bytes))
    \<Rightarrow> ingest_flags \<Rightarrow> ingest_start" where
  "ingestd_start http marshal un_info numCPU disk c =
    (case ingest_setup http marshal un_info numCPU (ingest_config_of disk c) of
       Inl e \<Rightarrow> NotStarted e
     | Inr (cache, url, client, st) \<Rightarrow>
        let line = started_attrs c (ig_router st) client
        in if if_summaryEvery c \<le> 0 then TickerPanic line else Looping cache url client st (workers c) line)"

text \<open>How \<open>main\<close> ends: \<open>run\<close> returned nil or a cancellation, another error, or panicked.\<close>

datatype 'e run_end = RunOK | RunCanceled | RunFailed 'e | RunPanicked

definition main_exit :: "'e run_end \<Rightarrow> int" where
  "main_exit e = (case e of RunOK \<Rightarrow> 0 | RunCanceled \<Rightarrow> 0 | RunFailed x \<Rightarrow> 1 | RunPanicked \<Rightarrow> 2)"

section \<open>The replay\<close>

record 'f replay_flags =
  rf_files :: "bytes list"
  rf_out :: bytes
  rf_speed :: 'f
  rf_shards :: int
  rf_depth :: int
  rf_repeat :: int
  rf_cpuProfile :: bytes
  rf_memProfile :: bytes
  rf_quiet :: bool

definition replay_defaults :: "'f \<Rightarrow> int \<Rightarrow> 'f replay_flags" where
  "replay_defaults zero numCPU =
    \<lparr>rf_files = [], rf_out = ''-'', rf_speed = zero, rf_shards = numCPU, rf_depth = 0, rf_repeat = 1,
     rf_cpuProfile = [], rf_memProfile = [], rf_quiet = False\<rparr>"

definition replay_formal :: "'f numbers \<Rightarrow> ('f replay_flags, value_error) flags" where
  "replay_formal num =
    [''out'' \<mapsto> text_flag (\<lambda>v c. c\<lparr>rf_out := v\<rparr>),
     ''speed'' \<mapsto> value_flag (float_of num) (\<lambda>v c. c\<lparr>rf_speed := v\<rparr>),
     ''shards'' \<mapsto> value_flag (int_of num) (\<lambda>v c. c\<lparr>rf_shards := v\<rparr>),
     ''depth'' \<mapsto> value_flag (int_of num) (\<lambda>v c. c\<lparr>rf_depth := v\<rparr>),
     ''repeat'' \<mapsto> value_flag (int_of num) (\<lambda>v c. c\<lparr>rf_repeat := v\<rparr>),
     ''cpuprofile'' \<mapsto> text_flag (\<lambda>v c. c\<lparr>rf_cpuProfile := v\<rparr>),
     ''memprofile'' \<mapsto> text_flag (\<lambda>v c. c\<lparr>rf_memProfile := v\<rparr>),
     ''quiet'' \<mapsto> bool_flag (\<lambda>b c. c\<lparr>rf_quiet := b\<rparr>)]"

datatype usage_error = FlagError "value_error flag_failure" | NoFiles

definition replay_flags_of :: "'f numbers \<Rightarrow> 'f \<Rightarrow> int \<Rightarrow> bytes list \<Rightarrow> usage_error + 'f replay_flags" where
  "replay_flags_of num zero numCPU args =
    (case Parse (replay_formal num) args (replay_defaults zero numCPU) of
       Inl e \<Rightarrow> Inl (FlagError e)
     | Inr (c, files) \<Rightarrow> if files = [] then Inl NoFiles else Inr (c\<lparr>rf_files := files\<rparr>))"

definition usage_exit :: "usage_error \<Rightarrow> int" where
  "usage_exit e = (case e of FlagError x \<Rightarrow> flag_exit x | NoFiles \<Rightarrow> 2)"

text \<open>Log levels: \<open>-quiet\<close> raises the threshold of the handler from info to error.\<close>

definition level_value :: "log_level \<Rightarrow> int" where
  "level_value l = (case l of LevelInfo \<Rightarrow> 0 | LevelWarn \<Rightarrow> 4 | LevelError \<Rightarrow> 8)"

definition logged :: "bool \<Rightarrow> log_level \<Rightarrow> bool" where
  "logged quiet l = (level_value l \<ge> level_value (if quiet then LevelError else LevelInfo))"

definition replaying_attrs :: "bytes list \<Rightarrow> Router \<Rightarrow> 'n ReplaySource \<Rightarrow> attr list" where
  "replaying_attrs files r src =
    [Attr ''files'' (VInt (int (length files))), Attr ''shards'' (VInt (int (length (shards r)))),
     Attr ''snapshots'' (VInt (int (Store_Len (Snapshots src)))), Attr ''recorded_drops'' (VUint64 (Drops src))]"

definition replayed_attrs :: "'n ReplaySource \<Rightarrow> SnapshotStore \<Rightarrow> replay_st \<Rightarrow> bool \<Rightarrow> attr list" where
  "replayed_attrs src snaps st ok =
    (let rs = Router_Stats (rp_router st)
     in [Attr ''frames'' (VUint64 (Frames src)), Attr ''decode_errors'' (VUint64 (rp_decodeErrs st)),
         Attr ''routed'' (VUint64 (rp_routed st)), Attr ''applied'' (VUint64 (rs_Applied rs)), Attr ''gaps'' (VUint64 (rs_Gaps rs)),
         Attr ''snapshots_used'' (VUint64 (Used snaps)), Attr ''settled'' (VBool ok)])"

text \<open>
  The end of \<open>replayOnce\<close>, after the loop: what the polls of \<open>waitSettled\<close> saw decides only what the line
  says; the books are read either way.
\<close>

definition replay_finish ::
  "(Symbol \<Rightarrow> ask_ctx) \<Rightarrow> 'n ReplaySource \<Rightarrow> SnapshotStore \<Rightarrow> int \<Rightarrow> Router list \<Rightarrow> replay_st \<Rightarrow> attr list \<times> (Symbol \<times> query_error + BookView list)" where
  "replay_finish cx src snaps depth polls st =
    (let ok = waitSettled cx (rp_symbols st) polls
     in (replayed_attrs src snaps st ok, snd (dumpViews cx (rp_symbols st) depth (rp_router st))))"

text \<open>
  Profiles: whether a file can be created, and whether the profiler can start and write. The heap
  profile only logs its errors.
\<close>

record profile_io =
  pf_create :: "bytes \<Rightarrow> bool"
  pf_start_cpu :: bool
  pf_write_heap :: bool

definition writeHeapProfile :: "profile_io \<Rightarrow> bytes \<Rightarrow> bytes list" where
  "writeHeapProfile io path =
    (if \<not> pf_create io path then [''heap profile''] else if \<not> pf_write_heap io then [''heap profile''] else [])"

text \<open>
  The repeats, with the hook that is called at the end of the last one while its books are alive; the
  first component lists the repeats in which it was called.
\<close>

fun repeats_loop ::
  "bool \<Rightarrow> nat \<Rightarrow> nat \<Rightarrow> bytes option \<Rightarrow> ('e + BookView list) list \<Rightarrow> nat list \<times> ('e repeat_error + bytes option)" where
  "repeats_loop mem n i fst_dump [] = ([], Inr fst_dump)"
| "repeats_loop mem n i fst_dump (Inl e # outs) = ([], Inl (ReplayErr e))"
| "repeats_loop mem n i fst_dump (Inr views # outs) =
    (let hook = (if mem \<and> i + 1 = n then [i] else [])
     in case fst_dump of
          None \<Rightarrow> (let (h, r) = repeats_loop mem n (i + 1) (Some (renderDump views)) outs in (hook @ h, r))
        | Some d \<Rightarrow>
           if d \<noteq> renderDump views then (hook, Inl (Differs i))
           else (let (h, r) = repeats_loop mem n (i + 1) (Some d) outs in (hook @ h, r)))"

datatype 'e replay_failure = CPUProfile | CommandErr "'e command_error"

text \<open>\<open>run\<close>: the errors logged by the heap profile, the repeats it was taken in, and the result.\<close>

definition replay_run_command ::
  "profile_io \<Rightarrow> 'f replay_flags \<Rightarrow> (nat \<Rightarrow> 'e + BookView list) \<Rightarrow> (bytes \<Rightarrow> bool) \<Rightarrow> dump_world
    \<Rightarrow> bytes list \<times> nat list \<times> ('e replay_failure + dump_world)" where
  "replay_run_command io c once ok w =
    (let repeats = max (rf_repeat c) 1
     in if rf_cpuProfile c \<noteq> [] \<and> \<not> pf_create io (rf_cpuProfile c) then ([], [], Inl CPUProfile)
        else if rf_cpuProfile c \<noteq> [] \<and> \<not> pf_start_cpu io then ([], [], Inl CPUProfile)
        else case repeats_loop (rf_memProfile c \<noteq> []) (nat repeats) 0 None (map once [0..<nat repeats]) of
             (taken, res) \<Rightarrow>
               (concat (map (\<lambda>_. writeHeapProfile io (rf_memProfile c)) taken), taken,
                case res of
                  Inl e \<Rightarrow> Inl (CommandErr (RepeatErr e))
                | Inr dump \<Rightarrow>
                   (case writeDump ok (rf_out c) (case dump of None \<Rightarrow> [] | Some b \<Rightarrow> b) w of
                      Inl e \<Rightarrow> Inl (CommandErr e) | Inr w' \<Rightarrow> Inr w')))"

section \<open>The flags of the daemon\<close>

lemma ingest_formal_cases:
  assumes "ingest_formal num uni n = Some fl" and "flag_Set fl v c = Inr c'"
  shows "(if_symbols c' = if_symbols c \<or> symbolList_Set uni v (if_symbols c) = Inr (if_symbols c'))
    \<and> (if_shards c' = if_shards c \<or> int_of num v = Inr (if_shards c'))"
  using assms
  by (auto simp: ingest_formal_def symbols_flag_def value_flag_def text_flag_def split: if_splits sum.splits)

lemma length_Router_Start: "Router_Start r = Inr r' \<Longrightarrow> length (shards r') = length (shards r)"
  by (auto simp: Router_Start_def split: if_splits)

lemma ingest_formal_names: "\<forall>n\<in>dom (ingest_formal num uni). flag_name n"
  by (auto simp: ingest_formal_def flag_name_def)

definition daemon_flags_ok :: "ingest_flags \<Rightarrow> bool" where
  "daemon_flags_ok c \<longleftrightarrow> list_all is_pair (if_symbols c) \<and> distinct (if_symbols c) \<and> in_i64 (if_shards c)"

lemma daemon_flags_keep:
  assumes "\<And>v n. int_of num v = Inr n \<Longrightarrow> in_i64 n" and "ingest_formal num uni n = Some fl" and "daemon_flags_ok c"
    and "flag_Set fl v c = Inr c'"
  shows "daemon_flags_ok c'"
  using ingest_formal_cases [OF assms(2,4)] assms(1) [of v] assms(3) symbolList_Set_eq [of uni v "if_symbols c"]
  by (auto simp: daemon_flags_ok_def)

lemma ingestd_flags_ok:
  assumes "ingestd_flags num uni numCPU args = Inr c" and "\<And>v n. int_of num v = Inr n \<Longrightarrow> in_i64 n" and "in_i64 numCPU"
  shows "daemon_flags_ok c \<and> if_symbols c \<noteq> []"
proof -
  obtain c0 rest where p: "Parse (ingest_formal num uni) args (ingest_defaults numCPU) = Inr (c0, rest)"
    and c: "c = (if if_symbols c0 = [] then c0\<lparr>if_symbols := [''BTC-USDT'']\<rparr> else c0)"
    using assms(1) by (auto simp: ingestd_flags_def split: sum.splits prod.splits)
  have "daemon_flags_ok (ingest_defaults numCPU)" using assms(3) by (simp add: daemon_flags_ok_def ingest_defaults_def)
  then have "daemon_flags_ok c0" by (rule Parse_keeps [OF p]) (rule daemon_flags_keep [OF assms(2)])
  moreover have "is_pair ''BTC-USDT''"
    unfolding is_pair_def by (rule exI [of _ "''BTC''"], rule exI [of _ "''USDT''"]) simp
  ultimately show ?thesis by (auto simp: c daemon_flags_ok_def)
qed

section \<open>The repeats of a replay\<close>

text \<open>Taking a profile changes nothing of the loop; it is taken once every repeat has returned.\<close>

lemma repeats_loop_result: "snd (repeats_loop mem n i d outs) = repeat_loop i d outs"
  by (induction mem n i d outs rule: repeats_loop.induct) (auto simp: Let_def split: option.split prod.split)

lemma repeats_loop_hook:
  assumes "i + length outs = n"
  shows "fst (repeats_loop mem n i d outs) \<in> {[], [n - 1]}
    \<and> (fst (repeats_loop mem n i d outs) \<noteq> [] \<longrightarrow> mem \<and> outs \<noteq> [])
    \<and> (is_ok (snd (repeats_loop mem n i d outs)) \<longrightarrow> fst (repeats_loop mem n i d outs) = (if mem \<and> outs \<noteq> [] then [n - 1] else []))"
  using assms
proof (induction mem n i d outs rule: repeats_loop.induct)
  case (3 mem n i d views outs)
  have empty: "i + 1 = n \<longleftrightarrow> outs = []" and len: "i + 1 + length outs = n" using "3.prems" by auto
  show ?case
  proof (cases d)
    case None
    show ?thesis using "3.IH"(1) [OF refl None len] empty None by (cases "outs = []") (auto simp: Let_def split: prod.splits)
  next
    case (Some b)
    show ?thesis
    proof (cases "b = renderDump views")
      case True
      show ?thesis using "3.IH"(2) [OF refl Some _ len] True empty Some by (cases "outs = []") (auto simp: Let_def split: prod.splits)
    qed (use empty Some in \<open>auto simp: Let_def\<close>)
  qed
qed simp_all

lemma repeat_loop_agrees:
  assumes "list_all (\<lambda>x. \<exists>vs. x = Inr vs \<and> renderDump vs = b) outs" and "d = None \<or> d = Some b"
  shows "repeat_loop i d outs = Inr (if outs = [] then d else Some b)"
  using assms by (induction i d outs rule: repeat_loop.induct) (auto split: option.splits)

lemma replay_run_command_result:
  "snd (snd (replay_run_command io c once ok w)) =
    (if rf_cpuProfile c \<noteq> [] \<and> \<not> (pf_create io (rf_cpuProfile c) \<and> pf_start_cpu io) then Inl CPUProfile
     else case replay_command (rf_repeat c) (rf_out c) once ok w of Inl e \<Rightarrow> Inl (CommandErr e) | Inr w' \<Rightarrow> Inr w')"
  using repeats_loop_result [of "rf_memProfile c \<noteq> []" "nat (max (rf_repeat c) 1)" 0 None "map once [0..<nat (max (rf_repeat c) 1)]"]
  by (auto simp: replay_run_command_def replay_command_def Let_def split: prod.splits sum.splits)

lemma replay_formal_names: "\<forall>n\<in>dom (replay_formal num). flag_name n"
  by (auto simp: replay_formal_def flag_name_def)

section \<open>The flags of the replay\<close>

text \<open>
  What the command documents of its flags, apart from the tables that register them: the names, how each may be
  given and which values it takes; and what a list of settings makes of one of them, the last one given
  over the default.
\<close>

definition replay_setting :: "'f numbers \<Rightarrow> setting \<Rightarrow> bool" where
  "replay_setting num s \<longleftrightarrow>
    how s \<noteq> Bare \<and>
      (set_name s \<in> {''out'', ''cpuprofile'', ''memprofile''}
       \<or> set_name s \<in> {''shards'', ''depth'', ''repeat''} \<and> is_ok (int_of num (set_value s))
       \<or> set_name s = ''speed'' \<and> is_ok (float_of num (set_value s)))
    \<or> set_name s = ''quiet'' \<and> (how s = Bare \<and> set_value s = ''true'' \<or> how s = Joined \<and> is_ok (ParseBool (set_value s)))"

definition given :: "bytes \<Rightarrow> (bytes \<Rightarrow> 'e + 'v) \<Rightarrow> setting list \<Rightarrow> 'v \<Rightarrow> 'v" where
  "given name parse ss d =
    fold (\<lambda>s d. if set_name s = name then (case parse (set_value s) of Inl _ \<Rightarrow> d | Inr v \<Rightarrow> v) else d) ss d"

lemma given_Nil [simp]: "given name parse [] d = d"
  by (simp add: given_def)

lemma given_Cons [simp]: "given name parse (s # ss) d =
    given name parse ss (if set_name s = name then (case parse (set_value s) of Inl _ \<Rightarrow> d | Inr v \<Rightarrow> v) else d)"
  by (simp add: given_def)

definition with_settings :: "'f numbers \<Rightarrow> setting list \<Rightarrow> 'f replay_flags \<Rightarrow> 'f replay_flags" where
  "with_settings num ss c =
    \<lparr>rf_files = rf_files c, rf_out = given ''out'' (\<lambda>v. Inr v :: unit + bytes) ss (rf_out c),
     rf_speed = given ''speed'' (float_of num) ss (rf_speed c), rf_shards = given ''shards'' (int_of num) ss (rf_shards c),
     rf_depth = given ''depth'' (int_of num) ss (rf_depth c), rf_repeat = given ''repeat'' (int_of num) ss (rf_repeat c),
     rf_cpuProfile = given ''cpuprofile'' (\<lambda>v. Inr v :: unit + bytes) ss (rf_cpuProfile c),
     rf_memProfile = given ''memprofile'' (\<lambda>v. Inr v :: unit + bytes) ss (rf_memProfile c),
     rf_quiet = given ''quiet'' ParseBool ss (rf_quiet c)\<rparr>"

lemma replay_formal_simps:
  "replay_formal num ''out'' = Some (text_flag (\<lambda>v c. c\<lparr>rf_out := v\<rparr>))"
  "replay_formal num ''speed'' = Some (value_flag (float_of num) (\<lambda>v c. c\<lparr>rf_speed := v\<rparr>))"
  "replay_formal num ''shards'' = Some (value_flag (int_of num) (\<lambda>v c. c\<lparr>rf_shards := v\<rparr>))"
  "replay_formal num ''depth'' = Some (value_flag (int_of num) (\<lambda>v c. c\<lparr>rf_depth := v\<rparr>))"
  "replay_formal num ''repeat'' = Some (value_flag (int_of num) (\<lambda>v c. c\<lparr>rf_repeat := v\<rparr>))"
  "replay_formal num ''cpuprofile'' = Some (text_flag (\<lambda>v c. c\<lparr>rf_cpuProfile := v\<rparr>))"
  "replay_formal num ''memprofile'' = Some (text_flag (\<lambda>v c. c\<lparr>rf_memProfile := v\<rparr>))"
  "replay_formal num ''quiet'' = Some (bool_flag (\<lambda>b c. c\<lparr>rf_quiet := b\<rparr>))"
  by (simp_all add: replay_formal_def)

lemma replay_formal_None:
  "n \<notin> {''out'', ''speed'', ''shards'', ''depth'', ''repeat'', ''cpuprofile'', ''memprofile'', ''quiet''} \<Longrightarrow> replay_formal num n = None"
  by (simp add: replay_formal_def)

lemma replay_store_one:
  "(\<exists>c'. setting_ok (replay_formal num) s \<and> store (replay_formal num) [s] c = Some c') \<longleftrightarrow> replay_setting num s" (is ?ok)
  "setting_ok (replay_formal num) s \<Longrightarrow> store (replay_formal num) [s] c = Some c' \<Longrightarrow> c' = with_settings num [s] c"
proof -
  have "?ok \<and> (setting_ok (replay_formal num) s \<and> store (replay_formal num) [s] c = Some c' \<longrightarrow> c' = with_settings num [s] c)"
  proof (cases "set_name s \<in> {''out'', ''speed'', ''shards'', ''depth'', ''repeat'', ''cpuprofile'', ''memprofile'', ''quiet''}")
    case False
    then show ?thesis using replay_formal_None [OF False, of num] by (simp add: setting_ok_def replay_setting_def)
  next
    case True
    note defs = setting_ok_def replay_setting_def with_settings_def text_flag_def value_flag_def bool_flag_def replay_formal_simps
    consider "set_name s = ''out''" | "set_name s = ''speed''" | "set_name s = ''shards''" | "set_name s = ''depth''"
      | "set_name s = ''repeat''" | "set_name s = ''cpuprofile''" | "set_name s = ''memprofile''" | "set_name s = ''quiet''"
      using True by blast
    then show ?thesis
    proof cases
      case 1
      then show ?thesis by (cases "how s") (auto simp: defs)
    next
      case 2
      then show ?thesis by (cases "how s"; cases "float_of num (set_value s)") (auto simp: defs)
    next
      case 3
      then show ?thesis by (cases "how s"; cases "int_of num (set_value s)") (auto simp: defs)
    next
      case 4
      then show ?thesis by (cases "how s"; cases "int_of num (set_value s)") (auto simp: defs)
    next
      case 5
      then show ?thesis by (cases "how s"; cases "int_of num (set_value s)") (auto simp: defs)
    next
      case 6
      then show ?thesis by (cases "how s") (auto simp: defs)
    next
      case 7
      then show ?thesis by (cases "how s") (auto simp: defs)
    next
      case 8
      then show ?thesis
        by (cases "how s"; cases "ParseBool (set_value s)") (auto simp: defs ParseBool_def [of "''true''"])
    qed
  qed
  then show ?ok "setting_ok (replay_formal num) s \<Longrightarrow> store (replay_formal num) [s] c = Some c' \<Longrightarrow> c' = with_settings num [s] c" by blast+
qed

lemma with_settings_Cons: "with_settings num (s # ss) c = with_settings num ss (with_settings num [s] c)"
  by (simp add: with_settings_def)

lemma replay_store:
  "list_all (setting_ok (replay_formal num)) ss \<and> store (replay_formal num) ss c = Some c'
    \<longleftrightarrow> list_all (replay_setting num) ss \<and> c' = with_settings num ss c"
proof (induction ss arbitrary: c)
  case Nil
  then show ?case by (auto simp: with_settings_def)
next
  case (Cons s ss)
  note one = replay_store_one [of num s c]
  have st: "store (replay_formal num) (s # ss) c = (case store (replay_formal num) [s] c of None \<Rightarrow> None | Some c' \<Rightarrow> store (replay_formal num) ss c')"
    by (rule store_append)
  show ?case
  proof (cases "replay_setting num s")
    case True
    then obtain c1 where ok: "setting_ok (replay_formal num) s" and "store (replay_formal num) [s] c = Some c1" using one(1) by blast
    then have "store (replay_formal num) [s] c = Some (with_settings num [s] c)" using one(2) [OF ok] by blast
    then have "store (replay_formal num) (s # ss) c = store (replay_formal num) ss (with_settings num [s] c)" by (simp only: st option.case)
    then show ?thesis using Cons.IH [of "with_settings num [s] c"] ok True unfolding with_settings_Cons [of num s ss] by (simp only: list.pred_inject) blast
  next
    case False
    then have "setting_ok (replay_formal num) s \<Longrightarrow> store (replay_formal num) [s] c = None" using one(1) by (metis not_Some_eq)
    then have "\<not> (setting_ok (replay_formal num) s \<and> store (replay_formal num) (s # ss) c = Some c')" unfolding st by auto
    with False show ?thesis by (simp only: list.pred_inject) blast
  qed
qed

lemma replay_parse:
  "Parse (replay_formal num) args d = Inr (c, files) \<longleftrightarrow> (\<exists>ss tail. args = concat (map spell ss) @ tail
    \<and> list_all (replay_setting num) ss \<and> ends_flags tail files \<and> c = with_settings num ss d)"
  unfolding Parse_exact [OF replay_formal_names] using replay_store [of num _ d c] by blast

section \<open>Properties\<close>

text \<open>
  C21. The command lines of \<^verbatim>\<open>cmd/replay\<close>. The command starts on exactly those that are a sequence of settings,
  each spelled with one or two dashes and its value after an equals sign or as the next argument, of
  \<open>out\<close>, \<open>cpuprofile\<close> and \<open>memprofile\<close> with any text, \<open>shards\<close>, \<open>depth\<close> and \<open>repeat\<close> with an integer, \<open>speed\<close>
  with a number, and \<open>quiet\<close>, bare or with a boolean after an equals sign; followed by at least one file, the
  first of which does not look like a flag or comes after two dashes. It then runs on those files with,
  for each setting, the last value given, or else \<open>-\<close> for \<open>out\<close>, speed 0, one shard per CPU,
  depth 0, one repeat, no profiles, and not quiet. On every other command line it exits with 2, or
  with 0 when what stopped it was a request for help.
\<close>

theorem replay_flags_exact:
  "(replay_flags_of num zero numCPU args = Inr c \<longleftrightarrow>
      (\<exists>ss tail files. args = concat (map spell ss) @ tail \<and> list_all (replay_setting num) ss
        \<and> ends_flags tail files \<and> files \<noteq> []
        \<and> c = \<lparr>rf_files = files, rf_out = given ''out'' (\<lambda>v. Inr v :: unit + bytes) ss ''-'',
            rf_speed = given ''speed'' (float_of num) ss zero, rf_shards = given ''shards'' (int_of num) ss numCPU,
            rf_depth = given ''depth'' (int_of num) ss 0, rf_repeat = given ''repeat'' (int_of num) ss 1,
            rf_cpuProfile = given ''cpuprofile'' (\<lambda>v. Inr v :: unit + bytes) ss [],
            rf_memProfile = given ''memprofile'' (\<lambda>v. Inr v :: unit + bytes) ss [],
            rf_quiet = given ''quiet'' ParseBool ss False\<rparr>))
   \<and> (case replay_flags_of num zero numCPU args of
        Inl e \<Rightarrow> usage_exit e = (if e = FlagError HelpRequested then 0 else 2) | Inr _ \<Rightarrow> True)"
proof
  let ?d = "replay_defaults zero numCPU"
  have "replay_flags_of num zero numCPU args = Inr c \<longleftrightarrow>
      (\<exists>c0 files. Parse (replay_formal num) args ?d = Inr (c0, files) \<and> files \<noteq> [] \<and> c = c0\<lparr>rf_files := files\<rparr>)"
    by (auto simp: replay_flags_of_def split: sum.splits prod.splits)
  also have "\<dots> \<longleftrightarrow> (\<exists>ss tail files. args = concat (map spell ss) @ tail \<and> list_all (replay_setting num) ss
      \<and> ends_flags tail files \<and> files \<noteq> [] \<and> c = (with_settings num ss ?d)\<lparr>rf_files := files\<rparr>)"
    unfolding replay_parse by blast
  finally show "replay_flags_of num zero numCPU args = Inr c \<longleftrightarrow>
      (\<exists>ss tail files. args = concat (map spell ss) @ tail \<and> list_all (replay_setting num) ss
        \<and> ends_flags tail files \<and> files \<noteq> []
        \<and> c = \<lparr>rf_files = files, rf_out = given ''out'' (\<lambda>v. Inr v :: unit + bytes) ss ''-'',
            rf_speed = given ''speed'' (float_of num) ss zero, rf_shards = given ''shards'' (int_of num) ss numCPU,
            rf_depth = given ''depth'' (int_of num) ss 0, rf_repeat = given ''repeat'' (int_of num) ss 1,
            rf_cpuProfile = given ''cpuprofile'' (\<lambda>v. Inr v :: unit + bytes) ss [],
            rf_memProfile = given ''memprofile'' (\<lambda>v. Inr v :: unit + bytes) ss [],
            rf_quiet = given ''quiet'' ParseBool ss False\<rparr>)"
    by (simp add: with_settings_def replay_defaults_def)
  show "case replay_flags_of num zero numCPU args of
      Inl e \<Rightarrow> usage_exit e = (if e = FlagError HelpRequested then 0 else 2) | Inr _ \<Rightarrow> True"
    by (simp add: usage_exit_def flag_exit_def split: sum.split usage_error.split flag_failure.split)
qed

text \<open>
  C20. What \<^verbatim>\<open>cmd/replay\<close> does with its repeats and profiles. The command succeeds exactly when the CPU
  profile, if asked for, could be started, every repeat (at least one, whatever number is given)
  returned books and all of them render to the same bytes, and those bytes could be written; then they
  are what it wrote, to the standard output or to the file, and nothing else. The heap profile is
  never taken but in the last repeat, at most once and only when it is asked for, and then, when the command
  succeeds, exactly once; its failure is only logged.
\<close>

theorem replay_run_command_exact:
  assumes "replay_run_command io c once ok w = (errs, taken, res)"
  shows "(res = Inr w' \<longleftrightarrow> (rf_cpuProfile c \<noteq> [] \<longrightarrow> pf_create io (rf_cpuProfile c) \<and> pf_start_cpu io) \<and> ok (rf_out c)
      \<and> (\<exists>dump. (\<forall>i<nat (max (rf_repeat c) 1). \<exists>vs. once i = Inr vs \<and> renderDump vs = dump)
        \<and> w' = (if rf_out c = ''-'' then w\<lparr>dw_stdout := dw_stdout w @ dump\<rparr> else w\<lparr>dw_files := (dw_files w)(rf_out c \<mapsto> dump)\<rparr>)))
    \<and> (res = Inr w' \<longrightarrow> taken = (if rf_memProfile c \<noteq> [] then [nat (max (rf_repeat c) 1) - 1] else []))
    \<and> (taken = [] \<or> taken = [nat (max (rf_repeat c) 1) - 1] \<and> rf_memProfile c \<noteq> [])
    \<and> errs = concat (map (\<lambda>_. writeHeapProfile io (rf_memProfile c)) taken)"
proof (intro conjI impI)
  let ?n = "nat (max (rf_repeat c) 1)"
  have res: "res = (if rf_cpuProfile c \<noteq> [] \<and> \<not> (pf_create io (rf_cpuProfile c) \<and> pf_start_cpu io) then Inl CPUProfile
     else case replay_command (rf_repeat c) (rf_out c) once ok w of Inl e \<Rightarrow> Inl (CommandErr e) | Inr w' \<Rightarrow> Inr w')"
    using replay_run_command_result [of io c once ok w] assms by simp
  have agree: "replay_command (rf_repeat c) (rf_out c) once ok w =
      Inr (if rf_out c = ''-'' then w\<lparr>dw_stdout := dw_stdout w @ dump\<rparr> else w\<lparr>dw_files := (dw_files w)(rf_out c \<mapsto> dump)\<rparr>)"
    if "ok (rf_out c)" "\<forall>i<?n. \<exists>vs. once i = Inr vs \<and> renderDump vs = dump" for dump
  proof -
    have "repeat_loop 0 None (map once [0..<?n]) = Inr (Some dump)"
      using repeat_loop_agrees [of dump "map once [0..<?n]" None 0] that(2) by (simp add: list_all_iff)
    with that(1) show ?thesis by (simp add: replay_command_def Let_def writeDump_def)
  qed
  have ok: "ok (rf_out c)" if "replay_command (rf_repeat c) (rf_out c) once ok w = Inr w'"
    using that by (auto simp: replay_command_def Let_def writeDump_def split: sum.splits if_splits)
  show "res = Inr w' \<longleftrightarrow> (rf_cpuProfile c \<noteq> [] \<longrightarrow> pf_create io (rf_cpuProfile c) \<and> pf_start_cpu io) \<and> ok (rf_out c)
      \<and> (\<exists>dump. (\<forall>i<?n. \<exists>vs. once i = Inr vs \<and> renderDump vs = dump)
        \<and> w' = (if rf_out c = ''-'' then w\<lparr>dw_stdout := dw_stdout w @ dump\<rparr> else w\<lparr>dw_files := (dw_files w)(rf_out c \<mapsto> dump)\<rparr>))"
    (is "_ \<longleftrightarrow> ?cpu \<and> _ \<and> (\<exists>dump. ?all dump \<and> w' = ?w dump)")
  proof
    assume "res = Inr w'"
    then have cpu: ?cpu and cmd: "replay_command (rf_repeat c) (rf_out c) once ok w = Inr w'"
      unfolding res by (auto split: if_splits sum.splits)
    then show "?cpu \<and> ok (rf_out c) \<and> (\<exists>dump. ?all dump \<and> w' = ?w dump)"
      using replay_command_writes [OF cmd] ok [OF cmd] by blast
  next
    assume "?cpu \<and> ok (rf_out c) \<and> (\<exists>dump. ?all dump \<and> w' = ?w dump)"
    then obtain dump where cpu: ?cpu and d: "ok (rf_out c)" "?all dump" and w': "w' = ?w dump" by blast
    show "res = Inr w'" unfolding res using cpu agree [OF d] w' by auto
  qed
  have hook: "taken = [] \<and> \<not> is_ok res \<or> taken = fst (repeats_loop (rf_memProfile c \<noteq> []) ?n 0 None (map once [0..<?n]))
      \<and> (is_ok res \<longrightarrow> is_ok (snd (repeats_loop (rf_memProfile c \<noteq> []) ?n 0 None (map once [0..<?n]))))"
    using assms by (auto simp: replay_run_command_def Let_def split: if_splits prod.splits sum.splits)
  note last = repeats_loop_hook [of 0 "map once [0..<?n]" ?n "rf_memProfile c \<noteq> []" None]
  show "taken = (if rf_memProfile c \<noteq> [] then [?n - 1] else [])" if "res = Inr w'"
    using hook last that by auto
  show "taken = [] \<or> taken = [?n - 1] \<and> rf_memProfile c \<noteq> []" using hook last by auto
  show "errs = concat (map (\<lambda>_. writeHeapProfile io (rf_memProfile c)) taken)"
    using assms by (auto simp: replay_run_command_def Let_def split: if_splits prod.splits)
qed

text \<open>C20 on two repeats with a heap profile that cannot be created, of a replay that found no book.\<close>

theorem replay_run_command_exact_witness:
  "\<exists>w'. replay_run_command \<lparr>pf_create = (\<lambda>_. False), pf_start_cpu = True, pf_write_heap = True\<rparr>
      ((replay_defaults () 4)\<lparr>rf_repeat := 2, rf_memProfile := ''heap''\<rparr>) (\<lambda>_. Inr [] :: unit + BookView list) (\<lambda>_. True)
      \<lparr>dw_stdout = [], dw_files = Map.empty\<rparr> = ([''heap profile''], [1], Inr w') \<and> dw_stdout w' = renderDump []"
proof -
  let ?io = "\<lparr>pf_create = (\<lambda>_. False), pf_start_cpu = True, pf_write_heap = True\<rparr>"
  let ?c = "(replay_defaults () 4)\<lparr>rf_repeat := 2, rf_memProfile := ''heap''\<rparr>"
  let ?w = "\<lparr>dw_stdout = [], dw_files = Map.empty\<rparr>"
  let ?w' = "?w\<lparr>dw_stdout := dw_stdout ?w @ renderDump []\<rparr>"
  obtain errs taken res where r: "replay_run_command ?io ?c (\<lambda>_. Inr [] :: unit + BookView list) (\<lambda>_. True) ?w = (errs, taken, res)"
    by (metis prod_cases3)
  note e = replay_run_command_exact [OF r, of ?w']
  have "res = Inr ?w'" using e by (simp add: replay_defaults_def)
  moreover from this have t: "taken = [1]" using e by simp
  moreover have "errs = [''heap profile'']" using e unfolding t by (simp add: writeHeapProfile_def)
  ultimately show ?thesis using r by (intro exI [of _ ?w']) simp
qed

text \<open>
  C10. From the command line to the loop of the daemon. When the flags parse and \<open>run\<close> reaches its loop, then
  the symbols are one or more different BASE-QUOTE pairs, the metadata of the venue knows every one
  of them, the summary interval is positive, the stage has as many shards as asked for (one per CPU when
  that is not positive), the checker runs exactly when its interval is positive, and the state is the
  one the runs of the daemon start from.
\<close>

theorem ingestd_reaches_loop:
  assumes "ingestd_flags num uni numCPU args = Inr c"
    and "ingestd_start http marshal un_info numCPU disk c = Looping cache url client st ws line"
    and "0 < numCPU" and "in_i64 numCPU" and "\<And>v n. int_of num v = Inr n \<Longrightarrow> in_i64 n"
  shows "if_symbols c \<noteq> [] \<and> distinct (if_symbols c) \<and> list_all is_pair (if_symbols c)
    \<and> list_all (\<lambda>sy. RawSymbol cache sy \<noteq> None) (if_symbols c) \<and> 0 < if_summaryEvery c
    \<and> int (length (shards (ig_router st))) = (if if_shards c \<le> 0 then numCPU else if_shards c)
    \<and> (Checker (if_symbols c) (if_checkEvery c) \<in> set ws \<longleftrightarrow> 0 < if_checkEvery c)
    \<and> ingest_run numCPU (ingest_config_of disk c) io (Decode un_trade un_depth cache) S [] [] [] st"
proof -
  note ok = ingestd_flags_ok [OF assms(1) assms(5) assms(4)]
  have run: "ingest_setup http marshal un_info numCPU (ingest_config_of disk c) = Inr (cache, url, client, st)"
    and ws: "ws = workers c" and ev: "0 < if_summaryEvery c"
    using assms(2) by (auto simp: ingestd_start_def Let_def split: sum.splits if_splits)
  have url: "CombinedStreamURL (if_endpoint c) cache (if_symbols c) = Inr url"
    using run by (auto simp: ingest_setup_def ingest_config_of_def split: sum.splits)
  obtain r where r: "NewRouter numCPU (ingest_router_config (ingest_config_of disk c)) = Inr r" "Router_Start r = Inr (ig_router st)"
    using ingest_setup_router(1) [OF run] by blast
  from r(2) have "length (shards (ig_router st)) = length (shards r)" by (rule length_Router_Start)
  then have "int (length (shards (ig_router st))) = (if if_shards c \<le> 0 then numCPU else if_shards c)"
    using assms(3) r(1) by (auto simp: NewRouter_def ingest_router_config_def ingest_config_of_def Let_def split: if_splits)
  moreover have "ingest_run numCPU (ingest_config_of disk c) io (Decode un_trade un_depth cache) S [] [] [] st"
    by (rule ig_new [OF run refl assms(3,4)]) (use ok in \<open>simp add: ingest_config_of_def daemon_flags_ok_def\<close>)
  moreover have "Checker (if_symbols c) (if_checkEvery c) \<in> set ws \<longleftrightarrow> 0 < if_checkEvery c" by (simp add: ws workers_def)
  ultimately show ?thesis using ok ev url CombinedStreamURL_exact(1) by (auto simp: daemon_flags_ok_def)
qed

text \<open>C10 on a command line that sets hosts, shards and a directory for recordings.\<close>

definition ex_numbers :: "unit numbers" where
  "ex_numbers = \<lparr>int_of = (\<lambda>v. if v = ''1'' then Inr 1 else Inl ''parse error''), duration_of = (\<lambda>_. Inl ''parse error''), float_of = (\<lambda>_. Inr ())\<rparr>"

definition ex_args :: "bytes list" where
  "ex_args = [''-endpoint'', ''wss://host'', ''--rest-endpoint=https://host'', ''-shards=1'', ''-record-dir'', ''d'']"

lemma ex_ingestd_flags:
  "\<exists>c. ingestd_flags ex_numbers uni 1 ex_args = Inr c \<and> ingest_config_of (\<lambda>_. (True, Map.empty)) c = ex_config
    \<and> if_summaryEvery c = 30 * second"
proof -
  let ?f = "ingest_formal ex_numbers uni" and ?d = "ingest_defaults 1"
  let ?ss = "[\<lparr>two_dashes = False, how = Separate, set_name = ''endpoint'', set_value = ''wss://host''\<rparr>,
      \<lparr>two_dashes = True, how = Joined, set_name = ''rest-endpoint'', set_value = ''https://host''\<rparr>,
      \<lparr>two_dashes = False, how = Joined, set_name = ''shards'', set_value = ''1''\<rparr>,
      \<lparr>two_dashes = False, how = Separate, set_name = ''record-dir'', set_value = ''d''\<rparr>]"
  let ?c = "?d\<lparr>if_endpoint := ''wss://host'', if_restEndpoint := ''https://host'', if_shards := 1, if_recordDir := ''d''\<rparr>"
  have "ex_args = concat (map spell ?ss) @ []" by (simp add: ex_args_def spell_def dashed_def)
  moreover have "Parse ?f (concat (map spell ?ss) @ []) ?d = Inr (?c, [])"
    by (intro Parse_spelled [OF _ ingest_formal_names])
       (simp_all add: setting_ok_def ends_flags_def ingest_formal_def value_flag_def text_flag_def ex_numbers_def)
  ultimately show ?thesis
    by (simp add: ingestd_flags_def ingest_config_of_def ex_config_def ingest_defaults_def)
qed

theorem ingestd_reaches_loop_witness:
  "\<exists>c cache url client st ws line. ingestd_flags ex_numbers (\<lambda>v. v) 1 ex_args = Inr c
    \<and> ingestd_start (\<lambda>_. Inr (200, Inr ''{}'')) (\<lambda>_. []) (\<lambda>_. Inr ex_info) 1 (\<lambda>_. (True, Map.empty)) c = Looping cache url client st ws line
    \<and> length (shards (ig_router st)) = 1 \<and> RawSymbol cache ''BTC-USDT'' \<noteq> None"
proof -
  obtain c where c: "ingestd_flags ex_numbers (\<lambda>v. v) 1 ex_args = Inr c" "ingest_config_of (\<lambda>_. (True, Map.empty)) c = ex_config"
    "if_summaryEvery c = 30 * second" using ex_ingestd_flags by blast
  obtain url client st where "ingest_setup (\<lambda>_. Inr (200, Inr ''{}'')) (\<lambda>_. []) (\<lambda>_. Inr ex_info) 1 ex_config = Inr (ex_cache, url, client, st)"
    using ex_setup by blast
  then have l: "ingestd_start (\<lambda>_. Inr (200, Inr ''{}'')) (\<lambda>_. []) (\<lambda>_. Inr ex_info) 1 (\<lambda>_. (True, Map.empty)) c =
      Looping ex_cache url client st (workers c) (started_attrs c (ig_router st) client)"
    using c by (simp add: ingestd_start_def second_def)
  have "if_symbols c = [''BTC-USDT'']" "if_shards c = 1" using c(2) by (simp_all add: ingest_config_of_def ex_config_def)
  moreover have "in_i64 n" if "int_of ex_numbers v = Inr n" for v n
    using that by (auto simp: ex_numbers_def in_i64_def MinInt64_def MaxInt64_def split: if_splits)
  moreover have "in_i64 1" by (simp add: in_i64_def MinInt64_def MaxInt64_def)
  ultimately show ?thesis using ingestd_reaches_loop [OF c(1) l] c(1) l by auto
qed

text \<open>
  An interval that is not positive is accepted by the flags and stops the daemon once it has started
  everything else: the ticker panics. For the checker's interval the same value only turns it off.
\<close>

lemma summary_interval_panics:
  assumes "duration_of num v = Inr d" and "d \<le> 0"
    and "ingest_setup http marshal un_info numCPU (ingest_config_of disk ((ingest_defaults numCPU)\<lparr>if_symbols := [''BTC-USDT'']\<rparr>)) = Inr x"
  shows "\<exists>c line. ingestd_flags num uni numCPU [''-summary-interval'', v] = Inr c
    \<and> ingestd_start http marshal un_info numCPU disk c = TickerPanic line \<and> main_exit (RunPanicked :: ingest_error run_end) = 2"
proof -
  let ?s = "\<lparr>two_dashes = False, how = Separate, set_name = ''summary-interval'', set_value = v\<rparr>"
  let ?f = "ingest_formal num uni" and ?d = "ingest_defaults numCPU"
  have "Parse ?f (concat (map spell [?s]) @ []) ?d = Inr (?d\<lparr>if_summaryEvery := d\<rparr>, [])"
    using assms(1)
    by (intro Parse_spelled [OF _ ingest_formal_names])
       (simp_all add: setting_ok_def ends_flags_def ingest_formal_def value_flag_def)
  then have "ingestd_flags num uni numCPU [''-summary-interval'', v] = Inr (?d\<lparr>if_summaryEvery := d, if_symbols := [''BTC-USDT'']\<rparr>)"
    by (simp add: ingestd_flags_def spell_def dashed_def ingest_defaults_def)
  moreover obtain cache url client st where "x = (cache, url, client, st)" by (metis prod_cases4)
  ultimately show ?thesis
    using assms(2,3) by (simp add: ingestd_start_def ingest_config_of_def ingest_defaults_def Let_def main_exit_def)
qed

text \<open>The line a replay logs at its end adds up: every frame of the recording was routed or counted as an error.\<close>

lemma replayed_adds_up:
  assumes "once_run opn un un_info numCPU n files dec S fr dn s" and "on_phase s = LoopStopped err"
  shows "\<exists>src scale cs src' ws. NewReplaySource opn un files = Inr src \<and> Replay_Run opn un scale cs src = (src', fr, ws, err)
    \<and> Frames src' = Frames src + rp_routed (on_st s) + rp_decodeErrs (on_st s)"
  using once_stopped(1,3) [OF assms] Replay_Run_spec by (metis add.assoc)

text \<open>
  A replay that ran into the timeout dumps what it has, and nothing but the line it logs tells. So two
  replays of one recording, with the same answers from its snapshots, may dump different bytes: here
  one was read before the answer came.
\<close>

lemma ex_finish:
  "snd (dumpViews (\<lambda>_. patient) [''A-B''] 1 ex_handled) = Inr vs1 \<Longrightarrow> snd (dumpViews (\<lambda>_. patient) [''A-B''] 1 ex_synced) = Inr vs2 \<Longrightarrow>
    renderDump vs1 \<noteq> renderDump vs2"
proof -
  have "(case (snd (dumpViews (\<lambda>_. patient) [''A-B''] 1 ex_handled), snd (dumpViews (\<lambda>_. patient) [''A-B''] 1 ex_synced)) of
      (Inr vs1, Inr vs2) \<Rightarrow> renderDump vs1 \<noteq> renderDump vs2 | _ \<Rightarrow> False)" by code_simp
  then show "snd (dumpViews (\<lambda>_. patient) [''A-B''] 1 ex_handled) = Inr vs1 \<Longrightarrow> snd (dumpViews (\<lambda>_. patient) [''A-B''] 1 ex_synced) = Inr vs2 \<Longrightarrow>
    renderDump vs1 \<noteq> renderDump vs2" by simp
qed

lemma unsettled_dumps_differ:
  "\<exists>st1 st2 vs1 vs2. ex_replay_run (\<lambda>sy s. s = ex_snap) [ex_event] st1 \<and> ex_replay_run (\<lambda>sy s. s = ex_snap) [ex_event] st2
    \<and> snd (replay_finish (\<lambda>_. patient) src snaps 1 [] st1) = Inr vs1 \<and> snd (replay_finish (\<lambda>_. patient) src snaps 1 [] st2) = Inr vs2
    \<and> renderDump vs1 \<noteq> renderDump vs2"
proof -
  have "is_ok (snd (dumpViews (\<lambda>_. patient) [''A-B''] 1 ex_handled))" "is_ok (snd (dumpViews (\<lambda>_. patient) [''A-B''] 1 ex_synced))" by code_simp+
  then obtain vs1 vs2 where "snd (dumpViews (\<lambda>_. patient) [''A-B''] 1 ex_handled) = Inr vs1" "snd (dumpViews (\<lambda>_. patient) [''A-B''] 1 ex_synced) = Inr vs2"
    by (metis is_ok.simps(1) obj_sumE)
  moreover from this have "renderDump vs1 \<noteq> renderDump vs2" by (rule ex_finish)
  ultimately show ?thesis
    using ex_replay_handled [of "\<lambda>sy s. s = ex_snap"] ex_replay(1) [of "\<lambda>sy s. s = ex_snap"]
    by (intro exI [of _ "ex_replayed ex_handled"] exI [of _ "ex_replayed ex_synced"]) (auto simp: replay_finish_def ex_replayed_def Let_def)
qed

end
