(* ===== verification/Server.thy ===== *)
theory Server
  imports Commands
begin

text \<open>
  \<open>serveMetrics\<close> of \<^verbatim>\<open>cmd/ingestd/metrics.go\<close>: the listener, the goroutine inside \<open>Serve\<close>, and the one
  that waits for the context and calls \<open>Shutdown\<close>. \<open>server_step\<close> is one step of either, or of what is
  around them: the context is cancelled, a request comes in or ends, the listener breaks. Of \<^verbatim>\<open>net/http\<close> it has what the code
  relies on: \<open>Serve\<close> refuses to start once the server shuts down, accepts until its listener is closed and
  then returns \<open>ErrServerClosed\<close> when that was a shutdown; \<open>Shutdown\<close> marks the server, closes the
  listeners \<open>Serve\<close> has registered, and waits for the requests in progress until its own timeout.
\<close>

section \<open>Pages\<close>

text \<open>The mux: two exact paths; \<open>None\<close> is its answer that there is no such page.\<close>

definition serve_path ::
  "prom_floats \<Rightarrow> (bytes \<Rightarrow> bytes) \<Rightarrow> Router \<Rightarrow> Publisher \<Rightarrow> Recorder option \<Rightarrow> u64 option \<Rightarrow> instruments_t \<Rightarrow> bytes \<Rightarrow> http_reply option" where
  "serve_path fl fmt_q r p rc recon i path =
    (if path = ''/metrics'' then Some (metrics_page fl fmt_q r p rc recon i)
     else if path = ''/healthz'' then Some healthz_page
     else None)"

section \<open>The two goroutines\<close>

datatype serve_error = ErrServerClosed | AcceptError bytes

datatype serve_phase = BeforeServe | Serving | ServeReturned serve_error | Finished

datatype watch_phase = WatchSelect | WatchClosing | WatchPolling | WatchDone

record server_st =
  sv_call :: serve_phase
  sv_watch :: watch_phase
  sv_ctx :: bool
  sv_inShutdown :: bool
  sv_listenerClosed :: bool
  sv_done :: bool
  sv_active :: nat
  sv_lines :: "(log_level \<times> bytes) list"

text \<open>The start: without a listener there is one line and nothing runs.\<close>

definition serveMetrics :: "bytes + unit \<Rightarrow> bool \<Rightarrow> (log_level \<times> bytes) list + server_st" where
  "serveMetrics listen cancelled =
    (case listen of
       Inl e \<Rightarrow> Inl [(LevelError, ''metrics listen'')]
     | Inr _ \<Rightarrow> Inr \<lparr>sv_call = BeforeServe, sv_watch = WatchSelect, sv_ctx = cancelled, sv_inShutdown = False,
         sv_listenerClosed = False, sv_done = False, sv_active = 0, sv_lines = [(LevelInfo, ''metrics listening'')]\<rparr>)"

text \<open>The steps of the goroutines are those with the first argument true.\<close>

inductive server_step :: "bool \<Rightarrow> server_st \<Rightarrow> server_st \<Rightarrow> bool" where
  ss_cancel: "server_step False s (s\<lparr>sv_ctx := True\<rparr>)"
| ss_accept: "sv_call s = Serving \<Longrightarrow> \<not> sv_listenerClosed s \<Longrightarrow> server_step False s (s\<lparr>sv_active := sv_active s + 1\<rparr>)"
| ss_finish: "0 < sv_active s \<Longrightarrow> server_step False s (s\<lparr>sv_active := sv_active s - 1\<rparr>)"
| ss_serve: "sv_call s = BeforeServe \<Longrightarrow> \<not> sv_inShutdown s \<Longrightarrow> server_step True s (s\<lparr>sv_call := Serving\<rparr>)"
| ss_refused: "sv_call s = BeforeServe \<Longrightarrow> sv_inShutdown s \<Longrightarrow>
    server_step True s (s\<lparr>sv_call := ServeReturned ErrServerClosed, sv_listenerClosed := True\<rparr>)"
| ss_closed: "sv_call s = Serving \<Longrightarrow> sv_listenerClosed s \<Longrightarrow> server_step True s (s\<lparr>sv_call := ServeReturned ErrServerClosed\<rparr>)"
| ss_broken: "sv_call s = Serving \<Longrightarrow> \<not> sv_listenerClosed s \<Longrightarrow>
    server_step False s (s\<lparr>sv_call := ServeReturned (if sv_inShutdown s then ErrServerClosed else AcceptError e), sv_listenerClosed := True\<rparr>)"
| ss_return: "sv_call s = ServeReturned e \<Longrightarrow>
    server_step True s (s\<lparr>sv_call := Finished, sv_done := True,
      sv_lines := sv_lines s @ (if e = ErrServerClosed then [] else [(LevelError, ''metrics serve'')])\<rparr>)"
| ss_told: "sv_watch s = WatchSelect \<Longrightarrow> sv_ctx s \<Longrightarrow> server_step True s (s\<lparr>sv_watch := WatchClosing, sv_inShutdown := True\<rparr>)"
| ss_freed: "sv_watch s = WatchSelect \<Longrightarrow> sv_done s \<Longrightarrow> server_step True s (s\<lparr>sv_watch := WatchDone\<rparr>)"
| ss_close: "sv_watch s = WatchClosing \<Longrightarrow>
    server_step True s (s\<lparr>sv_watch := WatchPolling, sv_listenerClosed := sv_listenerClosed s \<or> sv_call s = Serving\<rparr>)"
| ss_drained: "sv_watch s = WatchPolling \<Longrightarrow> sv_active s = 0 \<Longrightarrow> server_step True s (s\<lparr>sv_watch := WatchDone\<rparr>)"
| ss_timeout: "sv_watch s = WatchPolling \<Longrightarrow>
    server_step True s (s\<lparr>sv_watch := WatchDone, sv_lines := sv_lines s @ [(LevelWarn, ''metrics shutdown'')]\<rparr>)"

inductive_cases server_stepE: "server_step own s s'"

inductive server_reach :: "server_st \<Rightarrow> bool" where
  sr_start: "serveMetrics (Inr ()) cancelled = Inr s \<Longrightarrow> server_reach s"
| sr_step: "server_reach s \<Longrightarrow> server_step own s s' \<Longrightarrow> server_reach s'"

section \<open>Stopping\<close>

definition server_inv :: "server_st \<Rightarrow> bool" where
  "server_inv s \<longleftrightarrow>
    (sv_done s \<longleftrightarrow> sv_call s = Finished)
    \<and> (sv_inShutdown s \<longrightarrow> sv_ctx s) \<and> (sv_watch s \<in> {WatchClosing, WatchPolling} \<longrightarrow> sv_inShutdown s)
    \<and> (sv_watch s = WatchSelect \<longrightarrow> \<not> sv_inShutdown s)
    \<and> (sv_call s = Serving \<and> sv_listenerClosed s \<longrightarrow> sv_inShutdown s)
    \<and> (sv_call s = Serving \<and> sv_watch s \<in> {WatchPolling, WatchDone} \<longrightarrow> sv_listenerClosed s)
    \<and> (sv_call s = BeforeServe \<and> sv_watch s = WatchDone \<longrightarrow> sv_inShutdown s)
    \<and> (sv_call s = BeforeServe \<longrightarrow> \<not> sv_listenerClosed s)"

lemma server_step_inv: "server_step own s s' \<Longrightarrow> server_inv s \<Longrightarrow> server_inv s'"
  by (induction rule: server_step.induct) (auto simp: server_inv_def)

lemma server_reach_inv: "server_reach s \<Longrightarrow> server_inv s"
proof (induction rule: server_reach.induct)
  case (sr_start cancelled s)
  then show ?case by (auto simp: server_inv_def serveMetrics_def)
next
  case (sr_step s own s')
  then show ?case using server_step_inv by blast
qed

text \<open>How far each goroutine is from returning.\<close>

definition server_rank :: "server_st \<Rightarrow> nat" where
  "server_rank s =
    (case sv_call s of BeforeServe \<Rightarrow> 3 | Serving \<Rightarrow> 2 | ServeReturned e \<Rightarrow> 1 | Finished \<Rightarrow> 0)
    + (case sv_watch s of WatchSelect \<Rightarrow> 3 | WatchClosing \<Rightarrow> 2 | WatchPolling \<Rightarrow> 1 | WatchDone \<Rightarrow> 0)"

lemma server_step_rank: "server_step own s s' \<Longrightarrow> (if own then server_rank s' < server_rank s else server_rank s' \<le> server_rank s)"
  by (induction rule: server_step.induct) (auto simp: server_rank_def split: watch_phase.split serve_phase.split)

lemma server_enabled:
  assumes "server_inv s" and "sv_ctx s" and "server_rank s \<noteq> 0"
  shows "\<exists>s'. server_step True s s'"
proof (cases "sv_watch s")
  case WatchDone
  with assms(1,3) show ?thesis
    by (cases "sv_call s") (auto simp: server_inv_def server_rank_def intro: ss_refused ss_closed ss_return)
qed (use assms(2) in \<open>auto intro: ss_told ss_close ss_timeout\<close>)

lemma server_keeps_serving:
  assumes "server_inv s" and "sv_call s = Serving" and "\<not> sv_ctx s"
  shows "\<not> server_step True s s'"
proof
  assume "server_step True s s'"
  then show False using assms by (cases rule: server_step.cases) (auto simp: server_inv_def)
qed

section \<open>Properties\<close>

text \<open>
  C11. The metrics endpoint serves until it is told to stop, and then it stops. Take every interleaving of its two
  goroutines with requests, with the cancellation and with a failure of the listener. Once the context is
  cancelled, as long as the goroutine that serves or the one that shuts down has not returned, one of
  them has a step of its own to take; each such step takes one of them nearer to its return,
  at most six in all, and nothing around them takes one further from it. Before the
  cancellation a server that serves takes no step of its own: only a failure of its listener can end it.
  \<open>serveMetrics\<close> returns only after \<open>Serve\<close> has, the context was cancelled whenever the server shuts
  down, and no request is accepted after the listeners were closed.
\<close>

theorem serveMetrics_stops:
  assumes "server_reach s"
  shows "(sv_ctx s \<longrightarrow> sv_call s = Finished \<and> sv_watch s = WatchDone \<or> (\<exists>s'. server_step True s s'))
    \<and> server_rank s \<le> 6 \<and> (\<forall>s'. server_step True s s' \<longrightarrow> server_rank s' < server_rank s)
    \<and> (\<forall>s'. server_step False s s' \<longrightarrow> server_rank s' \<le> server_rank s)
    \<and> (sv_call s = Serving \<and> \<not> sv_ctx s \<longrightarrow> (\<nexists>s'. server_step True s s'))
    \<and> (sv_done s \<longleftrightarrow> sv_call s = Finished) \<and> (sv_inShutdown s \<longrightarrow> sv_ctx s)
    \<and> (sv_watch s = WatchPolling \<longrightarrow> (\<forall>own s'. server_step own s s' \<longrightarrow> sv_active s' \<le> sv_active s))"
proof -
  have inv: "server_inv s" by (rule server_reach_inv [OF assms])
  have zero: "server_rank s = 0 \<longleftrightarrow> sv_call s = Finished \<and> sv_watch s = WatchDone"
    by (simp add: server_rank_def split: serve_phase.split watch_phase.split)
  have active: "sv_active s' \<le> sv_active s" if "sv_watch s = WatchPolling" "server_step own s s'" for own s'
    using that(2,1) inv by (cases rule: server_step.cases) (auto simp: server_inv_def)
  show ?thesis
  proof (intro conjI)
    show "sv_ctx s \<longrightarrow> sv_call s = Finished \<and> sv_watch s = WatchDone \<or> (\<exists>s'. server_step True s s')"
      using server_enabled [OF inv] zero by blast
    show "server_rank s \<le> 6" by (simp add: server_rank_def split: serve_phase.split watch_phase.split)
    show "\<forall>s'. server_step True s s' \<longrightarrow> server_rank s' < server_rank s" using server_step_rank [of True s] by simp
    show "\<forall>s'. server_step False s s' \<longrightarrow> server_rank s' \<le> server_rank s" using server_step_rank [of False s] by simp
    show "sv_call s = Serving \<and> \<not> sv_ctx s \<longrightarrow> (\<nexists>s'. server_step True s s')" using server_keeps_serving [OF inv] by blast
    show "sv_watch s = WatchPolling \<longrightarrow> (\<forall>own s'. server_step own s s' \<longrightarrow> sv_active s' \<le> sv_active s)" using active by blast
  qed (use inv in \<open>simp_all add: server_inv_def\<close>)
qed

text \<open>C11 in the state below, where \<open>serveMetrics\<close> has returned and a request is still being answered.\<close>

definition ex_server :: "serve_phase \<Rightarrow> watch_phase \<Rightarrow> bool \<Rightarrow> nat \<Rightarrow> server_st" where
  "ex_server c w ended n =
    \<lparr>sv_call = c, sv_watch = w, sv_ctx = ended, sv_inShutdown = w \<noteq> WatchSelect, sv_listenerClosed = (w = WatchPolling),
     sv_done = (c = Finished), sv_active = n, sv_lines = [(LevelInfo, ''metrics listening'')]\<rparr>"

lemma ex_server_reach: "server_reach (ex_server Finished WatchPolling True 1)"
proof -
  have "server_reach (ex_server BeforeServe WatchSelect False 0)"
    by (rule sr_start [of False]) (simp add: serveMetrics_def ex_server_def)
  then have "server_reach (ex_server Serving WatchSelect False 0)"
    by (rule sr_step) (use ss_serve [of "ex_server BeforeServe WatchSelect False 0"] in \<open>simp add: ex_server_def\<close>)
  then have "server_reach (ex_server Serving WatchSelect False 1)"
    by (rule sr_step) (use ss_accept [of "ex_server Serving WatchSelect False 0"] in \<open>simp add: ex_server_def\<close>)
  then have "server_reach (ex_server Serving WatchSelect True 1)"
    by (rule sr_step) (use ss_cancel [of "ex_server Serving WatchSelect False 1"] in \<open>simp add: ex_server_def\<close>)
  then have "server_reach (ex_server Serving WatchClosing True 1)"
    by (rule sr_step) (use ss_told [of "ex_server Serving WatchSelect True 1"] in \<open>simp add: ex_server_def\<close>)
  then have "server_reach (ex_server Serving WatchPolling True 1)"
    by (rule sr_step) (use ss_close [of "ex_server Serving WatchClosing True 1"] in \<open>simp add: ex_server_def\<close>)
  then have "server_reach (ex_server (ServeReturned ErrServerClosed) WatchPolling True 1)"
    by (rule sr_step) (use ss_closed [of "ex_server Serving WatchPolling True 1"] in \<open>simp add: ex_server_def\<close>)
  then show ?thesis
    by (rule sr_step) (use ss_return [of "ex_server (ServeReturned ErrServerClosed) WatchPolling True 1" ErrServerClosed] in \<open>simp add: ex_server_def\<close>)
qed

theorem serveMetrics_stops_witness:
  "(\<exists>s'. server_step True (ex_server Finished WatchPolling True 1) s') \<and> server_rank (ex_server Finished WatchPolling True 1) \<le> 6"
  using serveMetrics_stops [OF ex_server_reach] by (simp add: ex_server_def)

text \<open>
  Nothing makes \<open>serveMetrics\<close> wait for \<open>Shutdown\<close>: \<open>Serve\<close> returns as soon as its listener is closed, so the
  goroutine \<open>run\<close> waits for can be done while a request is still being answered and \<open>Shutdown\<close> is waiting
  for it.
\<close>

lemma serveMetrics_returns_early:
  "\<exists>s. server_reach s \<and> sv_call s = Finished \<and> sv_watch s = WatchPolling \<and> 0 < sv_active s"
  using ex_server_reach by (intro exI [of _ "ex_server Finished WatchPolling True 1"]) (simp add: ex_server_def)

end
