(* ===== verification/Spec2Isabelle.thy ===== *)
theory Spec2Isabelle
  imports Harness Shutdown Server
begin

text \<open>
  A verification development for market-stream, a Go service that ingests an exchange's market data,
  maintains order books from its deltas and snapshots, fans the events out to subscribers, records the
  stream and replays recordings. The definitions are translated from the sources; the theorems are
  stated over them.

  \<^bold>\<open>The program.\<close> The daemon (\<^verbatim>\<open>cmd/ingestd\<close>) reads websocket frames through the transport, hands each to the
  recorder, decodes it, routes the event to the shard that owns its symbol and publishes it. A shard
  owns the books of its symbols; each book is wrapped in a tracker, which checks the update ids, asks for
  a snapshot when they do not connect, buffers deltas meanwhile and replays them onto the snapshot. The
  replay command (\<^verbatim>\<open>cmd/replay\<close>) feeds a recording through the same decoder and stage and dumps the books.

  \<^bold>\<open>Theories and sources.\<close>
  \<^item> \<open>Prelude\<close>: int64 and uint64, wrap-around, Go's integer formatting and parsing, shared list lemmas.
  \<^item> \<open>Model\<close> (\<^verbatim>\<open>internal/model\<close>): prices, levels, events, frames, fixed-point parsing, formatting and notional.
  \<^item> \<open>Book\<close>, \<open>Sequencer\<close>, \<open>Tracker\<close>, \<open>Compare\<close> (\<^verbatim>\<open>internal/book\<close>): one operation per method. A \<open>Book\<close> is two ordered
    sides; \<open>Sequencer\<close> the position in the stream; \<open>Tracker\<close> the book, position, buffer, known range and
    counters; \<open>Compare\<close> the comparison with a fresh snapshot.
  \<^item> \<open>Venue\<close>, \<open>Harness\<close>: the abstract specification of what a book promises. A venue is a history of
    quantities, one per update id and price; a delta and a snapshot are faithful when they tell of it.
  \<^item> \<open>History\<close>: what a tracker has been given, as an invariant over its whole run: a settled stage has put every
    delta into its book, so the book it holds is a function of the deltas. \<open>Ranges\<close>: every value is an int64.
  \<^item> \<open>Shard\<close>, \<open>Router\<close> (\<^verbatim>\<open>internal/pipeline/shard.go\<close>, \<^verbatim>\<open>query.go\<close>): the state of a shard with its queue and the requests
    in flight, handlers, routing, lifecycle, queries, and the relation \<open>router_run\<close> of every interleaving.
  \<^item> \<open>Settle\<close>: the stage when nothing more is routed: turns of its loops in any order, and the potential they consume.
  \<^item> \<open>Queues\<close>: the interfaces of bounded queues that drop, shared by the publisher, tracker and recorder.
  \<^item> \<open>Publisher\<close> (\<^verbatim>\<open>publisher.go\<close>, \<^verbatim>\<open>logsub.go\<close>): fan-out, drop-oldest delivery and the log subscriber.
  \<^item> \<open>JsonScan\<close>, \<open>Instruments\<close>, \<open>Decode\<close>, \<open>Transport\<close> (\<^verbatim>\<open>internal/exchange/binance\<close>): the field scanner, the instrument
    cache and URLs, decoding of frames and depth responses, reconnection with backoff.
  \<^item> \<open>RecordFormat\<close>, \<open>Recorder\<close>, \<open>Replay\<close> (\<^verbatim>\<open>internal/record\<close>): the bytes of a recording, the writer that rotates
    files by the hour, the snapshot tee, the replay source and its snapshot store.
  \<^item> \<open>Histogram\<close>, \<open>Quantile\<close> (\<^verbatim>\<open>internal/metrics\<close>): buckets, observations, the text exposition, and quantiles over
    \<open>Float64\<close>, where a float64 is a rational and each operation is rounded to 53 bits, ties to even.
  \<^item> \<open>Ingest\<close>, \<open>Shutdown\<close>, \<open>RunLog\<close> (\<^verbatim>\<open>cmd/ingestd\<close>): the symbols flag, the start and the loop of the daemon, the checker and the
    exposition; the deferred calls that stop it; its summaries and pages. \<open>Server\<close> (\<^verbatim>\<open>metrics.go\<close>): the goroutines of the metrics endpoint. \<open>ReplayCmd\<close>, \<open>ReplayOnce\<close> (\<^verbatim>\<open>cmd/replay\<close>):
    handling, settling and dumping; the loop between the source's goroutine and the stage, the repeats and the file of
    the dump. \<open>Flags\<close>, \<open>Commands\<close>: command lines as the \<open>flag\<close> package reads them, both \<open>main\<close> functions up to the exit status,
    the workers and the ticker of the daemon, the profiles and the log lines of a replay. The commands are step relations that interleave their loops with the goroutines of the stages.

  \<^bold>\<open>Conventions.\<close> Structs are records, enums datatypes, Go maps functions to options (association lists
  where the order of iteration is read), errors are \<open>Inl\<close>. Counters are 64-bit words and wrap; int64 values are integers
  with \<open>wrap64\<close> written where an operation may overflow. An operation that blocks is one that is not enabled, or
  returns \<open>Inr None\<close>; a \<open>select\<close> that may also take the end of a context has that choice as an argument. Goroutines are the
  rules of \<open>inductive\<close> relations, so a theorem over a relation holds in every interleaving.

  \<^bold>\<open>Interfaces.\<close> Each is a locale, interpreted on the code's own definitions: \<open>level_store\<close> (a side of the book);
  \<open>bounded_queue\<close> with \<open>drop_oldest\<close> (subscriptions, the tracker's buffer) and \<open>drop_newest\<close> (the recorder's queue);
  \<open>snapshotter\<close> (the depth client, the depth client behind the tee, the replay's store); \<open>instruments\<close> (the instrument
  cache as the log subscriber uses it); \<open>closing_stage\<close> (what closing needs of the goroutines of a stage: the router on
  its own, and the router inside the shutdown of the daemon).

  \<^bold>\<open>What is shown.\<close>
  \<^item> Correct books: in every interleaving, a live book, and a live view returned by a query, holds the venue's
    quantities at the update id it reports; two trackers that are live at one id hold the same book; a stale book
    always has a request in flight, a snapshot that connects anchors it, a truncated one keeps the hole visible.
  \<^item> Progress: left to itself the stage settles in every interleaving, within a number of turns given by what is
    queued, what is in flight and how many answers fail or fall short; a replay reports that it has settled exactly when
    its stage is idle; closing ends within a number of steps given by what is queued and in flight, and drains the stage;
    shutting down never deadlocks; the metrics endpoint serves until it is cancelled and then stops within six steps of
    its goroutines.
  \<^item> Lossless path: routing keeps each symbol's events in order and loses none, up to and including closing; the
    daemon tells its subscriber of what the stage accepted, in order and up to a counted loss of the oldest, and counts
    every frame once; its deferred calls close no
    channel somebody can still send to, leave nothing accepted behind and never deadlock.
  \<^item> Replay: a replay handles every frame of the recording before it reads a book; what it waits for is final; its dump
    is the same on every machine, schedule and choice of complete snapshots of the venue, and the same as reading the books of
    the daemon that took the frames.
  \<^item> Harness: the comparison reports exactly the differing prices; with a faithful venue the daemon never counts
    a divergence.
  \<^item> Lossy paths: the publisher delivers an ordered subsequence ending in the newest event and counts the rest;
    the recorder keeps the oldest and marks its losses.
  \<^item> Round trips: fixed-point numbers, price levels, recordings, and recorder to replay; truncated files are
    reported.
  \<^item> Parsing: the scanner finds exactly the first member, decoding gives exactly the payload's values, the cache is
    exactly the trading symbols, the replay command accepts exactly the command lines that spell settings of its flags and
    runs with the last value given or the default, and the
    daemon that reaches its loop has distinct BASE-QUOTE pairs the venue knows.
  \<^item> Bounds and errors: int64 overflow is detected by parsing and notional, every number in the books is an int64, reconnect
    waits double up to their cap, a recording cut short yields exactly its whole records, a quantile stays in the bucket of its observation whatever is rounded, books and trackers keep their
    invariants on every error path.

  \<^bold>\<open>Termination.\<close> Every function of the model is total, by structural recursion or by a measure: binary search by the
  width of the interval, the scanner, the reader and the comparison by the input left. No fuel is used; loops that
  never end in the source (reconnection, shards, the daemon) are step relations or recursion over what the world does.

  \<^bold>\<open>Parameters.\<close> What is not under \<^verbatim>\<open>src/\<close> is an argument: zstd and the disk (bytes inside the stream and whether a call
  succeeds), \<open>json.Unmarshal\<close> and \<open>json.Marshal\<close>, HTTP exchanges, websocket reads, random jitter, clocks, the Unicode tables,
  \<open>%q\<close>, the order in which a map is iterated, the formatting and scaling of floating-point seconds, the reading of numbers and
  durations in flags, and whether profiles can be written. A hypothesis about one says what its
  documentation says, such as that unmarshalling inverts marshalling.

  \<^bold>\<open>Not modelled.\<close> Signals (a context may end at any time) and timers (a tick or a timeout may come at any time), the bytes of HTTP,
  the contents of profiles, the usage texts, log lines other than those of the log subscriber and the attributes of the
  summaries and of the first and last line of a run, and the scheduler: progress is stated as turns
  that are there to take and a bound on how many there are, so an unfair scheduler may still take none. A NaN or an
  infinite quantile and a fused product and sum are outside \<open>Float64\<close>. \<^verbatim>\<open>cmd/loadgen\<close>, \<^verbatim>\<open>internal/aggregate\<close> and
  \<^verbatim>\<open>internal/sink\<close> hold no code.
\<close>

section \<open>The daemon and the replay\<close>

text \<open>
  C5. A replay reproduces the books of the daemon. Let the daemon take some frames, in any
  interleaving, and let a replay, on another machine and with another number of shards, be given the
  same frames; both are served complete snapshots of one venue, each no later than the last delta of
  its symbol, and not necessarily the same ones. When both stages have settled, reading all the books
  of the daemon and dumping the replay give the same bytes, at every depth.
\<close>

theorem replay_reproduces_live:
  assumes "ingest_run n1 cfg1 io dec (\<lambda>sy. anchor_ok (vb sy) (va sy) (last_update sy (decoded dec fr))) fr pb dn1 st1"
    and "ig_pending st1 = None" and "stage_settled (ig_router st1)"
    and "replay_run n2 cfg2 dec (\<lambda>sy. anchor_ok (vb sy) (va sy) (last_update sy (decoded dec fr))) fr dn2 st2"
    and "queuesEmpty (rp_router st2)" and "snd (allLive cx (rp_symbols st2) (rp_router st2))"
    and "deltas_ok dec (\<lambda>sy. update_ok (vb sy) (va sy) (last_update sy (decoded dec fr))) fr"
  shows "\<exists>vs1 vs2. snd (dumpViews (\<lambda>_. patient) (rp_symbols st2) depth (ig_router st1)) = Inr vs1
    \<and> snd (dumpViews (\<lambda>_. patient) (rp_symbols st2) depth (rp_router st2)) = Inr vs2
    \<and> map view_Symbol vs1 = sorted_list_of_set (delta_symbols (decoded dec fr)) \<and> renderDump vs1 = renderDump vs2"
proof -
  let ?evs = "decoded dec fr"
  let ?D = "\<lambda>sy. update_ok (vb sy) (va sy) (last_update sy ?evs)" and ?S = "\<lambda>sy. anchor_ok (vb sy) (va sy) (last_update sy ?evs)"
  have ok1: "ingest_ok n1 cfg1 dec ?D ?S fr pb dn1 st1" by (rule ingest_run_ok [OF assms(1,7)])
  then have pb: "pb = ?evs" using assms(2) by (simp add: ingest_ok_def pending_events_def)
  have r1: "router_run n1 (ingest_router_config cfg1) True ?D ?S ?evs dn1 (ig_router st1)" "open_router (ig_router st1)"
    using ok1 by (simp_all add: ingest_ok_def pb)
  obtain ut ud cache where dec: "dec = Decode ut ud cache" using ingest_run_decoder [OF assms(1)] by blast
  have "event_ok True ?D ?S ev" if "f \<in> set fr" "dec f = Inr ev" for f ev
    using that assms(7) Decode_kind [of ut ud cache f ev] by (force simp: event_ok_def deltas_ok_def decoded_def dec)
  then have ok2: "replay_ok n2 cfg2 dec ?D ?S fr dn2 st2" by (rule replay_run_ok [OF assms(4)])
  then have r2: "router_run n2 cfg2 True ?D ?S ?evs dn2 (rp_router st2)" "open_router (rp_router st2)" by (simp_all add: replay_ok_def)
  note s2 = replay_settled [OF ok2 assms(5,6)]
  let ?T = "\<lambda>r sy. the (book_of r sy)" and ?d = "if depth \<le> 0 then MaxInt64 else depth"
  let ?vs = "\<lambda>r. map (\<lambda>sy. view_of sy ?d (?T r sy)) (sorted_list_of_set (delta_symbols ?evs))"
  have sub: "set (sorted_list_of_set (delta_symbols ?evs)) \<subseteq> delta_symbols ?evs"
    by (cases "finite (delta_symbols ?evs)") simp_all
  have books: "book_of (ig_router st1) sy = Some (?T (ig_router st1) sy)" "book (?T (ig_router st1) sy) = book (?T (rp_router st2) sy)"
    "Tracker_LastID (?T (ig_router st1) sy) = Tracker_LastID (?T (rp_router st2) sy)"
    "Live (?T (ig_router st1) sy)" "Live (?T (rp_router st2) sy)" if sy: "sy \<in> delta_symbols ?evs" for sy
  proof -
    obtain t1 t2 where t: "book_of (ig_router st1) sy = Some t1" "book_of (rp_router st2) sy = Some t2"
      using sy s2(2) [of sy] delta_has_book [OF r1(1) assms(3), of sy] unfolding delta_symbols_iff by blast
    with settled_same_book [OF r1 assms(3) t(1) r2 s2(1) t(2)] sy assms(3) s2(1)
    show "book_of (ig_router st1) sy = Some (?T (ig_router st1) sy)" "book (?T (ig_router st1) sy) = book (?T (rp_router st2) sy)"
      "Tracker_LastID (?T (ig_router st1) sy) = Tracker_LastID (?T (rp_router st2) sy)"
      "Live (?T (ig_router st1) sy)" "Live (?T (rp_router st2) sy)" by (simp_all add: delta_symbols_iff stage_settled_def)
  qed
  have "serving (ig_router st1)" using router_run_inv [OF r1(1)] r1(2) by (simp add: serving_def router_inv_def)
  then have "snd (dumpViews (\<lambda>_. patient) (rp_symbols st2) depth (ig_router st1)) = Inr (?vs (ig_router st1))"
    unfolding dumpViews_def replay_symbols_sorted [OF ok2] by (rule dump_loop_tracked) (use books(1) sub in blast)
  moreover have "map render_view (?vs (ig_router st1)) = map render_view (?vs (rp_router st2))"
    using books sub by (auto simp: render_view_def view_of_def)
  then have "renderDump (?vs (ig_router st1)) = renderDump (?vs (rp_router st2))" by (simp only: renderDump_def)
  moreover have "map view_Symbol (?vs (ig_router st1)) = sorted_list_of_set (delta_symbols ?evs)" by (simp add: view_of_def comp_def)
  ultimately show ?thesis using settled_dump [OF ok2 assms(5,6), of depth] by blast
qed

section \<open>A concrete daemon and its replay\<close>

definition ex_live_snap :: Snapshot where
  "ex_live_snap = zero_Snapshot\<lparr>snap_Symbol := ''BTC-USDT'', snap_LastID := 5\<rparr>"

definition ex_live :: Router where
  "ex_live = update_shard ex_stage_handled 0 (deliver 9 \<lparr>res_symbol = ''BTC-USDT'', res_snapshot = Inr ex_live_snap\<rparr>)"

lemma ex_live_facts:
  "queuesEmpty ex_live" "snd (allLive (\<lambda>_. patient) [''BTC-USDT''] ex_live)" "length (shards ex_live) = 1"
  by code_simp+

lemma ex_live_run:
  assumes "S ''BTC-USDT'' ex_live_snap"
  shows "\<exists>st. ingest_run 1 ex_config ex_io ex_decoder S [ex_frame] [ex_decoded] [ex_decoded] st \<and> ig_router st = ex_live \<and> ig_pending st = None"
proof -
  let ?run = "ingest_run 1 ex_config ex_io ex_decoder S"
  obtain st where st: "?run [ex_frame] [ex_decoded] [ex_decoded] st" "ig_router st = ex_stage_handled" "ig_pending st = None"
    using ex_daemon by blast
  from ig_result [OF st(1), of 0 "\<lparr>res_symbol = ''BTC-USDT'', res_snapshot = Inr ex_live_snap\<rparr>" 9]
  have "?run [ex_frame] [ex_decoded] [ex_decoded] (st\<lparr>ig_router := ex_live\<rparr>)"
    using assms by (simp add: st(2) ex_stage_handled_facts ex_live_def)
  with st(3) show ?thesis by (intro exI [of _ "st\<lparr>ig_router := ex_live\<rparr>"]) simp
qed

lemma ex_live_replay:
  assumes "S ''BTC-USDT'' ex_live_snap"
  shows "\<exists>st. replay_run 1 (ingest_router_config ex_config) ex_decoder S [ex_frame] [ex_decoded] st \<and> rp_router st = ex_live \<and> rp_symbols st = [''BTC-USDT'']"
proof -
  let ?run = "replay_run 1 (ingest_router_config ex_config) ex_decoder S" and ?st = "\<lambda>r. \<lparr>rp_router = r, rp_symbols = [''BTC-USDT''], rp_decodeErrs = 0, rp_routed = 1\<rparr>"
  have "?run [] [] \<lparr>rp_router = ex_stage, rp_symbols = [], rp_decodeErrs = 0, rp_routed = 0\<rparr>"
    by (rule rp_new [OF ex_stage_new(1) _ _ _ ex_stage_new(2)])
       (simp_all add: in_i64_def MinInt64_def MaxInt64_def ex_config_def ingest_router_config_def)
  then have "?run ([] @ [ex_frame]) [] (?st ex_stage_routed)"
    by (rule rp_frame [where cx = None]) (simp add: replay_handle_def ex_decode ex_stage_Route, simp add: ex_decoded_def)
  from rp_event [OF this, of 0 ex_decoded "[]" 7] have "?run [ex_frame] [ex_decoded] (?st ex_stage_handled)"
    by (simp add: ex_stage_facts ex_stage_handled_def)
  from rp_result [OF this, of 0 "\<lparr>res_symbol = ''BTC-USDT'', res_snapshot = Inr ex_live_snap\<rparr>" 9]
  have "?run [ex_frame] [ex_decoded] (?st ex_live)" using assms by (simp add: ex_stage_handled_facts ex_live_def)
  then show ?thesis by (intro exI [of _ "?st ex_live"]) simp
qed

abbreviation ex_live_bids :: "Symbol \<Rightarrow> venue_side" where
  "ex_live_bids sy k p \<equiv> (if p = 10050 \<and> 6 \<le> k then 200000 else 0)"

abbreviation ex_live_asks :: "Symbol \<Rightarrow> venue_side" where
  "ex_live_asks sy k p \<equiv> 0"

lemma ex_live_last: "last_update sy (decoded ex_decoder [ex_frame]) = (if sy = ''BTC-USDT'' then 8 else 0)"
  by (simp add: ex_decoded_frames last_update_def deltas_of_def ex_decoded_def)

text \<open>C5 on a daemon that took one delta, and on a replay of it.\<close>

theorem replay_reproduces_live_witness:
  "\<exists>vs1 vs2. snd (dumpViews (\<lambda>_. patient) [''BTC-USDT''] 0 ex_live) = Inr vs1 \<and> snd (dumpViews (\<lambda>_. patient) [''BTC-USDT''] 0 ex_live) = Inr vs2
    \<and> map view_Symbol vs1 = sorted_list_of_set (delta_symbols [ex_decoded]) \<and> renderDump vs1 = renderDump vs2"
proof -
  let ?S = "\<lambda>sy. anchor_ok (ex_live_bids sy) (ex_live_asks sy) (last_update sy (decoded ex_decoder [ex_frame]))"
  let ?D = "\<lambda>sy. update_ok (ex_live_bids sy) (ex_live_asks sy) (last_update sy (decoded ex_decoder [ex_frame]))"
  have S: "?S ''BTC-USDT'' ex_live_snap"
    unfolding ex_live_last by (simp add: anchor_ok_def snap_faithful_def ex_live_snap_def zero_Snapshot_def in_i64_def MinInt64_def MaxInt64_def)
  have "?D ''BTC-USDT'' (ev_BookDelta ex_decoded)" unfolding ex_live_last
    by (auto simp: update_ok_def delta_faithful_def levels_faithful_def delta_i64_def ex_decoded_def in_i64_def MinInt64_def MaxInt64_def)
  moreover have sy: "delta_Symbol (ev_BookDelta ex_decoded) = ''BTC-USDT''" by (simp add: ex_decoded_def)
  ultimately have D: "deltas_ok ex_decoder ?D [ex_frame]" unfolding deltas_ok_def ex_decoded_frames by simp
  obtain st1 where st1: "ingest_run 1 ex_config ex_io ex_decoder ?S [ex_frame] [ex_decoded] [ex_decoded] st1" "ig_router st1 = ex_live" "ig_pending st1 = None"
    using ex_live_run [of ?S] S by blast
  obtain st2 where st2: "replay_run 1 (ingest_router_config ex_config) ex_decoder ?S [ex_frame] [ex_decoded] st2" "rp_router st2 = ex_live" "rp_symbols st2 = [''BTC-USDT'']"
    using ex_live_replay [of ?S] S by blast
  have "event_ok True ?D ?S ev" if "f \<in> set [ex_frame]" "ex_decoder f = Inr ev" for f ev
    using that D by (auto simp: deltas_ok_def ex_decoded_frames ex_decode event_ok_def) (auto simp: ex_decoded_def)
  then have ok: "replay_ok 1 (ingest_router_config ex_config) ex_decoder ?D ?S [ex_frame] [ex_decoded] st2" by (rule replay_run_ok [OF st2(1)])
  have "stage_settled ex_live" using replay_settled(1) [OF ok, unfolded st2, OF ex_live_facts(1,2)] .
  then show ?thesis
    using replay_reproduces_live [OF st1(1,3) _ st2(1) _ _ D, unfolded st1 st2 ex_decoded_frames, OF _ ex_live_facts(1,2), where depth = 0] by blast
qed

end
